(* ===== verification/Elog_Prelude.thy ===== *)
theory Elog_Prelude
  imports Main "HOL-Library.Word" "HOL-Library.Signed_Division"
begin

text \<open>
  Shared vocabulary of the development: the machine types of the C++ code, the collections of
  hints the component theories feed and use, overwriting a range of a buffer
  (\<open>overwrite\<close>, what \<open>memcpy\<close> and the byte loops do), and the positional numerals every integer
  renderer of the library is compared with (\<open>radix_str\<close> prints a number, \<open>radix_val\<close> reads it
  back).
\<close>

unbundle bit_operations_syntax

type_synonym byte = char
type_synonym u8 = "8 word"
type_synonym u16 = "16 word"
type_synonym u32 = "32 word"
type_synonym u64 = "64 word"

named_theorems frame_intros \<open>what an operation on a buffer leaves unchanged\<close>
named_theorems size_simps \<open>lengths of rendered texts and of buffers\<close>

section \<open>Machine words\<close>

lemma sint_uint_if:
  "sint (w :: 'a :: len word) =
     (if uint w < 2 ^ (LENGTH('a) - 1) then uint w else uint w - 2 ^ LENGTH('a))"
proof -
  obtain n where n: "LENGTH('a) = Suc n" by (metis Suc_diff_1 len_gt_0)
  have s: "sint w = signed_take_bit n (uint w)" by (simp add: sint_uint n)
  have ub: "uint w < 2 ^ Suc n" using unsigned_less [of w, where 'a = int] n by simp
  have lb: "0 \<le> uint w" by simp
  show ?thesis
  proof (cases "uint w < 2 ^ n")
    case True
    have "signed_take_bit n (uint w) = uint w"
      by (rule signed_take_bit_int_eq_self) (use True lb in \<open>auto intro: order_trans [of _ 0]\<close>)
    with True show ?thesis using s n by simp
  next
    case False
    have "signed_take_bit n (uint w) = signed_take_bit n (uint w - 2 ^ Suc n)"
      by (simp add: signed_take_bit_eq_iff_take_bit_eq take_bit_eq_mod)
    also have "\<dots> = uint w - 2 ^ Suc n"
      using False ub by (intro signed_take_bit_int_eq_self) auto
    finally show ?thesis using False s n by simp
  qed
qed
lemma unat_drop_bit: "unat (drop_bit n (w :: 'a :: len word)) = unat w div 2 ^ n"
  by (simp only: unat_drop_bit_eq drop_bit_eq_div [of n "unat w"])
lemma drop_bit_zero_iff: "drop_bit n (w :: 'a :: len word) = 0 \<longleftrightarrow> unat w div 2 ^ n = 0"
  by (simp only: unat_drop_bit [symmetric] unat_eq_zero)

lemma unat_and_mask: "unat (w AND mask n :: 'a::len word) = unat w mod 2 ^ n"
  by (simp only: take_bit_eq_mask [symmetric] unsigned_take_bit_eq take_bit_eq_mod [of n "unat w"])
lemma unat_neg_sint: assumes "sint (v :: 64 word) < 0" shows "unat (- v) = nat (- sint v)"
proof -
  have b: "2 ^ 63 \<le> uint v" "uint v < 2 ^ 64" "sint v = uint v - 2 ^ 64"
    using assms unsigned_less [of v, where 'a = int] by (auto simp: sint_uint_if split: if_splits)
  have "uint (- v) = (- uint v) mod 2 ^ 64" by (simp add: uint_word_ariths)
  also have "\<dots> = (2 ^ 64 - uint v) mod 2 ^ 64" by (metis minus_mod_self1 uminus_add_conv_diff diff_self mod_add_self2)
  also have "\<dots> = 2 ^ 64 - uint v" by (rule mod_pos_pos_trivial) (use b in auto)
  finally show ?thesis using b(3) by (metis minus_diff_eq unat_eq_nat_uint)
qed
lemma sint64: "sint (v :: 64 word) = (if uint v < 2 ^ 63 then uint v else uint v - 2 ^ 64)"
  by (simp add: sint_uint_if)
lemma unat_pos_sint: assumes "0 \<le> sint (v :: 64 word)" shows "unat v = nat (sint v)"
proof -
  have "uint v < 2 ^ 64" using unsigned_less [of v, where 'a = int] by simp
  have "sint v = uint v" 
  proof (rule ccontr)
    assume "sint v \<noteq> uint v"
    then have "sint v = uint v - 2 ^ 64" using sint64 [of v] by metis
    then show False using assms \<open>uint v < 2 ^ 64\<close> by linarith
  qed
  then show ?thesis by simp
qed

section \<open>Overwriting a range of a buffer\<close>

definition overwrite :: "nat \<Rightarrow> 'a list \<Rightarrow> 'a list \<Rightarrow> 'a list" where
  "overwrite i xs ys = take i ys @ xs @ drop (i + length xs) ys"

lemma length_overwrite [simp, size_simps]:
  "i + length xs \<le> length ys \<Longrightarrow> length (overwrite i xs ys) = length ys"
  by (simp add: overwrite_def)

lemma take_overwrite [simp]:
  "n \<le> i \<Longrightarrow> i \<le> length ys \<Longrightarrow> take n (overwrite i xs ys) = take n ys"
  by (simp add: overwrite_def min_def)

lemma drop_overwrite [simp]:
  "i \<le> length ys \<Longrightarrow> take (length xs) (drop i (overwrite i xs ys)) = xs"
  by (simp add: overwrite_def)

lemma overwrite_Nil [simp]: "overwrite i [] ys = ys"
  by (simp add: overwrite_def)

lemma overwrite_overwrite:
  assumes "i + length xs \<le> length ys"
  shows "overwrite (i + length xs) zs (overwrite i xs ys) = overwrite i (xs @ zs) ys"
proof (cases "xs = []")
  case False
  then have "i < length ys" using assms by (cases xs) auto
  then show ?thesis using assms by (auto simp: overwrite_def min_def add_ac)
qed (simp add: overwrite_def)

lemma overwrite_before:
  assumes "i + length xs + length zs \<le> length ys"
  shows "overwrite i xs (overwrite (i + length xs) zs ys) = overwrite i (xs @ zs) ys"
proof -
  have "take i (take (i + length xs) ys @ zs @ drop (i + length xs + length zs) ys) = take i ys"
    using assms by simp
  moreover have "drop (i + length xs) (take (i + length xs) ys @ zs @ drop (i + length xs + length zs) ys) =
      zs @ drop (i + length xs + length zs) ys"
    using assms by simp
  ultimately show ?thesis by (simp add: overwrite_def add.assoc)
qed

lemma overwrite_single: "i < length ys \<Longrightarrow> overwrite i [x] ys = ys[i := x]"
  by (simp add: overwrite_def upd_conv_take_nth_drop)

text \<open>A region strictly below the overwritten range reads the same afterwards.\<close>

lemma region_overwrite [frame_intros]:
  assumes "a + n \<le> i" "i \<le> length ys"
  shows "take n (drop a (overwrite i xs ys)) = take n (drop a ys)"
proof -
  have "take n (drop a zs) = drop a (take (a + n) zs)" for zs :: "'a list"
    by (simp add: take_drop add.commute)
  then show ?thesis using assms by simp
qed

lemma region_eqI:
  assumes "take i ys = take i zs" "a + n \<le> i"
  shows "take n (drop a ys) = take n (drop a zs)"
proof -
  have eq: "take n (drop a us) = drop a (take (a + n) (take i us))" for us :: "'a list"
    using assms(2) by (simp add: take_drop add.commute min_def)
  show ?thesis by (simp only: eq assms(1))
qed

lemma region_update: "a + n \<le> i \<Longrightarrow> take n (drop a (xs[i := x])) = take n (drop a xs)"
  by (simp add: drop_update_swap)

section \<open>Positional numerals\<close>

definition digit_char :: "nat \<Rightarrow> char" where
  "digit_char d = (if d < 10 then char_of (48 + d) else char_of (97 + (d - 10)))"

definition digit_val :: "char \<Rightarrow> nat" where
  "digit_val c = (let k = (of_char c :: nat) in if k < 58 then k - 48 else k - 87)"

lemma digit_val_char [simp]: "d < 36 \<Longrightarrow> digit_val (digit_char d) = d"
  by (auto simp: digit_val_def digit_char_def Let_def)

text \<open>The digits of a number in base \<open>b\<close> (at least 2), most significant first, never empty.\<close>

function radix_str :: "nat \<Rightarrow> nat \<Rightarrow> string" where
  "radix_str b n =
     (if n < b \<or> b < 2 then [digit_char n] else radix_str b (n div b) @ [digit_char (n mod b)])"
  by pat_completeness auto
termination
  by (relation "measure snd") auto

declare radix_str.simps [simp del]

definition radix_val :: "nat \<Rightarrow> string \<Rightarrow> nat" where
  "radix_val b s = foldl (\<lambda>acc c. acc * b + digit_val c) 0 s"

lemma radix_val_Nil [simp]: "radix_val b [] = 0"
  by (simp add: radix_val_def)

lemma radix_val_snoc [simp]: "radix_val b (s @ [c]) = radix_val b s * b + digit_val c"
  by (simp add: radix_val_def)

lemma radix_small: "n < b \<Longrightarrow> radix_str b n = [digit_char n]"
  by (simp add: radix_str.simps)

lemma radix_large:
  "2 \<le> b \<Longrightarrow> b \<le> n \<Longrightarrow> radix_str b n = radix_str b (n div b) @ [digit_char (n mod b)]"
  by (simp add: radix_str.simps [of b n])

lemma radix_str_nonempty [simp]: "radix_str b n \<noteq> []"
  by (simp add: radix_str.simps [of b n])

lemma radix_val_str [simp]:
  assumes "2 \<le> b" "b \<le> 36"
  shows "radix_val b (radix_str b n) = n"
proof (induction n rule: less_induct)
  case (less n)
  show ?case
  proof (cases "n < b")
    case True
    then show ?thesis
      using assms radix_val_snoc [of b "[]"] by (simp add: radix_small del: radix_val_snoc)
  next
    case False
    have "n mod b < 36"
      using mod_less_divisor [of b n] assms by linarith
    with False less [of "n div b"] assms show ?thesis
      by (simp add: radix_large)
  qed
qed

lemma radix_str_inject:
  "2 \<le> b \<Longrightarrow> b \<le> 36 \<Longrightarrow> radix_str b m = radix_str b n \<longleftrightarrow> m = n"
  by (metis radix_val_str)

lemma length_radix_str:
  assumes "2 \<le> b" "n < b ^ k" "0 < k"
  shows "length (radix_str b n) \<le> k"
  using assms(2,3)
proof (induction k arbitrary: n)
  case 0
  then show ?case by simp
next
  case (Suc k)
  show ?case
  proof (cases "n < b")
    case True
    then show ?thesis by (simp add: radix_small)
  next
    case False
    then have "0 < k" using Suc.prems(1) assms(1) by (cases k) auto
    moreover have "n div b < b ^ k"
      using Suc.prems(1) assms(1) by (simp add: less_mult_imp_div_less mult.commute)
    ultimately have "length (radix_str b (n div b)) \<le> k" by (rule Suc.IH [rotated])
    with False show ?thesis by (simp add: radix_large assms(1))
  qed
qed

text \<open>A loop that peels off the least significant digit first builds the reversed numeral.\<close>

lemma radix_str_step:
  "2 \<le> b \<Longrightarrow> 0 < n \<Longrightarrow>
     radix_str b n = (if n div b = 0 then [] else radix_str b (n div b)) @ [digit_char (n mod b)]"
  by (auto simp: radix_str.simps [of b n] div_eq_0_iff)

definition is_digit :: "char \<Rightarrow> bool" where
  "is_digit c \<longleftrightarrow> 48 \<le> (of_char c :: nat) \<and> (of_char c :: nat) \<le> 57"

lemma is_digit_char [simp]: "d < 10 \<Longrightarrow> is_digit (digit_char d)"
  by (simp add: is_digit_def digit_char_def)

lemma radix_str_digits:
  assumes "2 \<le> b" "b \<le> 10" "c \<in> set (radix_str b n)"
  shows "is_digit c"
  using assms(3)
proof (induction n rule: less_induct)
  case (less n)
  show ?case
  proof (cases "n < b")
    case True
    with less.prems assms(2) show ?thesis by (simp add: radix_small)
  next
    case False
    then have "c \<in> set (radix_str b (n div b)) \<or> c = digit_char (n mod b)"
      using less.prems assms(1) by (auto simp: radix_large)
    moreover have "n mod b < 10" "n div b < n"
      using mod_less_divisor [of b n] False assms by (linarith, simp)
    ultimately show ?thesis using less.IH by auto
  qed
qed

end
