(* ===== verification/Elog_Level.thy ===== *)
theory Elog_Level
  imports Elog_Prelude
begin

text \<open>
  Severity levels: \<open>include/elog/level.hpp\<close> and \<open>src/level.cpp\<close>. The enumeration with its
  \<open>uint8_t\<close> values, its order (the order of the values) and the three tables.
\<close>

datatype Level = TRACE | DEBUG | INFO | WARN | ERROR | FATAL | OFF

primrec level_code :: "Level \<Rightarrow> u8" where
  "level_code TRACE = 0"
| "level_code DEBUG = 1"
| "level_code INFO = 2"
| "level_code WARN = 3"
| "level_code ERROR = 4"
| "level_code FATAL = 5"
| "level_code OFF = 6"

lemma level_code_inject [simp]: "level_code a = level_code b \<longleftrightarrow> a = b"
  by (cases a; cases b) simp_all

instantiation Level :: linorder
begin

definition less_eq_Level :: "Level \<Rightarrow> Level \<Rightarrow> bool" where
  "a \<le> b \<longleftrightarrow> level_code a \<le> level_code b"

definition less_Level :: "Level \<Rightarrow> Level \<Rightarrow> bool" where
  "a < b \<longleftrightarrow> level_code a < level_code b"

instance
proof
  fix x y z :: Level
  show "x < y \<longleftrightarrow> x \<le> y \<and> \<not> y \<le> x"
    unfolding less_eq_Level_def less_Level_def by (rule less_le_not_le)
  show "x \<le> x"
    by (simp add: less_eq_Level_def)
  show "x \<le> y \<Longrightarrow> y \<le> z \<Longrightarrow> x \<le> z"
    unfolding less_eq_Level_def by (rule order_trans)
  show "x \<le> y \<Longrightarrow> y \<le> x \<Longrightarrow> x = y"
    unfolding less_eq_Level_def by (metis order_antisym level_code_inject)
  show "x \<le> y \<or> y \<le> x"
    unfolding less_eq_Level_def by (rule linear)
qed

end

definition ESC :: char where
  "ESC = char_of (27 :: nat)"

primrec level_name :: "Level \<Rightarrow> string" where
  "level_name TRACE = ''TRACE''"
| "level_name DEBUG = ''DEBUG''"
| "level_name INFO = ''INFO''"
| "level_name WARN = ''WARN''"
| "level_name ERROR = ''ERROR''"
| "level_name FATAL = ''FATAL''"
| "level_name OFF = ''OFF''"

primrec level_color :: "Level \<Rightarrow> string" where
  "level_color TRACE = ESC # ''[37m''"
| "level_color DEBUG = ESC # ''[36m''"
| "level_color INFO = ESC # ''[32m''"
| "level_color WARN = ESC # ''[33m''"
| "level_color ERROR = ESC # ''[31m''"
| "level_color FATAL = ESC # ''[1;31m''"
| "level_color OFF = ''''"

definition level_color_reset :: string where
  "level_color_reset = ESC # ''[0m''"

lemma level_name_length [size_simps]: "length (level_name l) \<le> 5"
  by (cases l) simp_all

lemma level_name_inject: "level_name a = level_name b \<longleftrightarrow> a = b"
  by (cases a; cases b) simp_all

lemma level_le_OFF [simp]: "(l :: Level) \<le> OFF"
  by (cases l) (simp_all add: less_eq_Level_def)

lemma level_less_OFF: "l < OFF \<longleftrightarrow> l \<noteq> OFF"
  by (cases l) (simp_all add: less_Level_def)

end
