(* ===== verification/Elog_Memory.thy ===== *)
theory Elog_Memory
  imports Elog_Prelude "HOL-Library.Monad_Syntax"
begin

text \<open>
  The bytes a log line is made of: \<open>include/elog/iov.hpp\<close>, \<open>string_ref.hpp\<close>, \<open>scratch.hpp\<close>
  and \<open>iov_pack.hpp\<close>. An \<open>iov\<close> is a pointer and a length. The pointer is null, an offset into
  the calling thread's 4 KiB scratch buffer, or borrowed memory (a literal, the caller's
  string), written as the bytes readable from it. The scratch buffer and its write cursor are an
  \<open>rbuf\<close>; the code writes through the cursor with and without bounds checks, so every write here
  is an \<open>option\<close>, and \<open>None\<close> is the out-of-bounds write (undefined behaviour in C++).
  The locale \<open>renderer\<close> is the contract of the \<open>elog_render\<close> customization point
  (\<open>include/elog/render.hpp\<close>, \<open>docs/custom-types.md\<close>), and \<open>direct_renderer\<close> the stronger one the
  library's own overloads keep.
\<close>

section \<open>Pointers, iovecs and the scratch buffer\<close>

datatype ptr = Null | Scratch nat | Ext "byte list"

record iov =
  iov_base :: ptr
  iov_len :: nat

definition Iov :: "ptr \<Rightarrow> nat \<Rightarrow> iov" where
  "Iov p n = \<lparr>iov_base = p, iov_len = n\<rparr>"

lemma Iov_sel [simp]: "iov_base (Iov p n) = p" "iov_len (Iov p n) = n"
  by (simp_all add: Iov_def)

text \<open>What is read through an \<open>iov\<close>, given the scratch memory.\<close>

definition iov_bytes :: "byte list \<Rightarrow> iov \<Rightarrow> byte list" where
  "iov_bytes m v =
     (case iov_base v of
        Null \<Rightarrow> []
      | Scratch a \<Rightarrow> take (iov_len v) (drop a m)
      | Ext bs \<Rightarrow> take (iov_len v) bs)"

definition kScratchSize :: nat where
  "kScratchSize = 4096"

text \<open>\<open>size_t\<close> subtraction wraps around.\<close>

definition size_sub :: "nat \<Rightarrow> nat \<Rightarrow> nat" where
  "size_sub a b = (if b \<le> a then a - b else 2 ^ 64 + a - b)"

text \<open>
  What the renderers of one thread share: the buffer \<open>tls_scratch()\<close> returns, the cursor every
  renderer is handed, and the cached kernel thread id (0 when not yet asked for). A log call starts
  with the cursor at 0; the bytes of earlier calls stay in the buffer.
\<close>

record rbuf =
  mem :: "byte list"
  pos :: nat
  tid_cache :: u64

definition tls_scratch :: "rbuf \<Rightarrow> rbuf" where
  "tls_scratch b = b\<lparr>pos := 0\<rparr>"

definition rbuf_ok :: "rbuf \<Rightarrow> bool" where
  "rbuf_ok b \<longleftrightarrow> length (mem b) = kScratchSize"

text \<open>\<open>scratch[pos++] = c\<close>, and the loop that writes a string this way.\<close>

definition put_char :: "char \<Rightarrow> rbuf \<Rightarrow> rbuf option" where
  "put_char c b =
     (if pos b < length (mem b)
      then Some (b\<lparr>mem := (mem b)[pos b := c], pos := pos b + 1\<rparr>) else None)"

fun put_str :: "string \<Rightarrow> rbuf \<Rightarrow> rbuf option" where
  "put_str [] b = Some b"
| "put_str (c # cs) b = do { b' \<leftarrow> put_char c b; put_str cs b' }"

definition write_str :: "string \<Rightarrow> rbuf \<Rightarrow> rbuf" where
  "write_str s b = b\<lparr>mem := overwrite (pos b) s (mem b), pos := pos b + length s\<rparr>"

lemma write_str_sel [simp]:
  "pos (write_str s b) = pos b + length s"
  "mem (write_str s b) = overwrite (pos b) s (mem b)"
  by (simp_all add: write_str_def)

lemma write_str_Nil [simp]: "write_str [] b = b"
  by (simp add: write_str_def)

lemma write_str_append:
  assumes "pos b + length s \<le> length (mem b)"
  shows "write_str t (write_str s b) = write_str (s @ t) b"
  using assms by (simp add: write_str_def overwrite_overwrite add.assoc)

lemma write_str_ok:
  "rbuf_ok b \<Longrightarrow> pos b + length s \<le> kScratchSize \<Longrightarrow> rbuf_ok (write_str s b)"
  by (simp add: rbuf_ok_def)

text \<open>The unchecked writes succeed exactly when the text fits.\<close>

lemma put_str_eq:
  "put_str s b =
     (if s = [] \<or> pos b + length s \<le> length (mem b) then Some (write_str s b) else None)"
proof (induction s arbitrary: b)
  case Nil
  then show ?case by simp
next
  case (Cons c s)
  show ?case
  proof (cases "pos b < length (mem b)")
    case True
    then have "put_char c b = Some (write_str [c] b)"
      by (simp add: put_char_def write_str_def overwrite_single)
    then show ?thesis
      using True Cons.IH [of "write_str [c] b"] write_str_append [of b "[c]" s] by auto
  next
    case False
    then show ?thesis by (simp add: put_char_def)
  qed
qed

lemma put_str_Some:
  "put_str s b = Some b' \<Longrightarrow> b' = write_str s b \<and> (s = [] \<or> pos b + length s \<le> length (mem b))"
  by (auto simp: put_str_eq split: if_splits)

lemma put_str_fits:
  "pos b + length s \<le> length (mem b) \<Longrightarrow> put_str s b = Some (write_str s b)"
  by (simp add: put_str_eq)

text \<open>The result of writing a whole text at the cursor: \<open>Iov{scratch + old, pos - old}\<close>.\<close>

definition scratch_iov :: "nat \<Rightarrow> rbuf \<Rightarrow> iov" where
  "scratch_iov old b = Iov (Scratch old) (pos b - old)"

definition put_iov :: "string \<Rightarrow> rbuf \<Rightarrow> (iov \<times> rbuf) option" where
  "put_iov s b = do { b' \<leftarrow> put_str s b; Some (scratch_iov (pos b) b', b') }"

lemma put_iov_Some:
  "put_iov s b = Some (v, b') \<longleftrightarrow>
     b' = write_str s b \<and> v = Iov (Scratch (pos b)) (length s) \<and>
     (s = [] \<or> pos b + length s \<le> length (mem b))"
  by (auto simp: put_iov_def put_str_eq scratch_iov_def bind_eq_Some_conv split: if_splits)

lemma iov_bytes_written [simp]:
  "pos b + length s \<le> length (mem b) \<Longrightarrow>
     iov_bytes (overwrite (pos b) s (mem b)) (Iov (Scratch (pos b)) (length s)) = s"
  by (simp add: iov_bytes_def)

section \<open>String references and iov packs\<close>

text \<open>
  A \<open>string_ref\<close> is data and size; the constructor from \<open>const char*\<close> accepts null.
  A C string is written without its terminator.
\<close>

record string_ref =
  sr_data :: ptr
  sr_size :: nat

definition string_ref_of :: "string option \<Rightarrow> string_ref" where
  "string_ref_of s =
     (case s of
        None \<Rightarrow> \<lparr>sr_data = Null, sr_size = 0\<rparr>
      | Some t \<Rightarrow> \<lparr>sr_data = Ext t, sr_size = length t\<rparr>)"

text \<open>
  The per-call pool of \<open>Iov\<close> slots for renderers that return several segments. \<open>tls_iov_ctx\<close> is
  null when no log call is in flight.
\<close>

record iov_ctx =
  ctx_cap :: nat
  ctx_pos :: nat

definition iov_scratch_alloc :: "nat \<Rightarrow> iov_ctx option \<Rightarrow> nat option \<times> iov_ctx option" where
  "iov_scratch_alloc n ctx =
     (case ctx of
        None \<Rightarrow> (None, ctx)
      | Some c \<Rightarrow>
          if ctx_pos c + n > ctx_cap c then (None, ctx)
          else (Some (ctx_pos c), Some (c\<lparr>ctx_pos := ctx_pos c + n\<rparr>)))"

text \<open>Two allocations of one log call never overlap, and stay inside the pool.\<close>

lemma iov_scratch_alloc_bound:
  assumes "iov_scratch_alloc n (Some c) = (Some p, Some c')"
  shows "p = ctx_pos c \<and> ctx_pos c' = p + n \<and> ctx_pos c' \<le> ctx_cap c' \<and> ctx_cap c' = ctx_cap c"
  using assms by (auto simp: iov_scratch_alloc_def split: if_splits)

fun alloc_many :: "nat list \<Rightarrow> iov_ctx option \<Rightarrow> nat option list \<times> iov_ctx option" where
  "alloc_many [] ctx = ([], ctx)"
| "alloc_many (n # ns) ctx =
     (let (p, ctx') = iov_scratch_alloc n ctx; (ps, ctx'') = alloc_many ns ctx' in (p # ps, ctx''))"

lemma alloc_many_later:
  assumes "alloc_many ns (Some c) = (ps, ctx')" "Some q \<in> set ps"
  shows "ctx_pos c \<le> q"
  using assms
proof (induction ns arbitrary: c ps)
  case Nil
  then show ?case by simp
next
  case (Cons n ns)
  obtain p c1 where a: "iov_scratch_alloc n (Some c) = (p, Some c1)" "ctx_pos c \<le> ctx_pos c1"
    by (cases "ctx_pos c + n > ctx_cap c") (auto simp: iov_scratch_alloc_def)
  obtain ps' ctx2 where r: "alloc_many ns (Some c1) = (ps', ctx2)" by fastforce
  from Cons.prems a(1) r have ps: "ps = p # ps'" "ctx2 = ctx'" by simp_all
  show ?case
  proof (cases "Some q \<in> set ps'")
    case True
    with Cons.IH [of c1 ps'] r ps(2) a(2) show ?thesis by simp
  next
    case False
    with ps(1) Cons.prems(2) have "p = Some q" by simp
    with a(1) show ?thesis by (auto simp: iov_scratch_alloc_def split: if_splits)
  qed
qed

section \<open>The renderer contract\<close>

text \<open>
  Where a renderer may put its result: nowhere, in the scratch region between the old and the new
  cursor, or in borrowed memory that is long enough.
\<close>

definition in_range :: "nat \<Rightarrow> nat \<Rightarrow> iov \<Rightarrow> bool" where
  "in_range lo hi v \<longleftrightarrow>
     (case iov_base v of
        Null \<Rightarrow> iov_len v = 0
      | Scratch a \<Rightarrow> lo \<le> a \<and> a + iov_len v \<le> hi
      | Ext bs \<Rightarrow> iov_len v \<le> length bs)"

lemma in_range_mono: "in_range lo hi v \<Longrightarrow> lo' \<le> lo \<Longrightarrow> hi \<le> hi' \<Longrightarrow> in_range lo' hi' v"
  by (auto simp: in_range_def split: ptr.splits)

text \<open>What is below the cursor is left alone.\<close>

definition extends :: "rbuf \<Rightarrow> rbuf \<Rightarrow> bool" where
  "extends b b' \<longleftrightarrow>
     length (mem b') = length (mem b) \<and> pos b \<le> pos b' \<and> take (pos b) (mem b') = take (pos b) (mem b)"

lemma extends_refl [simp]: "extends b b"
  by (simp add: extends_def)

lemma extends_trans [trans]:
  assumes "extends b b'" "extends b' b''"
  shows "extends b b''"
proof -
  have "take (pos b) (mem b'') = take (pos b) (take (pos b') (mem b''))"
    using assms(1) by (simp add: extends_def min_def)
  also have "\<dots> = take (pos b) (mem b')"
    using assms by (simp add: extends_def min_def)
  finally show ?thesis using assms by (simp add: extends_def)
qed

lemma extends_rbuf_ok: "extends b b' \<Longrightarrow> rbuf_ok b \<Longrightarrow> rbuf_ok b'"
  by (simp add: extends_def rbuf_ok_def)

lemma extends_write_str [frame_intros]:
  "s = [] \<or> pos b + length s \<le> length (mem b) \<Longrightarrow> extends b (write_str s b)"
  by (auto simp: extends_def)

lemma extends_put_str [frame_intros]: "put_str s b = Some b' \<Longrightarrow> extends b b'"
  by (auto dest: put_str_Some intro: extends_write_str)

lemma iov_bytes_extends:
  assumes "extends b b'" "in_range lo (pos b) v"
  shows "iov_bytes (mem b') v = iov_bytes (mem b) v"
  using assms by (auto simp: iov_bytes_def extends_def in_range_def split: ptr.splits
      intro: region_eqI [where i = "pos b"])

text \<open>Rendering the arguments of one call, left to right, through one cursor.\<close>

fun render_seq :: "('a \<Rightarrow> rbuf \<Rightarrow> (iov \<times> rbuf) option) \<Rightarrow> 'a list \<Rightarrow> rbuf \<Rightarrow> (iov list \<times> rbuf) option" where
  "render_seq r [] b = Some ([], b)"
| "render_seq r (x # xs) b =
     do { (v, b') \<leftarrow> r x b; (vs, b'') \<leftarrow> render_seq r xs b'; Some (v # vs, b'') }"

text \<open>
  \<open>valid\<close> are the values whose pointers may be read, \<open>ok\<close> the thread states between two renderer
  calls, \<open>slack\<close> the bytes a renderer wants to see free beyond its own text.
\<close>

locale renderer =
  fixes render :: "'a \<Rightarrow> rbuf \<Rightarrow> (iov \<times> rbuf) option"
    and shown :: "'a \<Rightarrow> string"
    and slack :: nat
    and ok :: "rbuf \<Rightarrow> bool"
    and valid :: "'a \<Rightarrow> bool"
  assumes ok_rbuf: "ok b \<Longrightarrow> rbuf_ok b"
    and ok_keep: "render x b = Some (v, b') \<Longrightarrow> ok b \<Longrightarrow> valid x \<Longrightarrow> ok b'"
    and frame: "render x b = Some (v, b') \<Longrightarrow> ok b \<Longrightarrow> valid x \<Longrightarrow> extends b b'"
    and region: "render x b = Some (v, b') \<Longrightarrow> ok b \<Longrightarrow> valid x \<Longrightarrow> in_range (pos b) (pos b') v"
    and renders: "ok b \<Longrightarrow> valid x \<Longrightarrow> pos b + length (shown x) + slack \<le> kScratchSize \<Longrightarrow>
      \<exists>v b'. render x b = Some (v, b') \<and> pos b' \<le> pos b + length (shown x) \<and>
        iov_bytes (mem b') v = shown x"
begin

lemma seq_frame:
  "render_seq render xs b = Some (vs, b') \<Longrightarrow> ok b \<Longrightarrow> \<forall>x \<in> set xs. valid x \<Longrightarrow>
     ok b' \<and> extends b b' \<and> length vs = length xs \<and> (\<forall>v \<in> set vs. in_range (pos b) (pos b') v)"
proof (induction xs arbitrary: b vs)
  case Nil
  then show ?case by simp
next
  case (Cons x xs)
  from Cons.prems(1) obtain v b1 vs' where s: "render x b = Some (v, b1)"
    "render_seq render xs b1 = Some (vs', b')" "vs = v # vs'"
    by (auto simp: bind_eq_Some_conv)
  have e: "extends b b1" "ok b1" using frame ok_keep s(1) Cons.prems(2,3) by auto
  have ih: "ok b' \<and> extends b1 b' \<and> length vs' = length xs \<and> (\<forall>v \<in> set vs'. in_range (pos b1) (pos b') v)"
    using Cons.IH s(2) e(2) Cons.prems(3) by simp
  have le: "pos b \<le> pos b1" "pos b1 \<le> pos b'" using e ih by (auto simp: extends_def)
  have "in_range (pos b) (pos b') v"
    using in_range_mono [OF region [OF s(1) Cons.prems(2)]] le Cons.prems(3) by simp
  moreover have "\<forall>v \<in> set vs'. in_range (pos b) (pos b') v"
    using ih le in_range_mono by blast
  ultimately show ?case using e ih s(3) extends_trans by auto
qed

text \<open>
  The arguments of one call do not disturb each other: once all of them are rendered, each
  \<open>iov\<close> still reads as its own text.
\<close>

lemma seq_renders:
  "ok b \<Longrightarrow> \<forall>x \<in> set xs. valid x \<Longrightarrow>
     pos b + length (concat (map shown xs)) + slack \<le> kScratchSize \<Longrightarrow>
     \<exists>vs b'. render_seq render xs b = Some (vs, b') \<and> pos b' \<le> pos b + length (concat (map shown xs)) \<and>
       map (iov_bytes (mem b')) vs = map shown xs"
proof (induction xs arbitrary: b)
  case Nil
  then show ?case by simp
next
  case (Cons x xs)
  obtain v b1 where s: "render x b = Some (v, b1)" "pos b1 \<le> pos b + length (shown x)"
    "iov_bytes (mem b1) v = shown x"
    using renders [of b x] Cons.prems by auto
  have ok1: "ok b1" using ok_keep [OF s(1)] Cons.prems(1,2) by simp
  obtain vs b2 where t: "render_seq render xs b1 = Some (vs, b2)"
    "pos b2 \<le> pos b1 + length (concat (map shown xs))" "map (iov_bytes (mem b2)) vs = map shown xs"
    using Cons.IH [OF ok1] Cons.prems s(2) by auto
  have "iov_bytes (mem b2) v = shown x"
    using iov_bytes_extends [of b1 b2 "pos b" v] seq_frame [OF t(1) ok1]
      region [OF s(1) Cons.prems(1)] s(3) Cons.prems(2) by simp
  then show ?case using s t by auto
qed

end

text \<open>
  The library's own overloads do one of two things: write their text at the cursor and return
  exactly the written range, or leave the scratch buffer alone and return borrowed bytes.
\<close>

definition direct :: "rbuf \<Rightarrow> iov \<Rightarrow> rbuf \<Rightarrow> bool" where
  "direct b v b' \<longleftrightarrow>
     v = Iov (Scratch (pos b)) (pos b' - pos b) \<or>
     b' = b \<and> (\<forall>a. iov_base v \<noteq> Scratch a)"

locale direct_renderer = renderer +
  assumes direct: "render x b = Some (v, b') \<Longrightarrow> ok b \<Longrightarrow> valid x \<Longrightarrow> direct b v b'"
begin

text \<open>So comparing the pointer with the cursor tells the two cases apart.\<close>

lemma pointer_test:
  assumes "render x b = Some (v, b')" "ok b" "valid x"
  shows "iov_base v = Scratch (pos b' - iov_len v) \<longleftrightarrow> (\<exists>a. iov_base v = Scratch a)"
  using direct [OF assms] frame [OF assms] by (auto simp: direct_def extends_def)

end

text \<open>A renderer that writes one text at the cursor keeps the contract.\<close>

lemma direct_rendererI:
  assumes puts: "\<And>x b. rbuf_ok b \<Longrightarrow> \<exists>s. r x b = put_iov s b"
    and fits: "\<And>x b. rbuf_ok b \<Longrightarrow> pos b + length (sh x) + sl \<le> kScratchSize \<Longrightarrow> r x b = put_iov (sh x) b"
  shows "direct_renderer r sh sl rbuf_ok (\<lambda>_. True)"
proof
  fix x b v b'
  assume r: "r x b = Some (v, b')" and ok: "rbuf_ok b"
  obtain s where "r x b = put_iov s b" using puts [OF ok] by blast
  with r have s: "b' = write_str s b" "v = Iov (Scratch (pos b)) (length s)"
    "s = [] \<or> pos b + length s \<le> length (mem b)"
    by (auto simp: put_iov_Some)
  show e: "extends b b'" using s by (simp add: extends_write_str)
  show "rbuf_ok b'" by (rule extends_rbuf_ok [OF e ok])
  show "in_range (pos b) (pos b') v" using s by (simp add: in_range_def)
  show "direct b v b'" using s by (simp add: direct_def)
next
  fix x b
  assume ok: "rbuf_ok b" and fit: "pos b + length (sh x) + sl \<le> kScratchSize"
  have le: "pos b + length (sh x) \<le> length (mem b)"
    using ok fit by (simp add: rbuf_ok_def)
  then have "r x b = Some (Iov (Scratch (pos b)) (length (sh x)), write_str (sh x) b)"
    using fits [OF ok fit] by (simp add: put_iov_Some)
  then show "\<exists>v b'. r x b = Some (v, b') \<and> pos b' \<le> pos b + length (sh x) \<and> iov_bytes (mem b') v = sh x"
    using le by simp
qed simp

end
