(* ===== verification/Elog_Itoa.thy ===== *)
theory Elog_Itoa
  imports Elog_Memory
begin

text \<open>
  The integer renderers: \<open>u64_to_chars\<close>, \<open>i64_to_chars\<close>, \<open>hex\<close>, \<open>bin\<close> and pointers of
  \<open>src/render.cpp\<close>, \<open>oct\<close> of \<open>src/render_extra.cpp\<close>, \<open>write_uint\<close>, \<open>write_int\<close>, \<open>write_two\<close> and
  \<open>write_six\<close> of \<open>src/prologue.cpp\<close>. Each loop fills a temporary with the least significant digit
  first and copies it out backwards. They are compared with \<open>radix_str\<close>, so the printed text
  reads back as the number (\<open>int_val\<close>).
\<close>

section \<open>Reference numerals\<close>

definition int_str :: "int \<Rightarrow> string" where
  "int_str i = (if i < 0 then CHR ''-'' # radix_str 10 (nat (- i)) else radix_str 10 (nat i))"

definition int_val :: "string \<Rightarrow> int" where
  "int_val s = (if s \<noteq> [] \<and> hd s = CHR ''-'' then - int (radix_val 10 (tl s)) else int (radix_val 10 s))"

lemma radix_str_no_minus: "2 \<le> b \<Longrightarrow> b \<le> 10 \<Longrightarrow> hd (radix_str b n) \<noteq> CHR ''-''"
  using radix_str_digits [of b "hd (radix_str b n)" n] by (auto simp: is_digit_def)

lemma int_val_str [simp]: "int_val (int_str i) = i"
  using radix_str_no_minus [of 10 "nat i"] by (auto simp: int_val_def int_str_def)

lemma int_str_inject [simp]: "int_str i = int_str j \<longleftrightarrow> i = j"
  by (metis int_val_str)

lemma digit_char_0: "digit_char 0 = CHR ''0''"
  by code_simp

section \<open>Decimal\<close>

text \<open>\<open>while (v) { tmp[n++] = '0' + v % 10; v /= 10; }\<close>: the contents of \<open>tmp\<close>.\<close>

function dec_loop :: "u64 \<Rightarrow> string" where
  "dec_loop v = (if v = 0 then [] else char_of (48 + unat (v mod 10)) # dec_loop (v div 10))"
  by pat_completeness auto
termination
proof (relation "measure unat")
  fix v :: u64
  assume "v \<noteq> 0"
  then have "0 < unat v" by (simp add: unat_gt_0)
  then show "(v div 10, v) \<in> measure unat" by (simp add: unat_div)
qed simp

declare dec_loop.simps [simp del]

lemma dec_loop_0 [simp]: "dec_loop 0 = []"
  by (simp add: dec_loop.simps)

lemma rev_dec_loop: "v \<noteq> 0 \<Longrightarrow> rev (dec_loop v) = radix_str 10 (unat v)"
proof (induction v rule: dec_loop.induct)
  case (1 v)
  have "digit_char (unat (v mod 10)) = char_of (48 + unat (v mod 10))"
    by (simp add: digit_char_def unat_mod)
  moreover have "v div 10 = 0 \<longleftrightarrow> unat v div 10 = 0"
    by (simp add: unat_eq_zero [symmetric] unat_div del: unat_eq_zero)
  moreover have "0 < unat v" using 1(2) by (simp add: unat_gt_0)
  ultimately show ?case
    using 1 by (subst radix_str_step) (auto simp: dec_loop.simps [of v] unat_div unat_mod)
qed

definition u64_to_chars :: "u64 \<Rightarrow> string" where
  "u64_to_chars v = (if v = 0 then ''0'' else rev (dec_loop v))"

lemma u64_to_chars_radix [simp]: "u64_to_chars v = radix_str 10 (unat v)"
  by (simp add: u64_to_chars_def rev_dec_loop radix_small digit_char_0)

text \<open>The temporary has 24 bytes; 20 are enough.\<close>

lemma radix_10_length [size_simps]: "length (radix_str 10 (unat (v :: u64))) \<le> 20"
proof (rule length_radix_str)
  have "unat v < 2 ^ 64" using unsigned_less [of v] by simp
  also have "(2 :: nat) ^ 64 < 10 ^ 20" by simp
  finally show "unat v < 10 ^ 20" .
qed simp_all

definition i64_to_chars :: "u64 \<Rightarrow> string" where
  "i64_to_chars v =
     (if sint v < 0 then CHR ''-'' # u64_to_chars ((- (v + 1)) + 1) else u64_to_chars v)"

lemma i64_to_chars_int [simp]: "i64_to_chars v = int_str (sint v)"
  by (simp add: i64_to_chars_def int_str_def unat_neg_sint unat_pos_sint)

section \<open>Powers of two\<close>

definition hex_digit :: "u64 \<Rightarrow> char" where
  "hex_digit d = (if d < 10 then char_of (48 + unat d) else char_of (97 + unat (d - 10)))"

function hex_loop :: "u64 \<Rightarrow> string" where
  "hex_loop u = (if u = 0 then [] else hex_digit (u AND 0xF) # hex_loop (drop_bit 4 u))"
  by pat_completeness auto
termination
proof (relation "measure unat")
  fix u :: u64
  assume "u \<noteq> 0"
  then have "0 < unat u" by (simp add: unat_gt_0)
  then show "(drop_bit 4 u, u) \<in> measure unat" by (simp add: unat_drop_bit)
qed simp

declare hex_loop.simps [simp del]

lemma hex_loop_0 [simp]: "hex_loop 0 = []"
  by (simp add: hex_loop.simps)

function bin_loop :: "u64 \<Rightarrow> string" where
  "bin_loop u = (if u = 0 then [] else char_of (48 + unat (u AND 1)) # bin_loop (drop_bit 1 u))"
  by pat_completeness auto
termination
proof (relation "measure unat")
  fix u :: u64
  assume "u \<noteq> 0"
  then have "0 < unat u" by (simp add: unat_gt_0)
  then show "(drop_bit 1 u, u) \<in> measure unat" by (simp add: unat_drop_bit)
qed simp

declare bin_loop.simps [simp del]

lemma bin_loop_0 [simp]: "bin_loop 0 = []"
  by (simp add: bin_loop.simps)

lemma unat_and_15: "unat (u AND 0xF :: u64) = unat u mod 16"
  using unat_and_mask [of u 4] by (simp add: mask_eq_exp_minus_1)

lemma unat_and_1: "unat (u AND 1 :: u64) = unat u mod 2"
  using unat_and_mask [of u 1] by (simp add: mask_eq_exp_minus_1)

lemma hex_digit_char: "hex_digit (u AND 0xF) = digit_char (unat u mod 16)"
  using unat_and_15 [of u] 
  by (auto simp: hex_digit_def digit_char_def word_less_nat_alt unat_sub_if_size)

lemma rev_hex_loop: "u \<noteq> 0 \<Longrightarrow> rev (hex_loop u) = radix_str 16 (unat u)"
proof (induction u rule: hex_loop.induct)
  case (1 u)
  have "drop_bit 4 u = 0 \<longleftrightarrow> unat u div 16 = 0"
    using drop_bit_zero_iff [of 4 u] by simp
  moreover have "0 < unat u" using 1(2) by (simp add: unat_gt_0)
  ultimately show ?case
    using 1 by (subst radix_str_step) (auto simp: hex_loop.simps [of u] unat_drop_bit hex_digit_char)
qed

lemma rev_bin_loop: "u \<noteq> 0 \<Longrightarrow> rev (bin_loop u) = radix_str 2 (unat u)"
proof (induction u rule: bin_loop.induct)
  case (1 u)
  have "drop_bit 1 u = 0 \<longleftrightarrow> unat u div 2 = 0"
    using drop_bit_zero_iff [of 1 u] by simp
  moreover have "0 < unat u" using 1(2) by (simp add: unat_gt_0)
  moreover have "digit_char (unat u mod 2) = char_of (48 + unat (u AND 1))"
    by (simp add: digit_char_def unat_and_1)
  ultimately show ?case
    using 1 by (subst radix_str_step) (auto simp: bin_loop.simps [of u] unat_drop_bit)
qed

section \<open>Into the scratch buffer\<close>

definition render_unsigned :: "u64 \<Rightarrow> rbuf \<Rightarrow> (iov \<times> rbuf) option" where
  "render_unsigned v b = put_iov (u64_to_chars v) b"

definition render_signed :: "u64 \<Rightarrow> rbuf \<Rightarrow> (iov \<times> rbuf) option" where
  "render_signed v b = put_iov (i64_to_chars v) b"

definition render_hex :: "u64 \<Rightarrow> rbuf \<Rightarrow> (iov \<times> rbuf) option" where
  "render_hex u b = (if u = 0 then put_iov ''0'' b else put_iov (rev (hex_loop u)) b)"

definition render_bin :: "u64 \<Rightarrow> rbuf \<Rightarrow> (iov \<times> rbuf) option" where
  "render_bin u b = (if u = 0 then put_iov ''0'' b else put_iov (rev (bin_loop u)) b)"

definition render_pointer :: "u64 \<Rightarrow> rbuf \<Rightarrow> (iov \<times> rbuf) option" where
  "render_pointer u b =
     do {
       b1 \<leftarrow> put_str ''0x'' b;
       if u = 0 then do { b2 \<leftarrow> put_str ''0'' b1; Some (scratch_iov (pos b) b2, b2) }
       else do { b2 \<leftarrow> put_str (rev (hex_loop u)) b1; Some (scratch_iov (pos b) b2, b2) }
     }"

text \<open>\<open>oct\<close> formats with \<open>snprintf("%llo")\<close> and copies what fits.\<close>

definition bound_avail :: "nat \<Rightarrow> nat" where
  "bound_avail p = (if p \<ge> 4096 then 0 else 4096 - p)"

definition render_oct :: "u64 \<Rightarrow> rbuf \<Rightarrow> (iov \<times> rbuf) option" where
  "render_oct v b =
     (let tmp = radix_str 8 (unat v);
          want = length tmp;
          avail = bound_avail (pos b);
          want = (if want > avail then avail else want)
      in put_iov (take want tmp) b)"

lemma hex_text: "(if u = 0 then ''0'' else rev (hex_loop u)) = radix_str 16 (unat u)"
  by (simp add: rev_hex_loop radix_small digit_char_0)

lemma bin_text: "(if u = 0 then ''0'' else rev (bin_loop u)) = radix_str 2 (unat u)"
  by (simp add: rev_bin_loop radix_small digit_char_0)

lemma render_hex_put: "render_hex u b = put_iov (radix_str 16 (unat u)) b"
  by (simp add: render_hex_def flip: hex_text)

lemma render_bin_put: "render_bin u b = put_iov (radix_str 2 (unat u)) b"
  by (simp add: render_bin_def flip: bin_text)

lemma put_str_put_str:
  "s \<noteq> [] \<Longrightarrow> t \<noteq> [] \<Longrightarrow>
     do { b1 \<leftarrow> put_str s b; b2 \<leftarrow> put_str t b1; f b2 } = do { b2 \<leftarrow> put_str (s @ t) b; f b2 }"
  by (auto simp: put_str_eq write_str_append)

lemma render_pointer_put: "render_pointer u b = put_iov (''0x'' @ radix_str 16 (unat u)) b"
proof -
  have "render_pointer u b =
      do { b1 \<leftarrow> put_str ''0x'' b; b2 \<leftarrow> put_str (radix_str 16 (unat u)) b1;
           Some (scratch_iov (pos b) b2, b2) }"
    by (simp add: render_pointer_def flip: hex_text)
  also have "\<dots> = put_iov (''0x'' @ radix_str 16 (unat u)) b"
    by (subst put_str_put_str) (simp_all add: put_iov_def)
  finally show ?thesis .
qed

lemma unat_u64_less: "unat (u :: u64) < 2 ^ 64"
  using unsigned_less [of u, where 'a = nat] by simp

lemma radix_16_length [size_simps]: "length (radix_str 16 (unat (u :: u64))) \<le> 16"
  by (rule length_radix_str) (use unat_u64_less [of u] in simp_all)

lemma radix_8_length [size_simps]: "length (radix_str 8 (unat (u :: u64))) \<le> 22"
  by (rule length_radix_str) (use unat_u64_less [of u] in simp_all)

lemma radix_2_length [size_simps]: "length (radix_str 2 (unat (u :: u64))) \<le> 64"
  by (rule length_radix_str) (use unat_u64_less [of u] in simp_all)

interpretation unsigned: direct_renderer render_unsigned
  "\<lambda>v. radix_str 10 (unat v)" 0 rbuf_ok "\<lambda>_. True"
  by (rule direct_rendererI) (auto simp: render_unsigned_def)

interpretation signed: direct_renderer render_signed
  "\<lambda>v. int_str (sint v)" 0 rbuf_ok "\<lambda>_. True"
  by (rule direct_rendererI) (auto simp: render_signed_def)

interpretation hex: direct_renderer render_hex
  "\<lambda>v. radix_str 16 (unat v)" 0 rbuf_ok "\<lambda>_. True"
  by (rule direct_rendererI) (auto simp: render_hex_put)

interpretation bin: direct_renderer render_bin
  "\<lambda>v. radix_str 2 (unat v)" 0 rbuf_ok "\<lambda>_. True"
  by (rule direct_rendererI) (auto simp: render_bin_put)

interpretation pointer: direct_renderer render_pointer
  "\<lambda>v. ''0x'' @ radix_str 16 (unat v)" 0 rbuf_ok "\<lambda>_. True"
  by (rule direct_rendererI) (auto simp: render_pointer_put)

interpretation oct: direct_renderer render_oct
  "\<lambda>v. radix_str 8 (unat v)" 0 rbuf_ok "\<lambda>_. True"
  by (rule direct_rendererI)
    (auto simp: render_oct_def Let_def bound_avail_def kScratchSize_def)

section \<open>The prologue's own writers\<close>

definition write_uint :: "u64 \<Rightarrow> string" where
  "write_uint v = (if v = 0 then ''0'' else rev (dec_loop v))"

definition write_int :: "u32 \<Rightarrow> string" where
  "write_int v =
     (if sint v < 0 then CHR ''-'' # write_uint (of_int (- sint v)) else write_uint (of_int (sint v)))"

lemma write_uint_radix [simp]: "write_uint v = radix_str 10 (unat v)"
  using u64_to_chars_radix [of v] by (simp only: write_uint_def u64_to_chars_def)

lemma unat_of_int_64: "0 \<le> i \<Longrightarrow> i < 2 ^ 64 \<Longrightarrow> unat (of_int i :: u64) = nat i"
  by (simp add: unat_eq_nat_uint uint_word_of_int_eq take_bit_int_eq_self)

lemma write_int_str [simp]: "write_int v = int_str (sint v)"
proof -
  have "- (2 ^ 31) \<le> sint v" "sint v < 2 ^ 31"
    using sint_ge [of v] sint_lt [of v] by simp_all
  then have "sint v < 0 \<Longrightarrow> unat (of_int (- sint v) :: u64) = nat (- sint v)"
    and "0 \<le> sint v \<Longrightarrow> unat (of_int (sint v) :: u64) = nat (sint v)"
    by (intro unat_of_int_64; simp)+
  then show ?thesis
    by (simp only: write_int_def int_str_def write_uint_radix not_less split: if_split) auto
qed

end
