(* ===== verification/Elog_Grisu.thy ===== *)
theory Elog_Grisu
  imports Elog_Memory
begin

text \<open>
  Shortest-style decimal printing of doubles, \<open>src/grisu2.cpp\<close>: \<open>format_double\<close> and everything
  below it, on the IEEE 754 bit pattern of the number. Words wrap as they do in the code.
  Undefined behaviour is \<open>None\<close>: a shift by 64 or more, a write outside the 24 digit bytes, a
  decrement before the first digit; so is a loop that does not end. The one floating-point
  computation of the algorithm, the table index in \<open>cached_power\<close>, is done on doubles scaled by
  \<open>2 ^ 54\<close> with the rounding of IEEE 754 (to 53 bits, ties to even).
\<close>

section \<open>DiyFp: a 64-bit significand and an exponent\<close>

record DiyFp =
  df :: u64
  de :: int

definition DiyFp :: "u64 \<Rightarrow> int \<Rightarrow> DiyFp" where
  "DiyFp f e = \<lparr>df = f, de = e\<rparr>"

lemma DiyFp_sel [simp]: "df (DiyFp f e) = f" "de (DiyFp f e) = e"
  by (simp_all add: DiyFp_def)

text \<open>A 64-bit shift is defined for distances from 0 to 63.\<close>

definition shl :: "u64 \<Rightarrow> int \<Rightarrow> u64 option" where
  "shl x k = (if 0 \<le> k \<and> k < 64 then Some (push_bit (nat k) x) else None)"

definition shr :: "u64 \<Rightarrow> int \<Rightarrow> u64 option" where
  "shr x k = (if 0 \<le> k \<and> k < 64 then Some (drop_bit (nat k) x) else None)"

definition diy_subtract :: "DiyFp \<Rightarrow> DiyFp \<Rightarrow> DiyFp" where
  "diy_subtract x y = DiyFp (df x - df y) (de x)"

definition diy_multiply :: "DiyFp \<Rightarrow> DiyFp \<Rightarrow> DiyFp" where
  "diy_multiply x y =
     (let M32 = 0xFFFFFFFF;
          a = drop_bit 32 (df x); b = df x AND M32;
          c = drop_bit 32 (df y); d = df y AND M32;
          ac = a * c; bc = b * c; ad = a * d; bd = b * d;
          md = drop_bit 32 bd + (ad AND M32) + (bc AND M32);
          md = md + push_bit 31 1
      in DiyFp (ac + drop_bit 32 ad + drop_bit 32 bc + drop_bit 32 md) (de x + de y + 64))"

text \<open>\<open>while (!(v.f & m)) { v.f <<= k; v.e -= k; }\<close>; it does not end for \<open>v.f = 0\<close>.\<close>

partial_function (option) shift_until :: "u64 \<Rightarrow> nat \<Rightarrow> DiyFp \<Rightarrow> DiyFp option" where
  "shift_until m k v =
     (if df v AND m = 0 then shift_until m k (DiyFp (push_bit k (df v)) (de v - int k)) else Some v)"

declare shift_until.simps [code]

definition diy_normalize :: "DiyFp \<Rightarrow> DiyFp option" where
  "diy_normalize v =
     do { v \<leftarrow> shift_until 0xFFC0000000000000 10 v; shift_until 0x8000000000000000 1 v }"

definition diy_normalize_boundary :: "DiyFp \<Rightarrow> DiyFp option" where
  "diy_normalize_boundary v =
     do { v \<leftarrow> shift_until 0x4000000000000000 1 v;
          shift_until 0x8000000000000000 1 (DiyFp (push_bit 1 (df v)) (de v - 1)) }"

definition double_to_diy :: "u64 \<Rightarrow> DiyFp" where
  "double_to_diy bits =
     (let biased_e = uint (drop_bit 52 bits AND 0x7FF);
          sig = bits AND 0x000FFFFFFFFFFFFF
      in if biased_e \<noteq> 0 then DiyFp (sig + 0x0010000000000000) (biased_e - 1075)
         else DiyFp sig (- 1074))"

definition normalized_boundaries :: "u64 \<Rightarrow> (DiyFp \<times> DiyFp) option" where
  "normalized_boundaries bits =
     (let w = double_to_diy bits
      in do {
        pl \<leftarrow> diy_normalize_boundary (DiyFp (push_bit 1 (df w) + 1) (de w - 1));
        let mi = (if bits = 0x0010000000000000 then DiyFp (push_bit 2 (df w) - 1) (de w - 2)
                  else DiyFp (push_bit 1 (df w) - 1) (de w - 1));
        f \<leftarrow> shl (df mi) (de mi - de pl);
        Some (DiyFp f (de pl), pl)
      })"

section \<open>Cached powers of ten\<close>

definition kCachedPowersF :: "u64 list" where
  "kCachedPowersF =
    [0xFA8FD5A0081C0288, 0xBAAEE17FA23EBF76, 0x8B16FB203055AC76,
     0xCF42894A5DCE35EA, 0x9A6BB0AA55653B2D, 0xE61ACF033D1A45DF,
     0xAB70FE17C79AC6CA, 0xFF77B1FCBEBCDC4F, 0xBE5691EF416BD60C,
     0x8DD01FAD907FFC3C, 0xD3515C2831559A83, 0x9D71AC8FADA6C9B5,
     0xEA9C227723EE8BCB, 0xAECC49914078536D, 0x823C12795DB6CE57,
     0xC21094364DFB5637, 0x9096EA6F3848984F, 0xD77485CB25823AC7,
     0xA086CFCD97BF97F4, 0xEF340A98172AACE5, 0xB23867FB2A35B28E,
     0x84C8D4DFD2C63F3B, 0xC5DD44271AD3CDBA, 0x936B9FCEBB25C996,
     0xDBAC6C247D62A584, 0xA3AB66580D5FDAF6, 0xF3E2F893DEC3F126,
     0xB5B5ADA8AAFF80B8, 0x87625F056C7C4A8B, 0xC9BCFF6034C13053,
     0x964E858C91BA2655, 0xDFF9772470297EBD, 0xA6DFBD9FB8E5B88F,
     0xF8A95FCF88747D94, 0xB94470938FA89BCF, 0x8A08F0F8BF0F156B,
     0xCDB02555653131B6, 0x993FE2C6D07B7FAC, 0xE45C10C42A2B3B06,
     0xAA242499697392D3, 0xFD87B5F28300CA0E, 0xBCE5086492111AEB,
     0x8CBCCC096F5088CC, 0xD1B71758E219652C, 0x9C40000000000000,
     0xE8D4A51000000000, 0xAD78EBC5AC620000, 0x813F3978F8940984,
     0xC097CE7BC90715B3, 0x8F7E32CE7BEA5C70, 0xD5D238A4ABE98068,
     0x9F4F2726179A2245, 0xED63A231D4C4FB27, 0xB0DE65388CC8ADA8,
     0x83C7088E1AAB65DB, 0xC45D1DF942711D9A, 0x924D692CA61BE758,
     0xDA01EE641A708DEA, 0xA26DA3999AEF774A, 0xF209787BB47D6B85,
     0xB454E4A179DD1877, 0x865B86925B9BC5C2, 0xC83553C5C8965D3D,
     0x952AB45CFA97A0B3, 0xDE469FBD99A05FE3, 0xA59BC234DB398C25,
     0xF6C69A72A3989F5C, 0xB7DCBF5354E9BECE, 0x88FCF317F22241E2,
     0xCC20CE9BD35C78A5, 0x98165AF37B2153DF, 0xE2A0B5DC971F303A,
     0xA8D9D1535CE3B396, 0xFB9B7CD9A4A7443C, 0xBB764C4CA7A44410,
     0x8BAB8EEFB6409C1A, 0xD01FEF10A657842C, 0x9B10A4E5E9913129,
     0xE7109BFBA19C0C9D, 0xAC2820D9623BF429, 0x80444B5E7AA7CF85,
     0xBF21E44003ACDD2D, 0x8E679C2F5E44FF8F, 0xD433179D9C8CB841,
     0x9E19DB92B4E31BA9, 0xEB96BF6EBADF77D9, 0xAF87023B9BF0EE6B]"

definition kCachedPowersE :: "int list" where
  "kCachedPowersE =
    [- 1220, - 1193, - 1166, - 1140, - 1113, - 1087, - 1060, - 1034, - 1007, - 980,
     - 954, - 927, - 901, - 874, - 847, - 821, - 794, - 768, - 741, - 715,
     - 688, - 661, - 635, - 608, - 582, - 555, - 529, - 502, - 475, - 449,
     - 422, - 396, - 369, - 343, - 316, - 289, - 263, - 236, - 210, - 183,
     - 157, - 130, - 103, - 77, - 50, - 24, 3, 30, 56, 83,
     109, 136, 162, 189, 216, 242, 269, 295, 322, 348,
     375, 402, 428, 455, 481, 508, 534, 561, 588, 614,
     641, 667, 694, 720, 747, 774, 800, 827, 853, 880,
     907, 933, 960, 986, 1013, 1039, 1066]"

definition kCachedPowersF_size :: int where
  "kCachedPowersF_size = 87"

text \<open>Rounding to a 53-bit significand, ties to even.\<close>

function bit_length :: "int \<Rightarrow> nat" where
  "bit_length n = (if n \<le> 0 then 0 else Suc (bit_length (n div 2)))"
  by pat_completeness auto
termination
  by (relation "measure nat") auto

declare bit_length.simps [simp del]

definition round_shift :: "int \<Rightarrow> nat \<Rightarrow> int" where
  "round_shift m d =
     (let q = m div 2 ^ d; r = m mod 2 ^ d; h = 2 ^ (d - 1)
      in if r > h \<or> (r = h \<and> odd q) then q + 1 else q)"

definition fl53 :: "int \<Rightarrow> int" where
  "fl53 m =
     (let d = bit_length \<bar>m\<bar> - 53 in if d = 0 then m else round_shift m d * 2 ^ d)"

text \<open>
  The literal \<open>0.30102999566398114\<close> is the double \<open>0x1.34413509f79fep-2\<close>, that is
  \<open>5422874305198590 * 2 ^ -54\<close>. The conversion to \<open>int\<close> truncates.
\<close>

definition cached_dk :: "int \<Rightarrow> int" where
  "cached_dk e = fl53 (fl53 ((- 61 - e) * 5422874305198590) + 347 * 2 ^ 54)"

definition cached_index :: "int \<Rightarrow> int" where
  "cached_index e =
     (let dk = cached_dk e;
          k = dk sdiv 2 ^ 54;
          k = (if k * 2 ^ 54 \<noteq> dk then k + 1 else k);
          idx = k div 8 + 1;
          idx = (if idx < 0 then 0 else idx);
          idx = (if idx \<ge> kCachedPowersF_size then kCachedPowersF_size - 1 else idx)
      in idx)"

definition cached_power :: "int \<Rightarrow> DiyFp \<times> int" where
  "cached_power e =
     (let idx = cached_index e
      in (DiyFp (kCachedPowersF ! nat idx) (kCachedPowersE ! nat idx), - (- 348 + idx * 8)))"

definition kPow10 :: "nat \<Rightarrow> u64" where
  "kPow10 i = 10 ^ i"

section \<open>Digit generation\<close>

definition dec_last :: "string \<Rightarrow> string option" where
  "dec_last buf =
     (if buf = [] then None else Some (butlast buf @ [char_of ((of_char (last buf) :: nat) - 1)]))"

partial_function (option) grisu_round ::
    "string \<Rightarrow> u64 \<Rightarrow> u64 \<Rightarrow> u64 \<Rightarrow> u64 \<Rightarrow> string option" where
  "grisu_round buf delta rest ten_kappa wp_w =
     (if rest < wp_w \<and> delta - rest \<ge> ten_kappa \<and>
         (rest + ten_kappa < wp_w \<or> wp_w - rest > rest + ten_kappa - wp_w)
      then do { buf' \<leftarrow> dec_last buf; grisu_round buf' delta (rest + ten_kappa) ten_kappa wp_w }
      else Some buf)"

declare grisu_round.simps [code]

definition dec_count_u32 :: "u32 \<Rightarrow> nat" where
  "dec_count_u32 v =
     (if v < 10 then 1 else if v < 100 then 2 else if v < 1000 then 3 else if v < 10000 then 4
      else if v < 100000 then 5 else if v < 1000000 then 6 else if v < 10000000 then 7
      else if v < 100000000 then 8 else if v < 1000000000 then 9 else 10)"

text \<open>\<open>if (d != 0 || len != 0) buffer[len++] = '0' + d\<close>, with room for 24 digits.\<close>

definition push_digit :: "nat \<Rightarrow> string \<Rightarrow> string option" where
  "push_digit d buf =
     (if d \<noteq> 0 \<or> buf \<noteq> [] then
        (if length buf < 24 then Some (buf @ [char_of (48 + d)]) else None)
      else Some buf)"

text \<open>The integral part: one digit of \<open>p1\<close> per step; \<open>Inl\<close> when a step ends the generation.\<close>

fun digit_gen_int :: "nat \<Rightarrow> u32 \<Rightarrow> u64 \<Rightarrow> u64 \<Rightarrow> int \<Rightarrow> u64 \<Rightarrow> string \<Rightarrow> int \<Rightarrow>
    ((string \<times> int) + string) option" where
  "digit_gen_int 0 p1 p2 delta sh wp_w buf K = Some (Inr buf)"
| "digit_gen_int (Suc kappa) p1 p2 delta sh wp_w buf K =
     (let d = unat (p1 div 10 ^ kappa); p1 = p1 mod 10 ^ kappa
      in do {
        buf \<leftarrow> push_digit d buf;
        p1s \<leftarrow> shl (ucast p1) sh;
        let tmp = p1s + p2;
        if tmp \<le> delta then do {
          tk \<leftarrow> shl (kPow10 kappa) sh;
          buf \<leftarrow> grisu_round buf delta tmp tk wp_w;
          Some (Inl (buf, K + int kappa)) }
        else digit_gen_int kappa p1 p2 delta sh wp_w buf K
      })"

text \<open>The fractional part; here \<open>kappa\<close> is zero or negative.\<close>

partial_function (option) digit_gen_frac ::
    "u64 \<Rightarrow> u64 \<Rightarrow> u64 \<Rightarrow> int \<Rightarrow> u64 \<Rightarrow> string \<Rightarrow> int \<Rightarrow> int \<Rightarrow> (string \<times> int) option" where
  "digit_gen_frac p2 delta one sh wp_w buf kappa K =
     (let p2 = p2 * 10; delta = delta * 10
      in do {
        q \<leftarrow> shr p2 sh;
        buf \<leftarrow> push_digit (unat q mod 256) buf;
        let p2 = p2 AND (one - 1);
        let kappa = kappa - 1;
        if p2 < delta then
          (let idx = - kappa; idx = (if idx < 0 then 0 else idx); idx = (if idx \<ge> 20 then 19 else idx)
           in do { buf \<leftarrow> grisu_round buf delta p2 one (wp_w * kPow10 (nat idx));
                   Some (buf, K + kappa) })
        else digit_gen_frac p2 delta one sh wp_w buf kappa K
      })"

declare digit_gen_frac.simps [code]

definition digit_gen :: "DiyFp \<Rightarrow> DiyFp \<Rightarrow> u64 \<Rightarrow> int \<Rightarrow> (string \<times> int) option" where
  "digit_gen W Mp delta K =
     do {
       one \<leftarrow> shl 1 (- de Mp);
       let sh = - de Mp;
       let wp_w = diy_subtract Mp W;
       q \<leftarrow> shr (df Mp) sh;
       let p1 = (ucast q :: u32);
       let p2 = df Mp AND (one - 1);
       r \<leftarrow> digit_gen_int (dec_count_u32 p1) p1 p2 delta sh (df wp_w) [] K;
       case r of
         Inl res \<Rightarrow> Some res
       | Inr buf \<Rightarrow> digit_gen_frac p2 delta one sh (df wp_w) buf 0 K
     }"

definition grisu2 :: "u64 \<Rightarrow> (string \<times> int) option" where
  "grisu2 bits =
     do {
       (w_minus, w_plus) \<leftarrow> normalized_boundaries bits;
       w \<leftarrow> diy_normalize (double_to_diy bits);
       let (c_mk, K) = cached_power (de w_plus);
       let W = diy_multiply w c_mk;
       let Wp = diy_multiply w_plus c_mk;
       let Wm = diy_multiply w_minus c_mk;
       let Wm = DiyFp (df Wm + 1) (de Wm);
       let Wp = DiyFp (df Wp - 1) (de Wp);
       digit_gen W Wp (df Wp - df Wm) K
     }"

section \<open>Layout of the digits\<close>

definition exp_str :: "int \<Rightarrow> string" where
  "exp_str ex =
     (let (sg, ex) = (if ex < 0 then (''-'', nat (- ex)) else (''+'', nat ex))
      in sg @
         (if ex \<ge> 100 then
            [char_of (48 + ex div 100), char_of (48 + ex mod 100 div 10),
             char_of (48 + ex mod 100 mod 10)]
          else if ex \<ge> 10 then [char_of (48 + ex div 10), char_of (48 + ex mod 10)]
          else [char_of (48 + ex)]))"

text \<open>\<open>buffer\<close> holds \<open>len\<close> digits; \<open>len\<close> is positive when it is called.\<close>

definition prettify :: "string \<Rightarrow> int \<Rightarrow> string" where
  "prettify buf K =
     (let len = int (length buf); kk = len + K
      in if kk > 0 \<and> kk \<le> 21 then
           (if len \<le> kk then buf @ replicate (nat (kk - len)) (CHR ''0'')
            else take (nat kk) buf @ ''.'' @ drop (nat kk) buf)
         else if kk \<le> 0 \<and> kk > - 6 then ''0.'' @ replicate (nat (- kk)) (CHR ''0'') @ buf
         else if len = 1 then take 1 buf @ ''e'' @ exp_str (kk - 1)
         else take 1 buf @ ''.'' @ drop 1 buf @ ''e'' @ exp_str (kk - 1))"

definition format_double :: "u64 \<Rightarrow> string option" where
  "format_double u =
     (let neg = drop_bit 63 u \<noteq> 0; bits = u AND 0x7FFFFFFFFFFFFFFF;
          sg = (if neg then ''-'' else '''')
      in if bits = 0 then Some (sg @ ''0'')
         else if bits \<ge> 0x7FF0000000000000 then
           (if bits = 0x7FF0000000000000 then Some (sg @ ''inf'') else Some (sg @ ''nan''))
         else do { (digits, K) \<leftarrow> grisu2 bits; Some (sg @ prettify digits K) })"

end
