(* ===== verification/Elog_Render.thy ===== *)
theory Elog_Render
  imports Elog_Itoa Elog_Grisu
begin

text \<open>
  The renderers of one value that are not plain integers, and the helpers the containers are built
  from: \<open>src/render.cpp\<close>, \<open>src/render_extra.cpp\<close> and \<open>namespace detail\<close> of
  \<open>include/elog/render_extra.hpp\<close>. What the C library computes (the text of \<open>%.*f\<close> and \<open>%Lg\<close>, the
  broken-down local time, the kernel and hashed thread ids) is a parameter, the record \<open>renv\<close>, and so
  are the overloads of user types that argument-dependent lookup finds;
  \<open>snprintf\<close> itself is written out with its truncation, its terminating NUL and its result.
\<close>

section \<open>What is outside the sources\<close>

record tm =
  tm_year :: u32
  tm_mon :: u32
  tm_mday :: u32
  tm_hour :: u32
  tm_min :: u32
  tm_sec :: u32

record renv =
  fmt_fixed :: "nat \<Rightarrow> u64 \<Rightarrow> string" \<comment> \<open>\<open>%.*f\<close>\<close>
  fmt_Lg :: "80 word \<Rightarrow> string" \<comment> \<open>\<open>%Lg\<close>\<close>
  localtime_r :: "int \<Rightarrow> tm"
  this_thread :: nat
  gettid :: u64
  hash_tid :: "nat \<Rightarrow> u64"
  user_render :: "nat \<Rightarrow> rbuf \<Rightarrow> (iov \<times> rbuf) option" \<comment> \<open>\<open>elog_render\<close> of a user type\<close>
  user_text :: "nat \<Rightarrow> string" \<comment> \<open>the text it promises\<close>

section \<open>Reading and writing memory\<close>

text \<open>One byte through a pointer; \<open>None\<close> outside the memory it refers to.\<close>

definition ptr_at :: "byte list \<Rightarrow> ptr \<Rightarrow> nat \<Rightarrow> byte option" where
  "ptr_at m p i =
     (case p of
        Null \<Rightarrow> None
      | Scratch a \<Rightarrow> if a + i < length m then Some (m ! (a + i)) else None
      | Ext bs \<Rightarrow> if i < length bs then Some (bs ! i) else None)"

definition read_range :: "byte list \<Rightarrow> ptr \<Rightarrow> nat \<Rightarrow> byte list option" where
  "read_range m p n =
     (case p of
        Null \<Rightarrow> if n = 0 then Some [] else None
      | Scratch a \<Rightarrow> if a + n \<le> length m then Some (take n (drop a m)) else None
      | Ext bs \<Rightarrow> if n \<le> length bs then Some (take n bs) else None)"

text \<open>\<open>scratch[i] = c\<close>, the cursor unchanged.\<close>

definition poke :: "nat \<Rightarrow> char \<Rightarrow> rbuf \<Rightarrow> rbuf option" where
  "poke i c b = (if i < length (mem b) then Some (b\<lparr>mem := (mem b)[i := c]\<rparr>) else None)"

text \<open>\<open>snprintf(scratch + pos, size, ...)\<close> for a conversion whose full text is \<open>s\<close>.\<close>

definition INT_MAX :: nat where
  "INT_MAX = 2147483647"

definition c_snprintf :: "string \<Rightarrow> nat \<Rightarrow> rbuf \<Rightarrow> (int \<times> rbuf) option" where
  "c_snprintf s sz b =
     (let out = (if sz = 0 then [] else take (sz - 1) s @ [CHR 0x00]);
          n = (if length s > INT_MAX then - 1 else int (length s))
      in if out = [] then Some (n, b)
         else if pos b + length out \<le> length (mem b)
         then Some (n, b\<lparr>mem := overwrite (pos b) out (mem b)\<rparr>) else None)"

section \<open>\<open>src/render.cpp\<close>\<close>

definition float_to_double :: "u32 \<Rightarrow> u64" where
  "float_to_double w =
     (let sg = push_bit 63 (ucast (drop_bit 31 w)); ex = unat (drop_bit 23 w AND 0xFF);
          m = ucast (w AND 0x7FFFFF) :: u64
      in if ex = 255 then sg OR 0x7FF0000000000000 OR push_bit 29 m
         else if ex \<noteq> 0 then sg OR push_bit 52 (of_nat (ex + 896)) OR push_bit 29 m
         else if m = 0 then sg
         else let l = bit_length (uint m)
              in sg OR push_bit 52 (of_nat (l + 873)) OR push_bit (53 - l) (m - push_bit (l - 1) 1))"

definition render_double :: "u64 \<Rightarrow> rbuf \<Rightarrow> (iov \<times> rbuf) option" where
  "render_double v b =
     (if size_sub kScratchSize (pos b) < 32 then Some (Iov (Scratch (pos b)) 0, b)
      else do { s \<leftarrow> format_double v; put_iov s b })"

text \<open>\<open>int n = snprintf(...); if (n < 0) n = 0; if (n > kScratchSize - pos) n = kScratchSize - pos\<close>.\<close>

definition render_snprintf :: "string \<Rightarrow> rbuf \<Rightarrow> (iov \<times> rbuf) option" where
  "render_snprintf s b =
     do {
       (n, b1) \<leftarrow> c_snprintf s (size_sub kScratchSize (pos b)) b;
       let n = (if n < 0 then 0 else nat n);
       let n = (if n > size_sub kScratchSize (pos b) then size_sub kScratchSize (pos b) else n);
       Some (Iov (Scratch (pos b)) n, b1\<lparr>pos := pos b + n\<rparr>)
     }"

definition render_long_double :: "renv \<Rightarrow> 80 word \<Rightarrow> rbuf \<Rightarrow> (iov \<times> rbuf) option" where
  "render_long_double env v b = render_snprintf (fmt_Lg env v) b"

definition render_fixed :: "renv \<Rightarrow> u64 \<Rightarrow> u32 \<Rightarrow> rbuf \<Rightarrow> (iov \<times> rbuf) option" where
  "render_fixed env v p b =
     (let prec = (if sint p < 0 then 0 else nat (sint p)) in render_snprintf (fmt_fixed env prec v) b)"

definition render_bool :: "bool \<Rightarrow> rbuf \<Rightarrow> (iov \<times> rbuf) option" where
  "render_bool v b = (if v then Some (Iov (Ext ''true'') 4, b) else Some (Iov (Ext ''false'') 5, b))"

definition render_char :: "char \<Rightarrow> rbuf \<Rightarrow> (iov \<times> rbuf) option" where
  "render_char v b = do { b' \<leftarrow> put_char v b; Some (Iov (Scratch (pos b)) 1, b') }"

definition render_cstr :: "string option \<Rightarrow> rbuf \<Rightarrow> (iov \<times> rbuf) option" where
  "render_cstr v b =
     (case v of None \<Rightarrow> Some (Iov (Ext ''(null)'') 6, b) | Some s \<Rightarrow> Some (Iov (Ext s) (length s), b))"

definition render_ref :: "string_ref \<Rightarrow> rbuf \<Rightarrow> (iov \<times> rbuf) option" where
  "render_ref v b = Some (Iov (sr_data v) (sr_size v), b)"

text \<open>\<open>const char (&v)[N]\<close>: the array with its terminator, if it has one.\<close>

definition render_literal :: "byte list \<Rightarrow> rbuf \<Rightarrow> (iov \<times> rbuf) option" where
  "render_literal v b =
     (let n = length v; n = (if n > 0 \<and> v ! (n - 1) = CHR 0x00 then n - 1 else n)
      in Some (Iov (Ext v) n, b))"

definition render_nullptr :: "rbuf \<Rightarrow> (iov \<times> rbuf) option" where
  "render_nullptr b = Some (Iov (Ext ''nullptr'') 7, b)"

definition render_thread_id :: "renv \<Rightarrow> nat \<Rightarrow> rbuf \<Rightarrow> (iov \<times> rbuf) option" where
  "render_thread_id env v b =
     (if v = this_thread env then
        (let b = (if tid_cache b = 0 then b\<lparr>tid_cache := gettid env\<rparr> else b)
         in render_unsigned (tid_cache b) b)
      else render_unsigned (hash_tid env v) b)"

text \<open>Zero-padded \<open>%0wd\<close>; the sign counts in the width.\<close>

definition zero_pad :: "nat \<Rightarrow> int \<Rightarrow> string" where
  "zero_pad w i =
     (let s = radix_str 10 (nat \<bar>i\<bar>); sg = (if i < 0 then ''-'' else [])
      in sg @ replicate (w - length sg - length s) (CHR ''0'') @ s)"

text \<open>A \<open>system_clock::time_point\<close> counts nanoseconds; casts and divisions truncate.\<close>

definition time_text :: "renv \<Rightarrow> u64 \<Rightarrow> string" where
  "time_text env v =
     (let t = sint v sdiv 1000000000; us = sint v sdiv 1000;
          ms = (us sdiv 1000) smod 1000; x = localtime_r env t
      in zero_pad 4 (sint (tm_year x) + 1900) @ ''-'' @ zero_pad 2 (sint (tm_mon x) + 1) @ ''-'' @
         zero_pad 2 (sint (tm_mday x)) @ '' '' @ zero_pad 2 (sint (tm_hour x)) @ '':'' @
         zero_pad 2 (sint (tm_min x)) @ '':'' @ zero_pad 2 (sint (tm_sec x)) @ ''.'' @ zero_pad 3 ms)"

text \<open>The result of \<open>snprintf\<close> is added to the cursor as it is, also when the text was cut.\<close>

definition render_time :: "renv \<Rightarrow> u64 \<Rightarrow> rbuf \<Rightarrow> (iov \<times> rbuf) option" where
  "render_time env v b =
     do {
       (n, b1) \<leftarrow> c_snprintf (time_text env v) (size_sub kScratchSize (pos b)) b;
       let n = (if n < 0 then 0 else nat n);
       Some (Iov (Scratch (pos b)) n, b1\<lparr>pos := pos b + n\<rparr>)
     }"

definition render_quoted :: "string_ref \<Rightarrow> rbuf \<Rightarrow> (iov \<times> rbuf) option" where
  "render_quoted r b =
     (if pos b + sr_size r + 2 > kScratchSize then
        do { b1 \<leftarrow> put_char (CHR 0x22) b; b2 \<leftarrow> put_char (CHR 0x22) b1; Some (Iov (Scratch (pos b)) 2, b2) }
      else
        do {
          b1 \<leftarrow> put_char (CHR 0x22) b;
          bs \<leftarrow> read_range (mem b1) (sr_data r) (sr_size r);
          b2 \<leftarrow> put_str bs b1;
          b3 \<leftarrow> put_char (CHR 0x22) b2;
          Some (scratch_iov (pos b) b3, b3)
        })"

section \<open>\<open>src/render_extra.cpp\<close>\<close>

definition hexd :: "nat \<Rightarrow> char" where
  "hexd d = ''0123456789abcdef'' ! d"

fun hexdump_loop :: "nat \<Rightarrow> nat \<Rightarrow> ptr \<Rightarrow> rbuf \<Rightarrow> rbuf option" where
  "hexdump_loop 0 i p b = Some b"
| "hexdump_loop (Suc k) i p b =
     (if bound_avail (pos b) < 3 then Some b
      else do {
        b1 \<leftarrow> (if i > 0 then put_char (CHR '' '') b else Some b);
        c \<leftarrow> ptr_at (mem b1) p i;
        b2 \<leftarrow> put_char (hexd (of_char c div 16)) b1;
        c \<leftarrow> ptr_at (mem b2) p i;
        b3 \<leftarrow> put_char (hexd (of_char c mod 16)) b2;
        hexdump_loop k (i + 1) p b3
      })"

fun suffix_loop :: "string \<Rightarrow> rbuf \<Rightarrow> rbuf option" where
  "suffix_loop [] b = Some b"
| "suffix_loop (c # cs) b =
     (if bound_avail (pos b) > 0 then do { b' \<leftarrow> put_char c b; suffix_loop cs b' } else Some b)"

definition render_hexdump :: "ptr \<Rightarrow> nat \<Rightarrow> rbuf \<Rightarrow> (iov \<times> rbuf) option" where
  "render_hexdump p len b =
     (let truncated = len > 64; n = (if len > 64 then 64 else len)
      in do {
        b1 \<leftarrow> hexdump_loop n 0 p b;
        b2 \<leftarrow> (if truncated then suffix_loop '' ...'' b1 else Some b1);
        Some (scratch_iov (pos b) b2, b2)
      })"

text \<open>The bytes one character is escaped to, and the room it wants.\<close>

definition escape :: "char \<Rightarrow> string" where
  "escape c =
     (if c = CHR 0x5C then [CHR 0x5C, CHR 0x5C]
      else if c = CHR 0x22 then [CHR 0x5C, CHR 0x22]
      else if c = CHR 0x0A then [CHR 0x5C, CHR ''n'']
      else if c = CHR 0x0D then [CHR 0x5C, CHR ''r'']
      else if c = CHR 0x09 then [CHR 0x5C, CHR ''t'']
      else if c = CHR 0x00 then [CHR 0x5C, CHR ''0'']
      else let k = of_char c :: nat
           in if 0x20 \<le> k \<and> k < 0x7F then [c]
              else [CHR 0x5C, CHR ''x'', hexd (k div 16), hexd (k mod 16)])"

fun escaped_loop :: "nat \<Rightarrow> nat \<Rightarrow> ptr \<Rightarrow> rbuf \<Rightarrow> rbuf option" where
  "escaped_loop 0 i p b = Some b"
| "escaped_loop (Suc k) i p b =
     do {
       c \<leftarrow> ptr_at (mem b) p i;
       let avail = bound_avail (pos b);
       if avail = 0 then Some b
       else do {
         b' \<leftarrow> (if avail \<ge> length (escape c) then put_str (escape c) b else Some b);
         escaped_loop k (i + 1) p b' }
     }"

definition render_escaped :: "string_ref \<Rightarrow> rbuf \<Rightarrow> (iov \<times> rbuf) option" where
  "render_escaped r b =
     do { b1 \<leftarrow> escaped_loop (sr_size r) 0 (sr_data r) b; Some (scratch_iov (pos b) b1, b1) }"

section \<open>\<open>namespace detail\<close> of \<open>render_extra.hpp\<close>\<close>

fun append_loop :: "nat \<Rightarrow> nat \<Rightarrow> ptr \<Rightarrow> rbuf \<Rightarrow> rbuf option" where
  "append_loop 0 i s b = Some b"
| "append_loop (Suc k) i s b =
     do { c \<leftarrow> ptr_at (mem b) s i; b' \<leftarrow> poke (pos b + i) c b; append_loop k (i + 1) s b' }"

text \<open>It returns the old cursor, which callers also have as \<open>pos b\<close>.\<close>

definition append_str :: "ptr \<Rightarrow> nat \<Rightarrow> rbuf \<Rightarrow> rbuf option" where
  "append_str s n b =
     (if pos b > 4096 then Some b
      else let avail = 4096 - pos b; n = (if n > avail then avail else n)
           in do { b' \<leftarrow> append_loop n 0 s b; Some (b'\<lparr>pos := pos b' + n\<rparr>) })"

definition append_lit :: "string \<Rightarrow> rbuf \<Rightarrow> rbuf option" where
  "append_lit s b = append_str (Ext s) (length s) b"

definition append_iov :: "iov \<Rightarrow> rbuf \<Rightarrow> rbuf option" where
  "append_iov v b = append_str (iov_base v) (iov_len v) b"

text \<open>
  \<open>Iov e = elog_render(scratch, pos, x); if (e.base != scratch + (pos - e.len)) append_iov(...)\<close>:
  every container does this with each element.
\<close>

definition splice :: "(iov \<times> rbuf) option \<Rightarrow> rbuf option" where
  "splice r =
     do { (e, b) \<leftarrow> r;
          if iov_base e \<noteq> Scratch (size_sub (pos b) (iov_len e)) then append_iov e b else Some b }"

text \<open>\<open>for (i < n) { if (pos >= 4096) break; scratch[pos++] = fill; }\<close>\<close>

fun pad_loop :: "nat \<Rightarrow> char \<Rightarrow> rbuf \<Rightarrow> rbuf option" where
  "pad_loop 0 c b = Some b"
| "pad_loop (Suc n) c b =
     (if pos b \<ge> 4096 then Some b else do { b' \<leftarrow> put_char c b; pad_loop n c b' })"

fun shift_loop :: "nat \<Rightarrow> nat \<Rightarrow> nat \<Rightarrow> rbuf \<Rightarrow> rbuf option" where
  "shift_loop 0 start shift b = Some b"
| "shift_loop (Suc i) start shift b =
     do { c \<leftarrow> ptr_at (mem b) (Scratch start) i; b' \<leftarrow> poke (start + shift + i) c b;
          shift_loop i start shift b' }"

fun fill_loop :: "nat \<Rightarrow> nat \<Rightarrow> char \<Rightarrow> rbuf \<Rightarrow> rbuf option" where
  "fill_loop 0 i c b = Some b"
| "fill_loop (Suc n) i c b = do { b' \<leftarrow> poke i c b; fill_loop n (i + 1) c b' }"

definition render_padded ::
    "(iov \<times> rbuf) option \<Rightarrow> nat \<Rightarrow> u32 \<Rightarrow> char \<Rightarrow> bool \<Rightarrow> (iov \<times> rbuf) option" where
  "render_padded inner_r start width fill left_align =
     do {
       (inner, b) \<leftarrow> inner_r;
       let inner_len = iov_len inner;
       if sint width \<le> 0 \<or> nat (sint width) \<le> inner_len then
         if iov_base inner \<noteq> Scratch start then
           do { b1 \<leftarrow> append_str (iov_base inner) inner_len b; Some (scratch_iov (pos b) b1, b1) }
         else Some (inner, b)
       else
         let pad_count = nat (sint width) - inner_len
         in if iov_base inner = Scratch start then
              if left_align then do { b1 \<leftarrow> pad_loop pad_count fill b; Some (scratch_iov start b1, b1) }
              else
                let fin = pos b;
                    shift = (if fin + pad_count > 4096 then size_sub 4096 fin else pad_count)
                in do {
                  b1 \<leftarrow> shift_loop (fin - start) start shift b;
                  b2 \<leftarrow> fill_loop shift start fill b1;
                  let b3 = b2\<lparr>pos := fin + shift\<rparr>;
                  Some (scratch_iov start b3, b3) }
            else
              do {
                b2 \<leftarrow> (if left_align then
                        do { b1 \<leftarrow> append_str (iov_base inner) inner_len b; pad_loop pad_count fill b1 }
                      else
                        do { b1 \<leftarrow> pad_loop pad_count fill b; append_str (iov_base inner) inner_len b1 });
                Some (scratch_iov (pos b) b2, b2) }
     }"

end
