(* ===== verification/Elog_Bench_Itoa.thy ===== *)
theory Elog_Bench_Itoa
  imports Elog_Render
begin

text \<open>
  The integer printers that \<open>benchmarks/bench_itoa.cpp\<close> compares: the loop of one digit per step that
  the library uses, the one with a table of two-digit numbers, \<open>std::to_string\<close> and \<open>snprintf\<close>. Every
  array is a list of its length, a pointer an index, and an access outside is \<open>None\<close>. They write the
  same bytes, \<open>snprintf\<close> one more.
\<close>

section \<open>One digit per step\<close>

function naive_fill :: "u64 \<Rightarrow> nat \<Rightarrow> string \<Rightarrow> (nat \<times> string) option" where
  "naive_fill v n tmp =
     (if v = 0 then Some (n, tmp)
      else if n < length tmp then naive_fill (v div 10) (n + 1) (tmp[n := char_of (48 + unat (v mod 10))])
      else None)"
  by pat_completeness auto
termination
proof (relation "measure (unat \<circ> fst)")
  fix v :: u64 and n m :: nat and tmp tmp' :: string
  assume "v \<noteq> 0"
  then have "0 < unat v" by (simp add: unat_gt_0)
  then show "((v div 10, m, tmp'), (v, n, tmp)) \<in> measure (unat \<circ> fst)" by (simp add: unat_div)
qed simp

declare naive_fill.simps [simp del]

text \<open>\<open>for (int i = 0; i < n; ++i) out[i] = tmp[n - 1 - i]\<close>\<close>

function naive_copy :: "nat \<Rightarrow> nat \<Rightarrow> string \<Rightarrow> string \<Rightarrow> string option" where
  "naive_copy i n tmp out =
     (if i < n then
        (if n - 1 - i < length tmp \<and> i < length out then naive_copy (i + 1) n tmp (out[i := tmp ! (n - 1 - i)])
         else None)
      else Some out)"
  by pat_completeness auto
termination by (relation "measure (\<lambda>(i, n, _). n - i)") auto

declare naive_copy.simps [simp del]

text \<open>\<open>tmp\<close> is the uninitialized array of 24 characters.\<close>

definition naive_u64 :: "string \<Rightarrow> u64 \<Rightarrow> string \<Rightarrow> (nat \<times> string) option" where
  "naive_u64 tmp v out =
     (if v = 0 then (if 0 < length out then Some (1, out[0 := CHR ''0'']) else None)
      else do {
        (n, tmp) \<leftarrow> naive_fill v 0 tmp;
        out \<leftarrow> naive_copy 0 n tmp out;
        Some (n, out)
      })"

lemma naive_fill_digits:
  "n + length (dec_loop v) \<le> length tmp \<Longrightarrow>
     naive_fill v n tmp = Some (n + length (dec_loop v), overwrite n (dec_loop v) tmp)"
proof (induction v arbitrary: n tmp rule: dec_loop.induct)
  case (1 v)
  show ?case
  proof (cases "v = 0")
    case False
    let ?c = "char_of (48 + unat (v mod 10)) :: char"
    have d: "dec_loop v = ?c # dec_loop (v div 10)" using False by (simp add: dec_loop.simps [of v])
    have n: "n < length tmp" using 1(2) by (simp add: d)
    then have "overwrite (n + 1) (dec_loop (v div 10)) (tmp[n := ?c]) = overwrite n (dec_loop v) tmp"
      using overwrite_overwrite [of n "[?c]" tmp "dec_loop (v div 10)"] by (simp add: d overwrite_single)
    then show ?thesis
      using 1(1) [OF False, of "n + 1" "tmp[n := ?c]"] 1(2) False n by (simp add: naive_fill.simps [of v] d)
  qed (simp add: naive_fill.simps [of 0])
qed

lemma naive_copy_reverses:
  "i \<le> n \<Longrightarrow> n \<le> length tmp \<Longrightarrow> n \<le> length out \<Longrightarrow>
     naive_copy i n tmp out = Some (overwrite i (drop i (rev (take n tmp))) out)"
proof (induction i n tmp out rule: naive_copy.induct)
  case (1 i n tmp out)
  show ?case
  proof (cases "i < n")
    case True
    let ?r = "rev (take n tmp)"
    have l: "length ?r = n" using 1(3) by simp
    have "?r ! i = tmp ! (n - 1 - i)" using True 1(3) by (simp add: rev_nth)
    then have d: "drop i ?r = tmp ! (n - 1 - i) # drop (i + 1) ?r" using True l by (metis Cons_nth_drop_Suc Suc_eq_plus1)
    have b: "n - 1 - i < length tmp" "i < length out" using True 1(3,4) by linarith+
    have "overwrite (i + 1) (drop (i + 1) ?r) (out[i := tmp ! (n - 1 - i)]) = overwrite i (drop i ?r) out"
      using overwrite_overwrite [of i "[tmp ! (n - 1 - i)]" out "drop (i + 1) ?r"] b by (simp add: d overwrite_single)
    then show ?thesis using 1(1) True b 1(3,4) by (simp add: naive_copy.simps [of i])
  qed (use 1(2,3) in \<open>simp add: naive_copy.simps [of n]\<close>)
qed

lemma naive_u64_text:
  assumes "20 \<le> length tmp" "20 \<le> length out"
  shows "naive_u64 tmp v out = Some (length (radix_str 10 (unat v)), overwrite 0 (radix_str 10 (unat v)) out)"
proof (cases "v = 0")
  case True
  then show ?thesis using assms(2) overwrite_single [of 0 out "CHR ''0''"]
    by (cases out) (simp_all add: naive_u64_def radix_small digit_char_0)
next
  case False
  note r = rev_dec_loop [OF False]
  then have l: "length (dec_loop v) = length (radix_str 10 (unat v))" by (metis length_rev)
  then have "length (dec_loop v) \<le> 20" using radix_10_length [of v] by simp
  moreover have "take (length (dec_loop v)) (overwrite 0 (dec_loop v) tmp) = dec_loop v" by (simp add: overwrite_def)
  ultimately show ?thesis
    using False assms r l by (simp add: naive_u64_def naive_fill_digits naive_copy_reverses)
qed

section \<open>Two digits per step\<close>

definition kTwoDigits :: string where
  "kTwoDigits = ''00010203040506070809'' @ ''10111213141516171819'' @
     ''20212223242526272829'' @ ''30313233343536373839'' @
     ''40414243444546474849'' @ ''50515253545556575859'' @
     ''60616263646566676869'' @ ''70717273747576777879'' @
     ''80818283848586878889'' @ ''90919293949596979899''"

text \<open>\<open>p -= 2; memcpy(p, kTwoDigits + r * 2, 2)\<close>\<close>

definition put_pair :: "u64 \<Rightarrow> nat \<times> string \<Rightarrow> (nat \<times> string) option" where
  "put_pair r = (\<lambda>(p, buf).
     if 2 \<le> p \<and> p \<le> length buf \<and> 2 * unat r + 2 \<le> length kTwoDigits
     then Some (p - 2, overwrite (p - 2) (take 2 (drop (2 * unat r) kTwoDigits)) buf) else None)"

function two_digit_loop :: "u64 \<Rightarrow> nat \<times> string \<Rightarrow> (u64 \<times> nat \<times> string) option" where
  "two_digit_loop v s =
     (if v \<ge> 100 then (case put_pair (v mod 100) s of None \<Rightarrow> None | Some s \<Rightarrow> two_digit_loop (v div 100) s)
      else Some (v, s))"
  by pat_completeness auto
termination
proof (relation "measure (unat \<circ> fst)")
  fix v :: u64 and s t :: "nat \<times> string"
  assume "v \<ge> 100"
  then have "0 < unat v" by (simp add: word_le_nat_alt)
  then show "((v div 100, t), (v, s)) \<in> measure (unat \<circ> fst)" by (simp add: unat_div)
qed simp

declare two_digit_loop.simps [simp del]

text \<open>\<open>buf\<close> is the uninitialized array; \<open>p\<close> starts at its end.\<close>

definition two_digit_u64 :: "string \<Rightarrow> u64 \<Rightarrow> string \<Rightarrow> (nat \<times> string) option" where
  "two_digit_u64 buf v out =
     do {
       (v, p, buf) \<leftarrow> two_digit_loop v (length buf, buf);
       (p, buf) \<leftarrow>
         (if v \<ge> 10 then put_pair v (p, buf)
          else if 1 \<le> p then Some (p - 1, buf[p - 1 := char_of (48 + unat v)]) else None);
       let n = length buf - p;
       if n \<le> length out then Some (n, overwrite 0 (take n (drop p buf)) out) else None
     }"

definition decimals :: string where
  "decimals = ''0123456789''"

lemma nth_decimals: "d < 10 \<Longrightarrow> decimals ! d = digit_char d" "length decimals = 10"
proof -
  have "map digit_char [0 ..< 10] = decimals" by code_simp
  then show "d < 10 \<Longrightarrow> decimals ! d = digit_char d" by (metis add_0 diff_zero nth_map_upt)
qed (simp add: decimals_def)

lemma kTwoDigits_decimals: "kTwoDigits = concat (map (\<lambda>d. concat (map (\<lambda>e. [d, e]) decimals)) decimals)"
  by code_simp

text \<open>Blocks of equal length.\<close>

lemma take_drop_concat:
  "\<forall>xs \<in> set xss. length xs = k \<Longrightarrow> i < length xss \<Longrightarrow> take k (drop (k * i) (concat xss)) = xss ! i"
proof (induction xss arbitrary: i)
  case (Cons xs xss)
  then show ?case by (cases i) simp_all
qed simp

lemma kTwoDigits_pair:
  assumes "r < 100"
  shows "take 2 (drop (2 * r) kTwoDigits) = [digit_char (r div 10), digit_char (r mod 10)]"
proof -
  define d where "d = r div 10"
  define e where "e = r mod 10"
  have "r = 10 * d + e" unfolding d_def e_def by simp
  then have de: "d < 10" "e < 10" "2 * r = 20 * d + 2 * e" using assms by (simp_all add: e_def)
  have l: "length (concat (map (\<lambda>e. [c, e]) decimals)) = 20" for c by (simp add: decimals_def)
  let ?row = "concat (map (\<lambda>e. [digit_char d, e]) decimals)"
  have "take 20 (drop (20 * d) kTwoDigits) = ?row"
    using take_drop_concat [of "map (\<lambda>d. concat (map (\<lambda>e. [d, e]) decimals)) decimals" 20 d] l de(1)
    by (simp add: kTwoDigits_decimals nth_decimals)
  moreover have "take 2 (drop (2 * r) kTwoDigits) = take 2 (drop (2 * e) (take 20 (drop (20 * d) kTwoDigits)))"
    using de by (simp add: drop_take add.commute)
  moreover have "take 2 (drop (2 * e) ?row) = [digit_char d, digit_char e]"
    using take_drop_concat [of "map (\<lambda>e. [digit_char d, e]) decimals" 2 e] de(2) by (simp add: nth_decimals)
  ultimately show ?thesis by (simp add: d_def e_def)
qed

lemma length_kTwoDigits: "length kTwoDigits = 200"
  by (simp add: kTwoDigits_def)

text \<open>The text in \<open>buf\<close> from \<open>p\<close> on grows by two digits at its front.\<close>

lemma put_pair_digits:
  assumes "unat r < 100" "2 \<le> p" "p \<le> length buf"
  shows "\<exists>buf'. put_pair r (p, buf) = Some (p - 2, buf') \<and> length buf' = length buf \<and>
    drop (p - 2) buf' = digit_char (unat r div 10) # digit_char (unat r mod 10) # drop p buf"
proof -
  have "take 2 (drop (2 * unat r) kTwoDigits) = [digit_char (unat r div 10), digit_char (unat r mod 10)]"
    by (rule kTwoDigits_pair [OF assms(1)])
  moreover obtain q where "p = Suc (Suc q)" using assms(2) by (metis add_2_eq_Suc le_Suc_ex)
  ultimately show ?thesis using assms by (simp add: put_pair_def length_kTwoDigits overwrite_def)
qed

lemma radix_two:
  assumes "100 \<le> n"
  shows "radix_str 10 n = radix_str 10 (n div 100) @ [digit_char (n mod 100 div 10), digit_char (n mod 100 mod 10)]"
proof -
  have "n div 10 div 10 = n div 100" by (simp add: div_mult2_eq [symmetric])
  moreover have "n mod 100 = 10 * (n div 10 mod 10) + n mod 10" using mod_mult2_eq [of n 10 10] by simp
  then have "n mod 100 div 10 = n div 10 mod 10" "n mod 100 mod 10 = n mod 10" by simp_all
  moreover have "10 \<le> n div 10" using div_le_mono [OF assms, of 10] by simp
  ultimately show ?thesis using assms radix_large [of 10 n] radix_large [of 10 "n div 10"] by simp
qed

lemma two_digit_loop_digits:
  assumes "length (radix_str 10 (unat v)) \<le> p" "p \<le> length buf"
  shows "\<exists>v' p' buf'. two_digit_loop v (p, buf) = Some (v', p', buf') \<and> unat v' < 100 \<and> p' \<le> length buf \<and>
    length buf' = length buf \<and> length (radix_str 10 (unat v')) \<le> p' \<and>
    radix_str 10 (unat v') @ drop p' buf' = radix_str 10 (unat v) @ drop p buf"
  using assms
proof (induction v "(p, buf)" arbitrary: p buf rule: two_digit_loop.induct)
  case (1 v)
  show ?case
  proof (cases "v \<ge> 100")
    case True
    then have n: "100 \<le> unat v" by (simp add: word_le_nat_alt)
    have m: "unat (v mod 100) = unat v mod 100" "unat (v div 100) = unat v div 100" by (simp_all add: unat_mod unat_div)
    note two = radix_two [OF n]
    have p: "2 \<le> p" "length (radix_str 10 (unat (v div 100))) \<le> p - 2" using 1(2) two by (simp_all add: m)
    from put_pair_digits [of "v mod 100" p buf] p(1) 1(3) obtain buf1 where
      b: "put_pair (v mod 100) (p, buf) = Some (p - 2, buf1)" "length buf1 = length buf"
      "drop (p - 2) buf1 = digit_char (unat v mod 100 div 10) # digit_char (unat v mod 100 mod 10) # drop p buf"
      by (auto simp: m)
    have "p - 2 \<le> length buf1" using b(2) 1(3) by simp
    from 1(1) [OF True b(1) p(2) this] b two show ?thesis
      using True by (simp add: two_digit_loop.simps [of v] m)
  next
    case False
    then have "unat v < 100" by (simp add: word_le_nat_alt)
    then show ?thesis using False 1(2,3) by (simp add: two_digit_loop.simps [of v])
  qed
qed

lemma two_digit_u64_text:
  assumes "20 \<le> length buf" "20 \<le> length out"
  shows "two_digit_u64 buf v out = Some (length (radix_str 10 (unat v)), overwrite 0 (radix_str 10 (unat v)) out)"
proof -
  let ?s = "radix_str 10 (unat v)"
  have s: "length ?s \<le> length buf" "length ?s \<le> length out" using radix_10_length [of v] assms by simp_all
  from two_digit_loop_digits [OF s(1) le_refl] obtain v' p buf1 where
    l: "two_digit_loop v (length buf, buf) = Some (v', p, buf1)" "unat v' < 100" "p \<le> length buf" "length buf1 = length buf"
      "length (radix_str 10 (unat v')) \<le> p" "radix_str 10 (unat v') @ drop p buf1 = ?s" by auto
  let ?step = "if v' \<ge> 10 then put_pair v' (p, buf1)
    else if 1 \<le> p then Some (p - 1, buf1[p - 1 := char_of (48 + unat v')]) else None"
  have "\<exists>q buf2. ?step = Some (q, buf2) \<and> drop q buf2 = ?s"
  proof (cases "v' \<ge> 10")
    case True
    then have "radix_str 10 (unat v') = [digit_char (unat v' div 10), digit_char (unat v' mod 10)]"
      using l(2) by (simp add: word_le_nat_alt radix_large radix_small)
    with True put_pair_digits [of v' p buf1] l show ?thesis by auto
  next
    case False
    then have v': "unat v' < 10" by (simp add: word_le_nat_alt)
    then have r: "radix_str 10 (unat v') = [char_of (48 + unat v')]" by (simp add: radix_small digit_char_def)
    then have "1 \<le> p" using l(5) by simp
    moreover have "drop (p - 1) (buf1[p - 1 := c]) = c # drop p buf1" for c
      using \<open>1 \<le> p\<close> l(3,4) by (simp add: drop_update_swap flip: overwrite_single) (simp add: overwrite_def)
    ultimately show ?thesis using False l(6) r by simp
  qed
  then obtain q buf2 where q: "?step = Some (q, buf2)" "drop q buf2 = ?s" by blast
  then have "length buf2 - q = length ?s" by (metis length_drop)
  then show ?thesis using l(1) q s(2) by (simp add: two_digit_u64_def)
qed

section \<open>The standard library's\<close>

text \<open>\<open>std::to_string\<close> and the conversion \<open>%llu\<close> give the decimal numeral.\<close>

definition std_tostring :: "u64 \<Rightarrow> string \<Rightarrow> (nat \<times> string) option" where
  "std_tostring v out =
     (let s = radix_str 10 (unat v) in if length s \<le> length out then Some (length s, overwrite 0 s out) else None)"

definition snprintf_u64 :: "u64 \<Rightarrow> string \<Rightarrow> (nat \<times> string) option" where
  "snprintf_u64 v out =
     do {
       (n, b) \<leftarrow> c_snprintf (radix_str 10 (unat v)) 24 \<lparr>mem = out, pos = 0, tid_cache = 0\<rparr>;
       Some (if n < 0 then 0 else nat n, mem b)
     }"

section \<open>Properties\<close>

text \<open>
  C34: The four printers of the benchmark, given a buffer of 24 bytes, never leave their arrays,
  whatever these held before; all write the digits the library's own \<open>u64_to_chars\<close> produces and
  return their number. Only \<open>snprintf\<close> writes one byte more, the terminating NUL.
\<close>

theorem itoa_strategies_agree:
  assumes "length tmp = 24" "length out = 24"
  shows "naive_u64 tmp v out = Some (length (u64_to_chars v), overwrite 0 (u64_to_chars v) out) \<and>
    two_digit_u64 tmp v out = naive_u64 tmp v out \<and> std_tostring v out = naive_u64 tmp v out \<and>
    snprintf_u64 v out = Some (length (u64_to_chars v), overwrite 0 (u64_to_chars v @ [CHR 0x00]) out)"
proof -
  have s: "length (radix_str 10 (unat v)) \<le> 20" by (rule radix_10_length)
  then have "snprintf_u64 v out = Some (length (radix_str 10 (unat v)), overwrite 0 (radix_str 10 (unat v) @ [CHR 0x00]) out)"
    using assms by (simp add: snprintf_u64_def c_snprintf_def INT_MAX_def)
  then show ?thesis using s assms by (simp add: naive_u64_text two_digit_u64_text std_tostring_def Let_def)
qed

theorem itoa_strategies_agree_witness:
  "two_digit_u64 (replicate 24 CHR ''x'') 90210 (replicate 24 CHR ''-'') = Some (5, ''90210'' @ replicate 19 CHR ''-'')"
proof -
  have "u64_to_chars 90210 = ''90210''"
    by (simp add: radix_large radix_small digit_char_def char_of_def bit_Suc_0_iff)
  then show ?thesis
    using itoa_strategies_agree [of "replicate 24 CHR ''x''" "replicate 24 CHR ''-''" 90210]
    by (simp add: overwrite_def)
qed

end
