(* ===== verification/Elog_Format.thy ===== *)
theory Elog_Format
  imports Elog_Memory
begin

text \<open>
  The compile-time format parser, \<open>include/elog/format.hpp\<close>: \<open>count_pieces\<close>,
  \<open>count_lit_chars\<close> and \<open>make_spec\<close>. A format string is written without its terminator (so it
  holds no NUL). The arrays of \<open>FmtSpec<N, L>\<close> keep their sizes: a write past the end is \<open>None\<close>
  (an error of the C++ constant evaluation). Offsets, lengths and argument indices are
  \<open>uint16_t\<close>. The reference is \<open>scan\<close>, which reads the string into characters and holes,
  and \<open>fill\<close>, which substitutes the arguments.
\<close>

section \<open>The code\<close>

definition kHoleSentinel :: u16 where
  "kHoleSentinel = 0xFFFF"

record piece =
  lit_offset :: u16
  plen :: u16
  arg_idx :: u16

definition piece_is_hole :: "piece \<Rightarrow> bool" where
  "piece_is_hole p \<longleftrightarrow> lit_offset p = kHoleSentinel"

text \<open>\<open>c2 = c1 ? s[1] : 0\<close>; at the last character \<open>s[1]\<close> is the terminator.\<close>

definition peek :: "string \<Rightarrow> char" where
  "peek s = (case s of [] \<Rightarrow> CHR 0x00 | c # _ \<Rightarrow> c)"

function count_pieces_loop :: "string \<Rightarrow> bool \<Rightarrow> nat \<Rightarrow> nat" where
  "count_pieces_loop s in_lit pieces =
     (case s of
        [] \<Rightarrow> pieces
      | c1 # s' \<Rightarrow>
          if c1 = CHR ''{'' \<and> peek s' = CHR ''{'' then
            count_pieces_loop (tl s') True (if in_lit then pieces else pieces + 1)
          else if c1 = CHR ''}'' \<and> peek s' = CHR ''}'' then
            count_pieces_loop (tl s') True (if in_lit then pieces else pieces + 1)
          else if c1 = CHR ''{'' \<and> peek s' = CHR ''}'' then
            count_pieces_loop (tl s') False (pieces + 1)
          else count_pieces_loop s' True (if in_lit then pieces else pieces + 1))"
  by pat_completeness auto
termination
  by (relation "measure (\<lambda>(s, _, _). length s)") auto

declare count_pieces_loop.simps [simp del]

lemmas count_pieces_loop_rules [simp] =
  count_pieces_loop.simps [of "[]"] count_pieces_loop.simps [of "c # s" for c s]

definition count_pieces :: "string \<Rightarrow> nat" where
  "count_pieces s = count_pieces_loop s False 0"

function count_lit_loop :: "string \<Rightarrow> nat \<Rightarrow> nat" where
  "count_lit_loop s n =
     (case s of
        [] \<Rightarrow> n
      | c1 # s' \<Rightarrow>
          if c1 = CHR ''{'' \<and> peek s' = CHR ''{'' then count_lit_loop (tl s') (n + 1)
          else if c1 = CHR ''}'' \<and> peek s' = CHR ''}'' then count_lit_loop (tl s') (n + 1)
          else if c1 = CHR ''{'' \<and> peek s' = CHR ''}'' then count_lit_loop (tl s') n
          else count_lit_loop s' (n + 1))"
  by pat_completeness auto
termination
  by (relation "measure (\<lambda>(s, _). length s)") auto

declare count_lit_loop.simps [simp del]

lemmas count_lit_loop_rules [simp] =
  count_lit_loop.simps [of "[]"] count_lit_loop.simps [of "c # s" for c s]

definition count_lit_chars :: "string \<Rightarrow> nat" where
  "count_lit_chars s = count_lit_loop s 0"

record fmt_spec =
  pieces :: "piece list"
  lit_data :: string
  hole_count :: nat

text \<open>The local variables of \<open>make_spec\<close>.\<close>

record mk =
  mk_pieces :: "piece list"
  mk_lit :: string
  mk_pi :: nat
  mk_li :: nat
  mk_in_lit :: bool
  mk_off :: u16
  mk_len :: u16
  mk_arg :: u16

definition set_piece :: "piece \<Rightarrow> mk \<Rightarrow> mk option" where
  "set_piece p st =
     (if mk_pi st < length (mk_pieces st)
      then Some (st\<lparr>mk_pieces := (mk_pieces st)[mk_pi st := p], mk_pi := mk_pi st + 1\<rparr>)
      else None)"

definition lit_step :: "char \<Rightarrow> mk \<Rightarrow> mk option" where
  "lit_step c st =
     (let st = (if mk_in_lit st then st
                else st\<lparr>mk_in_lit := True, mk_off := of_nat (mk_li st), mk_len := 0\<rparr>)
      in if mk_li st < length (mk_lit st)
         then Some (st\<lparr>mk_lit := (mk_lit st)[mk_li st := c], mk_li := mk_li st + 1,
                       mk_len := mk_len st + 1\<rparr>)
         else None)"

definition close_lit :: "mk \<Rightarrow> mk option" where
  "close_lit st =
     (if mk_in_lit st then
        do { st' \<leftarrow> set_piece \<lparr>lit_offset = mk_off st, plen = mk_len st, arg_idx = 0\<rparr> st;
             Some (st'\<lparr>mk_in_lit := False\<rparr>) }
      else Some st)"

definition hole_step :: "mk \<Rightarrow> mk option" where
  "hole_step st =
     do { st' \<leftarrow> close_lit st;
          st'' \<leftarrow> set_piece \<lparr>lit_offset = kHoleSentinel, plen = 0, arg_idx = mk_arg st'\<rparr> st';
          Some (st''\<lparr>mk_arg := mk_arg st'' + 1\<rparr>) }"

function make_spec_loop :: "string \<Rightarrow> mk \<Rightarrow> mk option" where
  "make_spec_loop s st =
     (case s of
        [] \<Rightarrow> Some st
      | c1 # s' \<Rightarrow>
          if c1 = CHR ''{'' \<and> peek s' = CHR ''{'' then
            do { st' \<leftarrow> lit_step (CHR ''{'') st; make_spec_loop (tl s') st' }
          else if c1 = CHR ''}'' \<and> peek s' = CHR ''}'' then
            do { st' \<leftarrow> lit_step (CHR ''}'') st; make_spec_loop (tl s') st' }
          else if c1 = CHR ''{'' \<and> peek s' = CHR ''}'' then
            do { st' \<leftarrow> hole_step st; make_spec_loop (tl s') st' }
          else do { st' \<leftarrow> lit_step c1 st; make_spec_loop s' st' })"
  by pat_completeness auto
termination
  by (relation "measure (\<lambda>(s, _). length s)") auto

declare make_spec_loop.simps [simp del]

lemmas make_spec_loop_rules [simp] =
  make_spec_loop.simps [of "[]"] make_spec_loop.simps [of "c # s" for c s]

definition mk_init :: "nat \<Rightarrow> nat \<Rightarrow> mk" where
  "mk_init N L =
     \<lparr>mk_pieces = replicate (if N = 0 then 1 else N) \<lparr>lit_offset = 0, plen = 0, arg_idx = 0\<rparr>,
      mk_lit = replicate (if L = 0 then 1 else L) (CHR 0x00),
      mk_pi = 0, mk_li = 0, mk_in_lit = False, mk_off = 0, mk_len = 0, mk_arg = 0\<rparr>"

definition make_spec :: "nat \<Rightarrow> nat \<Rightarrow> string \<Rightarrow> fmt_spec option" where
  "make_spec N L s =
     do { st \<leftarrow> make_spec_loop s (mk_init N L);
          st \<leftarrow> close_lit st;
          Some \<lparr>pieces = mk_pieces st, lit_data = mk_lit st, hole_count = unat (mk_arg st)\<rparr> }"

section \<open>The reference reading of a format string\<close>

datatype item = Ch char | Hole

function scan :: "string \<Rightarrow> item list" where
  "scan s =
     (case s of
        [] \<Rightarrow> []
      | c1 # s' \<Rightarrow>
          if c1 = CHR ''{'' \<and> peek s' = CHR ''{'' then Ch (CHR ''{'') # scan (tl s')
          else if c1 = CHR ''}'' \<and> peek s' = CHR ''}'' then Ch (CHR ''}'') # scan (tl s')
          else if c1 = CHR ''{'' \<and> peek s' = CHR ''}'' then Hole # scan (tl s')
          else Ch c1 # scan s')"
  by pat_completeness auto
termination
  by (relation "measure length") auto

declare scan.simps [simp del]

lemmas scan_rules [simp] =
  scan.simps [of "[]"] scan.simps [of "c # s" for c s]

fun fill :: "item list \<Rightarrow> (nat \<Rightarrow> string) \<Rightarrow> nat \<Rightarrow> string" where
  "fill [] args k = []"
| "fill (Ch c # is) args k = c # fill is args k"
| "fill (Hole # is) args k = args k @ fill is args (k + 1)"

fun chars :: "item list \<Rightarrow> nat" where
  "chars [] = 0"
| "chars (Ch c # is) = chars is + 1"
| "chars (Hole # is) = chars is"

fun holes :: "item list \<Rightarrow> nat" where
  "holes [] = 0"
| "holes (Ch c # is) = holes is"
| "holes (Hole # is) = holes is + 1"

text \<open>Maximal runs of characters, and holes.\<close>

fun runs :: "bool \<Rightarrow> item list \<Rightarrow> nat" where
  "runs in_lit [] = 0"
| "runs in_lit (Ch c # is) = (if in_lit then 0 else 1) + runs True is"
| "runs in_lit (Hole # is) = 1 + runs False is"

definition ends_lit :: "item list \<Rightarrow> bool" where
  "ends_lit is \<longleftrightarrow> (\<exists>c. is \<noteq> [] \<and> last is = Ch c)"

lemma chars_append [simp]: "chars (xs @ ys) = chars xs + chars ys"
  by (induction xs rule: chars.induct) auto

lemma holes_append [simp]: "holes (xs @ ys) = holes xs + holes ys"
  by (induction xs rule: holes.induct) auto

lemma fill_append: "fill (xs @ ys) args k = fill xs args k @ fill ys args (k + holes xs)"
  by (induction xs args k rule: fill.induct) (auto simp: add.commute)

lemma runs_snoc:
  "runs b (xs @ [x]) =
     runs b xs + (case x of Hole \<Rightarrow> 1 | Ch c \<Rightarrow> if (if xs = [] then b else ends_lit xs) then 0 else 1)"
  by (induction b xs rule: runs.induct) (auto simp: ends_lit_def split: item.splits)

lemma runs_append_le: "runs b xs \<le> runs b (xs @ ys)"
  by (induction b xs rule: runs.induct) auto

lemma count_pieces_loop_scan: "count_pieces_loop s b n = n + runs b (scan s)"
proof (induction s b n rule: count_pieces_loop.induct)
  case (1 s b n)
  then show ?case
    by (cases s) auto
qed

lemma count_pieces_scan: "count_pieces s = runs False (scan s)"
  by (simp add: count_pieces_def count_pieces_loop_scan)

lemma count_lit_loop_scan: "count_lit_loop s n = n + chars (scan s)"
proof (induction s n rule: count_lit_loop.induct)
  case (1 s n)
  then show ?case
    by (cases s) auto
qed

lemma count_lit_chars_scan: "count_lit_chars s = chars (scan s)"
  by (simp add: count_lit_chars_def count_lit_loop_scan)

fun item_step :: "item \<Rightarrow> mk \<Rightarrow> mk option" where
  "item_step (Ch c) st = lit_step c st"
| "item_step Hole st = hole_step st"

fun item_steps :: "item list \<Rightarrow> mk \<Rightarrow> mk option" where
  "item_steps [] st = Some st"
| "item_steps (x # xs) st = do { st' \<leftarrow> item_step x st; item_steps xs st' }"

lemma make_spec_loop_scan: "make_spec_loop s st = item_steps (scan s) st"
proof (induction s st rule: make_spec_loop.induct)
  case (1 s st)
  show ?case
  proof (cases s)
    case Nil
    then show ?thesis by simp
  next
    case (Cons c1 s')
    with 1 show ?thesis
      by (auto intro!: bind_option_cong)
  qed
qed

section \<open>Correctness of the piece table\<close>

definition piece_text :: "string \<Rightarrow> (nat \<Rightarrow> string) \<Rightarrow> piece \<Rightarrow> string" where
  "piece_text lit args p =
     (if lit_offset p \<noteq> kHoleSentinel
      then take (unat (plen p)) (drop (unat (lit_offset p)) lit)
      else args (unat (arg_idx p)))"

definition pieces_text :: "string \<Rightarrow> (nat \<Rightarrow> string) \<Rightarrow> piece list \<Rightarrow> string" where
  "pieces_text lit args ps = concat (map (piece_text lit args) ps)"

text \<open>A piece that only refers to the first \<open>li\<close> literal bytes and the first \<open>h\<close> arguments.\<close>

definition piece_ok :: "nat \<Rightarrow> nat \<Rightarrow> piece \<Rightarrow> bool" where
  "piece_ok li h p \<longleftrightarrow>
     (if lit_offset p = kHoleSentinel then unat (arg_idx p) < h
      else unat (lit_offset p) + unat (plen p) \<le> li)"

definition open_text :: "mk \<Rightarrow> string" where
  "open_text st =
     (if mk_in_lit st then take (unat (mk_len st)) (drop (unat (mk_off st)) (mk_lit st)) else [])"

text \<open>What the loop has done once it has read the items \<open>ps\<close> of a format with the sizes \<open>N\<close>, \<open>L\<close>.\<close>

definition mk_inv :: "nat \<Rightarrow> nat \<Rightarrow> item list \<Rightarrow> mk \<Rightarrow> bool" where
  "mk_inv N L ps st \<longleftrightarrow>
     length (mk_pieces st) = max 1 N \<and> length (mk_lit st) = max 1 L \<and>
     mk_li st = chars ps \<and> mk_arg st = of_nat (holes ps) \<and> mk_in_lit st = ends_lit ps \<and>
     mk_pi st + (if mk_in_lit st then 1 else 0) = runs False ps \<and>
     (mk_in_lit st \<longrightarrow> 0 < unat (mk_len st) \<and> unat (mk_off st) + unat (mk_len st) = mk_li st) \<and>
     (\<forall>p \<in> set (take (mk_pi st) (mk_pieces st)). piece_ok (mk_li st) (holes ps) p) \<and>
     (\<forall>args. pieces_text (mk_lit st) args (take (mk_pi st) (mk_pieces st)) @ open_text st = fill ps args 0)"

lemma mk_inv_init: "mk_inv N L [] (mk_init N L)"
  by (auto simp: mk_inv_def mk_init_def ends_lit_def open_text_def pieces_text_def)

lemma piece_ok_mono: "piece_ok li h p \<Longrightarrow> li \<le> li' \<Longrightarrow> h \<le> h' \<Longrightarrow> piece_ok li' h' p"
  by (auto simp: piece_ok_def split: if_splits)

lemma pieces_text_append: "pieces_text lit args (ps @ qs) = pieces_text lit args ps @ pieces_text lit args qs"
  by (simp add: pieces_text_def)

text \<open>Appending a literal byte leaves the finished pieces alone.\<close>

lemma pieces_text_update:
  assumes "\<forall>p \<in> set ps. piece_ok li h p"
  shows "pieces_text (lit[li := c]) args ps = pieces_text lit args ps"
  using assms
  by (induction ps) (auto simp: pieces_text_def piece_text_def piece_ok_def region_update)

lemma unat_of_nat_16 [simp]: "n < 65536 \<Longrightarrow> unat (of_nat n :: u16) = n"
  by (simp add: unat_of_nat)

lemma unat_add_16: "unat a + unat b < 65536 \<Longrightarrow> unat (a + b :: u16) = unat a + unat b"
  by (simp add: unat_word_ariths)

lemma take_snoc_update:
  "a + n = i \<Longrightarrow> i < length xs \<Longrightarrow> take (Suc n) (drop a (xs[i := x])) = take n (drop a xs) @ [x]"
  by (auto simp: take_Suc_conv_app_nth region_update)

lemma fill_snoc_char: "fill (ps @ [Ch c]) args 0 = fill ps args 0 @ [c]"
  by (simp add: fill_append)

lemma fill_snoc_hole: "fill (ps @ [Hole]) args 0 = fill ps args 0 @ args (holes ps)"
  by (simp add: fill_append)

lemma ends_lit_snoc [simp]: "ends_lit (ps @ [Ch c])" "\<not> ends_lit (ps @ [Hole])" "\<not> ends_lit []"
  by (simp_all add: ends_lit_def)

lemma runs_snoc_char: "runs False (ps @ [Ch c]) = runs False ps + (if ends_lit ps then 0 else 1)"
  by (auto simp: runs_snoc ends_lit_def)

lemma runs_snoc_hole: "runs False (ps @ [Hole]) = runs False ps + 1"
  by (simp add: runs_snoc)

lemma lit_step_inv:
  assumes inv: "mk_inv N L ps st" and fit: "chars ps < L" "L \<le> 65535"
  shows "\<exists>st'. lit_step c st = Some st' \<and> mk_inv N L (ps @ [Ch c]) st'"
proof -
  let ?off = "if mk_in_lit st then mk_off st else of_nat (mk_li st)"
  let ?len = "if mk_in_lit st then mk_len st else 0"
  let ?st = "st\<lparr>mk_in_lit := True, mk_off := ?off, mk_len := ?len + 1,
      mk_lit := (mk_lit st)[mk_li st := c], mk_li := mk_li st + 1\<rparr>"
  have room: "mk_li st < length (mk_lit st)" "mk_li st < 65535"
    using inv fit by (auto simp: mk_inv_def)
  then have step: "lit_step c st = Some ?st"
    by (auto simp: lit_step_def Let_def)
  have pos: "unat ?off + unat ?len = mk_li st"
    using inv room by (auto simp: mk_inv_def)
  then have len: "unat (?len + 1) = Suc (unat ?len)"
    using room by (subst unat_add_16) auto
  have tx: "open_text st = take (unat ?len) (drop (unat ?off) (mk_lit st))"
    by (simp add: open_text_def)
  have "open_text ?st = open_text st @ [c]"
    unfolding tx using take_snoc_update [OF pos room(1)] len by (simp add: open_text_def)
  moreover have "pieces_text ((mk_lit st)[mk_li st := c]) args (take (mk_pi st) (mk_pieces st)) =
      pieces_text (mk_lit st) args (take (mk_pi st) (mk_pieces st))" for args
    using inv by (intro pieces_text_update) (auto simp: mk_inv_def)
  ultimately have "mk_inv N L (ps @ [Ch c]) ?st"
    using inv pos len
    by (auto simp: mk_inv_def runs_snoc_char fill_snoc_char intro: piece_ok_mono)
  with step show ?thesis by blast
qed

lemma take_snoc_set: "i < length xs \<Longrightarrow> take (Suc i) (xs[i := x]) = take i xs @ [x]"
  by (simp add: take_Suc_conv_app_nth)

lemma close_lit_inv:
  assumes inv: "mk_inv N L ps st" and fit: "runs False ps \<le> N" "L \<le> 65535" "chars ps \<le> L"
  shows "\<exists>st'. close_lit st = Some st' \<and> \<not> mk_in_lit st' \<and> mk_pi st' = runs False ps \<and>
    mk_li st' = mk_li st \<and> mk_arg st' = mk_arg st \<and> mk_lit st' = mk_lit st \<and>
    length (mk_pieces st') = length (mk_pieces st) \<and>
    (\<forall>p \<in> set (take (mk_pi st') (mk_pieces st')). piece_ok (mk_li st) (holes ps) p) \<and>
    (\<forall>args. pieces_text (mk_lit st') args (take (mk_pi st') (mk_pieces st')) = fill ps args 0)"
proof (cases "mk_in_lit st")
  case False
  then show ?thesis using inv by (auto simp: close_lit_def mk_inv_def open_text_def)
next
  case True
  let ?p = "\<lparr>lit_offset = mk_off st, plen = mk_len st, arg_idx = 0\<rparr>"
  let ?st = "st\<lparr>mk_pieces := (mk_pieces st)[mk_pi st := ?p], mk_pi := mk_pi st + 1, mk_in_lit := False\<rparr>"
  have bnd: "mk_pi st < length (mk_pieces st)" "unat (mk_off st) + unat (mk_len st) = mk_li st"
    "0 < unat (mk_len st)" "mk_li st \<le> 65535"
    using inv True fit by (auto simp: mk_inv_def)
  then have "close_lit st = Some ?st"
    using True by (simp add: close_lit_def set_piece_def)
  moreover have "unat (mk_off st) < 65535" using bnd by linarith
  then have "mk_off st \<noteq> kHoleSentinel"
    by (auto simp: kHoleSentinel_def)
  then have "piece_ok (mk_li st) (holes ps) ?p"
    and "\<And>args. piece_text (mk_lit st) args ?p = open_text st"
    using bnd True by (auto simp: piece_ok_def piece_text_def open_text_def)
  moreover have new: "take (Suc (mk_pi st)) ((mk_pieces st)[mk_pi st := ?p]) = take (mk_pi st) (mk_pieces st) @ [?p]"
    by (rule take_snoc_set [OF bnd(1)])
  moreover have "runs False ps = Suc (mk_pi st)"
    "\<forall>p \<in> set (take (mk_pi st) (mk_pieces st)). piece_ok (mk_li st) (holes ps) p"
    "\<And>args. pieces_text (mk_lit st) args (take (mk_pi st) (mk_pieces st)) @ open_text st = fill ps args 0"
    using inv True by (auto simp: mk_inv_def)
  ultimately show ?thesis
    by (intro exI [of _ ?st]) (auto simp: pieces_text_append pieces_text_def [of _ _ "[_]"])
qed

lemma hole_step_inv:
  assumes inv: "mk_inv N L ps st" and fit: "runs False ps < N" "L \<le> 65535" "chars ps \<le> L"
    "holes ps < 65535"
  shows "\<exists>st'. hole_step st = Some st' \<and> mk_inv N L (ps @ [Hole]) st'"
proof -
  obtain st1 where st1: "close_lit st = Some st1" "\<not> mk_in_lit st1" "mk_pi st1 = runs False ps"
    "mk_li st1 = mk_li st" "mk_arg st1 = mk_arg st" "mk_lit st1 = mk_lit st"
    "length (mk_pieces st1) = length (mk_pieces st)"
    "\<forall>p \<in> set (take (mk_pi st1) (mk_pieces st1)). piece_ok (mk_li st) (holes ps) p"
    "\<And>args. pieces_text (mk_lit st1) args (take (mk_pi st1) (mk_pieces st1)) = fill ps args 0"
    using close_lit_inv [OF inv] fit by auto
  let ?p = "\<lparr>lit_offset = kHoleSentinel, plen = 0, arg_idx = mk_arg st1\<rparr>"
  let ?st = "st1\<lparr>mk_pieces := (mk_pieces st1)[mk_pi st1 := ?p], mk_pi := mk_pi st1 + 1,
      mk_arg := mk_arg st1 + 1\<rparr>"
  have bnd: "mk_pi st1 < length (mk_pieces st1)"
    using inv st1 fit by (simp add: mk_inv_def)
  then have "hole_step st = Some ?st"
    by (simp add: hole_step_def st1(1) set_piece_def)
  moreover have "unat (mk_arg st1) = holes ps"
    using inv fit st1 by (simp add: mk_inv_def)
  then have "piece_ok (mk_li st) (Suc (holes ps)) ?p"
    and "\<And>args. piece_text (mk_lit st1) args ?p = args (holes ps)"
    by (auto simp: piece_ok_def piece_text_def)
  ultimately show ?thesis
    using inv st1 bnd
    by (auto simp: mk_inv_def take_snoc_set pieces_text_append pieces_text_def [of _ _ "[_]"]
        open_text_def runs_snoc_hole fill_snoc_hole add.commute intro: piece_ok_mono)
qed

lemma item_steps_inv:
  assumes "mk_inv N L ps st" "runs False (ps @ xs) \<le> N" "chars (ps @ xs) \<le> L" "L \<le> 65535"
    "holes (ps @ xs) \<le> 65535"
  shows "\<exists>st'. item_steps xs st = Some st' \<and> mk_inv N L (ps @ xs) st'"
  using assms
proof (induction xs arbitrary: ps st)
  case Nil
  then show ?case by simp
next
  case (Cons x xs)
  have r: "runs False (ps @ [x]) \<le> N"
    using runs_append_le [of False "ps @ [x]" xs] Cons.prems(2) by simp
  have "\<exists>st1. item_step x st = Some st1 \<and> mk_inv N L (ps @ [x]) st1"
  proof (cases x)
    case (Ch c)
    then show ?thesis using lit_step_inv [OF Cons.prems(1)] Cons.prems by simp
  next
    case Hole
    then show ?thesis using hole_step_inv [OF Cons.prems(1)] Cons.prems r by (simp add: runs_snoc_hole)
  qed
  then obtain st1 where s1: "item_step x st = Some st1" "mk_inv N L (ps @ [x]) st1" by blast
  from Cons.IH [OF s1(2)] Cons.prems s1(1) show ?case by simp
qed

text \<open>
  With the sizes the macros pass (\<open>count_pieces\<close> and \<open>count_lit_chars\<close> of the same string), the
  parser never leaves its arrays, and its piece table, read with any arguments, spells the
  reference reading of the format.
\<close>

lemma make_spec_scan:
  assumes "count_lit_chars s \<le> 65535" "holes (scan s) \<le> 65535"
  shows "\<exists>sp. make_spec (count_pieces s) (count_lit_chars s) s = Some sp \<and>
    hole_count sp = holes (scan s) \<and> count_pieces s \<le> length (pieces sp) \<and>
    (\<forall>p \<in> set (take (count_pieces s) (pieces sp)).
       piece_ok (length (lit_data sp)) (hole_count sp) p) \<and>
    (\<forall>args. pieces_text (lit_data sp) args (take (count_pieces s) (pieces sp)) = fill (scan s) args 0)"
proof -
  let ?N = "count_pieces s" and ?L = "count_lit_chars s"
  obtain st where st: "item_steps (scan s) (mk_init ?N ?L) = Some st" "mk_inv ?N ?L (scan s) st"
    using item_steps_inv [OF mk_inv_init, of "scan s" ?N ?L] assms
    by (auto simp: count_pieces_scan count_lit_chars_scan)
  obtain st' where st': "close_lit st = Some st'" "mk_pi st' = ?N" "mk_lit st' = mk_lit st"
    "mk_arg st' = mk_arg st" "length (mk_pieces st') = length (mk_pieces st)"
    "\<forall>p \<in> set (take (mk_pi st') (mk_pieces st')). piece_ok (mk_li st) (holes (scan s)) p"
    "\<And>args. pieces_text (mk_lit st') args (take (mk_pi st') (mk_pieces st')) = fill (scan s) args 0"
    using close_lit_inv [OF st(2)] assms by (auto simp: count_pieces_scan count_lit_chars_scan)
  have inv: "length (mk_pieces st) = max 1 ?N" "length (mk_lit st) = max 1 ?L" "mk_li st = ?L"
    "mk_arg st = of_nat (holes (scan s))"
    using st(2) by (auto simp: mk_inv_def count_lit_chars_scan)
  have "make_spec ?N ?L s =
      Some \<lparr>pieces = mk_pieces st', lit_data = mk_lit st', hole_count = unat (mk_arg st')\<rparr>"
    by (simp add: make_spec_def make_spec_loop_scan st(1) st'(1))
  then show ?thesis
    using st' inv assms piece_ok_mono [of "mk_li st" "holes (scan s)"] by auto
qed

section \<open>Properties\<close>

lemma map_piece_text_cong:
  assumes "\<forall>p \<in> set ps. piece_ok li h p" "\<And>k. k < h \<Longrightarrow> f k = g k"
  shows "pieces_text lit f ps = pieces_text lit g ps"
  using assms(1)
  by (induction ps) (auto simp: pieces_text_def piece_text_def piece_ok_def assms(2))

text \<open>
  C8: With the array sizes the logging macros pass, the constexpr parser stays inside its arrays
  for every format string (up to the 16-bit offsets it stores), each finished piece refers to
  literal bytes that exist or to one of the counted holes, and concatenating the pieces, with any
  texts for the holes, spells the format with the escapes undone and the holes filled left to
  right; only the texts of the counted holes are looked at.
\<close>

theorem make_spec_correct:
  assumes "count_lit_chars s \<le> 65535" "holes (scan s) \<le> 65535"
  shows "\<exists>sp. make_spec (count_pieces s) (count_lit_chars s) s = Some sp \<and>
    hole_count sp = holes (scan s) \<and> count_pieces s \<le> length (pieces sp) \<and>
    (\<forall>p \<in> set (take (count_pieces s) (pieces sp)).
       if piece_is_hole p then unat (arg_idx p) < hole_count sp
       else unat (lit_offset p) + unat (plen p) \<le> length (lit_data sp)) \<and>
    (\<forall>args args'. (\<forall>k < hole_count sp. args k = args' k) \<longrightarrow>
       pieces_text (lit_data sp) args (take (count_pieces s) (pieces sp)) = fill (scan s) args' 0)"
proof -
  obtain sp where sp: "make_spec (count_pieces s) (count_lit_chars s) s = Some sp"
    "hole_count sp = holes (scan s)" "count_pieces s \<le> length (pieces sp)"
    "\<forall>p \<in> set (take (count_pieces s) (pieces sp)). piece_ok (length (lit_data sp)) (hole_count sp) p"
    "\<And>args. pieces_text (lit_data sp) args (take (count_pieces s) (pieces sp)) = fill (scan s) args 0"
    using make_spec_scan [OF assms] by blast
  have "pieces_text (lit_data sp) args (take (count_pieces s) (pieces sp)) = fill (scan s) args' 0"
    if "\<forall>k < hole_count sp. args k = args' k" for args args'
    using map_piece_text_cong [OF sp(4), of args args'] that sp(5) [of args'] by simp
  then show ?thesis
    using sp(1-4) by (intro exI [of _ sp]) (simp add: piece_ok_def piece_is_hole_def)
qed

theorem make_spec_correct_witness:
  "\<exists>sp. make_spec (count_pieces ''a{{{}b'') (count_lit_chars ''a{{{}b'') ''a{{{}b'' = Some sp \<and>
     pieces_text (lit_data sp) (\<lambda>k. ''42'') (take (count_pieces ''a{{{}b'') (pieces sp)) = ''a{42b''"
proof -
  have "count_lit_chars ''a{{{}b'' \<le> 65535" "holes (scan ''a{{{}b'') \<le> 65535"
    "fill (scan ''a{{{}b'') (\<lambda>k. ''42'') 0 = ''a{42b''"
    by (simp_all add: count_lit_chars_def peek_def)
  with make_spec_correct [of "''a{{{}b''"] show ?thesis by metis
qed

text \<open>Doubling the braces of a text, as the library's documentation asks of the caller.\<close>

fun brace_escape :: "string \<Rightarrow> string" where
  "brace_escape [] = []"
| "brace_escape (c # s) = (if c = CHR ''{'' \<or> c = CHR ''}'' then [c, c] else [c]) @ brace_escape s"

lemma peek_brace_escape [simp]: "peek (c # s) = c" "peek [] = CHR 0x00"
  by (simp_all add: peek_def)

lemma scan_brace_escape: "scan (brace_escape s) = map Ch s"
  by (induction s) auto

lemma chars_map_Ch [simp]: "chars (map Ch s) = length s" "holes (map Ch s) = 0"
  "fill (map Ch s) args k = s"
  by (induction s) auto

text \<open>
  C25: Escaping round trip: the parser gives back any text whose braces were doubled, as literals
  only, with no hole and no argument read.
\<close>

theorem make_spec_escape:
  assumes "length s \<le> 65535"
  shows "\<exists>sp. make_spec (count_pieces (brace_escape s)) (count_lit_chars (brace_escape s)) (brace_escape s) = Some sp \<and>
    hole_count sp = 0 \<and>
    pieces_text (lit_data sp) args (take (count_pieces (brace_escape s)) (pieces sp)) = s"
proof -
  have "count_lit_chars (brace_escape s) \<le> 65535" "holes (scan (brace_escape s)) \<le> 65535"
    using assms by (simp_all add: count_lit_chars_scan scan_brace_escape)
  from make_spec_scan [OF this] show ?thesis by (auto simp: scan_brace_escape)
qed

theorem make_spec_escape_witness:
  "\<exists>sp. make_spec (count_pieces ''{{}}x'') (count_lit_chars ''{{}}x'') ''{{}}x'' = Some sp \<and>
     hole_count sp = 0 \<and>
     pieces_text (lit_data sp) (\<lambda>_. ''?'') (take (count_pieces ''{{}}x'') (pieces sp)) = ''{}x''"
proof -
  have "brace_escape ''{}x'' = ''{{}}x''" by simp
  with make_spec_escape [of "''{}x''" "\<lambda>_. ''?''"] show ?thesis by simp
qed

end
