(* ===== verification/Elog_Diy.thy ===== *)
theory Elog_Diy
  imports Elog_Grisu
begin

text \<open>
  Facts about the 64-bit arithmetic of \<open>src/grisu2.cpp\<close>: \<open>diy_multiply\<close> returns the upper half of
  the exact 128-bit product rounded to nearest, and the two normalisation loops end with a
  significand whose top bit is set, having shifted without loss.
\<close>

section \<open>Multiplication\<close>

lemma unat_mult_small: "unat a * unat b < 2 ^ LENGTH('a) \<Longrightarrow> unat (a * b :: 'a :: len word) = unat a * unat b"
  by (simp add: unat_word_ariths)

lemma unat_add_small: "unat a + unat b < 2 ^ LENGTH('a) \<Longrightarrow> unat (a + b :: 'a :: len word) = unat a + unat b"
  by (simp add: unat_word_ariths)

lemma unat_u64: "unat (x :: u64) < 18446744073709551616"
  using unsigned_less [of x, where 'a = nat] by simp

lemma unat_and_32: "unat (x AND 0xFFFFFFFF :: u64) = unat x mod 4294967296"
  using unat_and_mask [of x 32] by (simp add: mask_eq_exp_minus_1)

lemma unat_shift_32: "unat (drop_bit 32 x :: u64) = unat x div 4294967296"
  by (simp add: unat_drop_bit)

text \<open>The rounded high half of a 128-bit product, on natural numbers.\<close>

lemma mulhi_nat:
  fixes a b c d :: nat
  assumes "a < 4294967296" "b < 4294967296" "c < 4294967296" "d < 4294967296"
  defines "x \<equiv> a * 4294967296 + b" and "y \<equiv> c * 4294967296 + d"
    and "m \<equiv> b * d div 4294967296 + a * d mod 4294967296 + b * c mod 4294967296 + 2147483648"
  defines "r \<equiv> a * c + a * d div 4294967296 + b * c div 4294967296 + m div 4294967296"
  shows "r * 18446744073709551616 \<le> x * y + 9223372036854775808"
    and "x * y < r * 18446744073709551616 + 9223372036854775808"
proof -
  let ?B = "4294967296 :: nat"
  have xy: "x * y = a * c * (?B * ?B) + (a * d + b * c) * ?B + b * d"
    unfolding x_def y_def by (simp add: algebra_simps)
  have ad: "a * d = a * d div ?B * ?B + a * d mod ?B" by simp
  have bc: "b * c = b * c div ?B * ?B + b * c mod ?B" by simp
  have bd: "b * d = b * d div ?B * ?B + b * d mod ?B" by simp
  have md: "m = m div ?B * ?B + m mod ?B" by simp
  have lt: "b * d mod ?B < ?B" "m mod ?B < ?B" by simp_all
  define p q s where "p = a * d div ?B" and "q = a * d mod ?B" and "s = b * c div ?B"
  define t u w where "t = b * c mod ?B" and "u = b * d div ?B" and "w = b * d mod ?B"
  define k l where "k = m div ?B" and "l = m mod ?B"
  have e1: "x * y = a * c * (?B * ?B) + (p * ?B + q + (s * ?B + t)) * ?B + (u * ?B + w)"
    using xy ad bc bd unfolding p_def q_def s_def t_def u_def w_def by presburger
  have e2: "u + q + t + 2147483648 = k * ?B + l"
    using md unfolding m_def [symmetric] k_def l_def u_def q_def t_def by (simp add: m_def)
  have e3: "r = a * c + p + s + k" unfolding r_def p_def s_def k_def by simp
  have l: "l < ?B" "w < ?B" using lt unfolding l_def w_def by simp_all
  have "x * y + 9223372036854775808 = (a * c + p + s) * (?B * ?B) + (u + q + t + 2147483648) * ?B + w"
    unfolding e1 by (simp add: algebra_simps)
  then have "x * y + 9223372036854775808 = r * (?B * ?B) + l * ?B + w"
    unfolding e2 e3 by (simp add: algebra_simps)
  moreover have "l * ?B + w < ?B * ?B" using l by simp
  ultimately show "r * 18446744073709551616 \<le> x * y + 9223372036854775808"
    and "x * y < r * 18446744073709551616 + 9223372036854775808" by simp_all
qed

lemma word_split_32: "unat (x :: u64) = unat (drop_bit 32 x) * 4294967296 + unat (x AND 0xFFFFFFFF)"
  by (simp add: unat_shift_32 unat_and_32)

lemma mult_less_sq: "(a :: nat) < n \<Longrightarrow> b < n \<Longrightarrow> a * b \<le> (n - 1) * (n - 1)"
  by (rule mult_le_mono) auto

lemma diy_multiply_bound:
  fixes x y :: DiyFp
  defines "r \<equiv> unat (df (diy_multiply x y))"
  shows "r * 18446744073709551616 \<le> unat (df x) * unat (df y) + 9223372036854775808"
    and "unat (df x) * unat (df y) < r * 18446744073709551616 + 9223372036854775808"
    and "de (diy_multiply x y) = de x + de y + 64"
proof -
  let ?B = "4294967296 :: nat" and ?M = "0xFFFFFFFF :: u64"
  define a b c d where "a = drop_bit 32 (df x)" and "b = df x AND ?M"
    and "c = drop_bit 32 (df y)" and "d = df y AND ?M"
  have lt: "unat a < ?B" "unat b < ?B" "unat c < ?B" "unat d < ?B"
    using unat_u64 [of "df x"] unat_u64 [of "df y"]
    by (auto simp: a_def b_def c_def d_def unat_shift_32 unat_and_32)
  have xy: "unat (df x) = unat a * ?B + unat b" "unat (df y) = unat c * ?B + unat d"
    unfolding a_def b_def c_def d_def by (rule word_split_32)+
  have mul: "unat (u * v) = unat u * unat v" "unat u * unat v \<le> 18446744065119617025"
    if "unat u < ?B" "unat v < ?B" for u v :: u64
  proof -
    show le: "unat u * unat v \<le> 18446744065119617025" using mult_less_sq [OF that] by simp
    show "unat (u * v) = unat u * unat v" using le by (intro unat_mult_small) simp
  qed
  note ml = mul(1) [OF lt(1,3)] mul(1) [OF lt(2,3)] mul(1) [OF lt(1,4)] mul(1) [OF lt(2,4)]
  define md where "md = drop_bit 32 (b * d) + (a * d AND ?M) + (b * c AND ?M) + push_bit 31 1"
  define m where "m = unat b * unat d div ?B + unat a * unat d mod ?B + unat b * unat c mod ?B + 2147483648"
  have bd: "unat b * unat d div ?B \<le> 4294967294"
    using mul(2) [OF lt(2,4)] by (simp add: div_le_mono [where n = 18446744065119617025, THEN order_trans])
  have m: "unat md = m"
  proof -
    have parts: "unat (drop_bit 32 (b * d)) = unat b * unat d div ?B"
      "unat (a * d AND ?M) = unat a * unat d mod ?B" "unat (b * c AND ?M) = unat b * unat c mod ?B"
      "unat (push_bit 31 1 :: u64) = 2147483648"
      by (simp_all add: unat_shift_32 unat_and_32 ml)
    have r: "unat a * unat d mod ?B < ?B" "unat b * unat c mod ?B < ?B" by simp_all
    have s1: "unat (drop_bit 32 (b * d) + (a * d AND ?M)) = unat b * unat d div ?B + unat a * unat d mod ?B"
      using bd r by (subst unat_add_small) (simp_all add: parts)
    have s2: "unat (drop_bit 32 (b * d) + (a * d AND ?M) + (b * c AND ?M)) =
        unat b * unat d div ?B + unat a * unat d mod ?B + unat b * unat c mod ?B"
      using bd r by (subst unat_add_small) (simp_all add: parts s1)
    show ?thesis
      unfolding md_def m_def using bd r by (subst unat_add_small) (simp_all add: parts s2)
  qed
  define rn where "rn = unat a * unat c + unat a * unat d div ?B + unat b * unat c div ?B + m div ?B"
  note nat = mulhi_nat [OF lt, folded m_def, folded rn_def]
  have "unat (df x) * unat (df y) \<le> 18446744073709551615 * 18446744073709551615"
    using unat_u64 [of "df x"] unat_u64 [of "df y"] by (intro mult_le_mono) auto
  then have small: "rn < 18446744073709551616"
    using nat(1) unfolding xy by linarith
  have f: "df (diy_multiply x y) = a * c + drop_bit 32 (a * d) + drop_bit 32 (b * c) + drop_bit 32 md"
    by (simp add: diy_multiply_def Let_def a_def b_def c_def d_def md_def)
  have p: "unat (a * c) = unat a * unat c" "unat (drop_bit 32 (a * d)) = unat a * unat d div ?B"
    "unat (drop_bit 32 (b * c)) = unat b * unat c div ?B" "unat (drop_bit 32 md) = m div ?B"
    by (simp_all add: unat_shift_32 ml m)
  have t1: "unat (a * c + drop_bit 32 (a * d)) = unat a * unat c + unat a * unat d div ?B"
    using small unfolding rn_def by (subst unat_add_small) (simp_all add: p)
  have t2: "unat (a * c + drop_bit 32 (a * d) + drop_bit 32 (b * c)) =
      unat a * unat c + unat a * unat d div ?B + unat b * unat c div ?B"
    using small unfolding rn_def by (subst unat_add_small) (simp_all add: p t1)
  have "r = rn"
    unfolding r_def f using small unfolding rn_def by (subst unat_add_small) (simp_all add: p t2)
  then show "r * 18446744073709551616 \<le> unat (df x) * unat (df y) + 9223372036854775808"
    and "unat (df x) * unat (df y) < r * 18446744073709551616 + 9223372036854775808"
    using nat unfolding xy by simp_all
  show "de (diy_multiply x y) = de x + de y + 64"
    by (simp add: diy_multiply_def Let_def)
qed

section \<open>Normalization\<close>

lemma top_mask: "k \<le> 64 \<Longrightarrow> (x :: u64) AND (push_bit k (mask (64 - k))) = 0 \<longleftrightarrow> unat x < 2 ^ k"
proof -
  assume k: "k \<le> 64"
  have "x AND (push_bit k (mask (64 - k))) = push_bit k (drop_bit k x AND mask (64 - k))"
    by (rule bit_word_eqI) (auto simp: bit_simps)
  also have "drop_bit k x AND mask (64 - k) = drop_bit k x"
    using k by (intro bit_word_eqI) (auto simp: bit_simps dest: bit_imp_le_length)
  finally have "x AND (push_bit k (mask (64 - k))) = 0 \<longleftrightarrow> push_bit k (drop_bit k x) = 0" by simp
  also have "\<dots> \<longleftrightarrow> drop_bit k x = 0"
  proof
    assume z: "push_bit k (drop_bit k x) = 0"
    show "drop_bit k x = 0"
    proof (rule bit_word_eqI)
      fix n
      have "bit (push_bit k (drop_bit k x)) (k + n) = False" by (simp only: z) simp
      then show "bit (drop_bit k x) n = bit (0 :: u64) n"
        by (auto simp: bit_simps dest: bit_imp_le_length)
    qed
  qed simp
  also have "\<dots> \<longleftrightarrow> unat x < 2 ^ k"
    by (simp add: drop_bit_zero_iff div_eq_0_iff)
  finally show ?thesis .
qed

lemma masks:
  "(x :: u64) AND 0xFFC0000000000000 = 0 \<longleftrightarrow> unat x < 2 ^ 54"
  "(x :: u64) AND 0x8000000000000000 = 0 \<longleftrightarrow> unat x < 2 ^ 63"
  using top_mask [of 54 x] top_mask [of 63 x] by (simp_all add: mask_eq_exp_minus_1)

lemma mask_62: "unat x < 2 ^ 63 \<Longrightarrow> (x :: u64) AND 0x4000000000000000 = 0 \<longleftrightarrow> unat x < 2 ^ 62"
proof -
  assume "unat x < 2 ^ 63"
  then have "x AND 0x8000000000000000 = 0" using masks(2) [of x] by blast
  moreover have "x AND 0xC000000000000000 = (x AND 0x8000000000000000) OR (x AND 0x4000000000000000)"
  proof -
    have "(0xC000000000000000 :: u64) = 0x8000000000000000 OR 0x4000000000000000" by simp
    then show ?thesis by (simp only: bit.conj_disj_distrib)
  qed
  moreover have "x AND 0xC000000000000000 = 0 \<longleftrightarrow> unat x < 2 ^ 62"
    using top_mask [of 62 x] by (simp add: mask_eq_exp_minus_1)
  ultimately show ?thesis by simp
qed

lemma unat_push_bit: "unat x * 2 ^ k < 2 ^ 64 \<Longrightarrow> unat (push_bit k x :: u64) = unat x * 2 ^ k"
proof -
  assume a: "unat x * 2 ^ k < 2 ^ 64"
  have "unat (push_bit k x) = take_bit 64 (push_bit k (unat x))"
    by (simp only: unsigned_push_bit_eq) simp
  also have "\<dots> = unat x * 2 ^ k"
    using a by (simp only: push_bit_eq_mult [of k "unat x"] take_bit_nat_eq_self)
  finally show ?thesis .
qed

text \<open>\<open>v'\<close> is \<open>v\<close> with its significand shifted left \<open>j\<close> bits, without loss.\<close>

definition shifted :: "nat \<Rightarrow> DiyFp \<Rightarrow> DiyFp \<Rightarrow> bool" where
  "shifted j v v' \<longleftrightarrow> unat (df v') = unat (df v) * 2 ^ j \<and> de v' = de v - int j"

lemma shifted_0 [simp]: "shifted 0 v v"
  by (simp add: shifted_def)

lemma shifted_trans: "shifted i u v \<Longrightarrow> shifted j v w \<Longrightarrow> shifted (i + j) u w"
  by (simp add: shifted_def power_add)

lemma shift_until_run:
  assumes m: "\<And>x :: u64. 0 < unat x \<Longrightarrow> unat x < 2 ^ h \<Longrightarrow> x AND m = 0 \<longleftrightarrow> unat x < 2 ^ t"
    and k: "t + k \<le> h" "h \<le> 64" "0 < k"
  shows "0 < unat (df v) \<Longrightarrow> unat (df v) < 2 ^ h \<Longrightarrow>
    \<exists>j v'. shift_until m k v = Some v' \<and> shifted j v v' \<and> 2 ^ t \<le> unat (df v') \<and> unat (df v') < 2 ^ h"
proof (induction "2 ^ h - unat (df v)" arbitrary: v rule: less_induct)
  case less
  show ?case
  proof (cases "unat (df v) < 2 ^ t")
    case False
    then have "shift_until m k v = Some v"
      using m less.prems by (simp add: shift_until.simps [of m k v])
    then show ?thesis using False less.prems by (intro exI [of _ 0] exI [of _ v]) auto
  next
    case True
    let ?v = "DiyFp (push_bit k (df v)) (de v - int k)"
    have "unat (df v) * 2 ^ k < 2 ^ t * 2 ^ k" using True by simp
    also have "\<dots> \<le> 2 ^ h" using k(1) by (simp flip: power_add)
    finally have lt: "unat (df v) * 2 ^ k < 2 ^ h" .
    also have "(2 :: nat) ^ h \<le> 2 ^ 64" using k(2) by (rule power_increasing) simp
    finally have s: "shifted k v ?v" by (simp add: shifted_def unat_push_bit)
    have "unat (df v) * 1 < unat (df v) * 2 ^ k"
      using less.prems(1) one_less_power [of "2 :: nat" k] k(3) by (intro mult_strict_left_mono) simp_all
    then have "2 ^ h - unat (df ?v) < 2 ^ h - unat (df v)"
      using s less.prems(2) by (intro diff_less_mono2) (simp_all add: shifted_def)
    then have "\<exists>j v'. shift_until m k ?v = Some v' \<and> shifted j ?v v' \<and>
        2 ^ t \<le> unat (df v') \<and> unat (df v') < 2 ^ h"
      using s lt less.prems by (intro less.hyps) (auto simp: shifted_def)
    then obtain j v' where r: "shift_until m k ?v = Some v'" "shifted j ?v v'"
      "2 ^ t \<le> unat (df v')" "unat (df v') < 2 ^ h" by blast
    have "shift_until m k v = Some v'"
      using True m less.prems r(1) by (simp add: shift_until.simps [of m k v])
    then show ?thesis using shifted_trans [OF s r(2)] r(3,4) by blast
  qed
qed

lemma diy_normalize_ok:
  assumes "0 < unat (df v)"
  shows "\<exists>j v'. diy_normalize v = Some v' \<and> shifted j v v' \<and> 2 ^ 63 \<le> unat (df v')"
proof -
  have "unat (df v) < 2 ^ 64" using unat_u64 [of "df v"] by simp
  then obtain i v1 where 1: "shift_until 0xFFC0000000000000 10 v = Some v1" "shifted i v v1"
    "2 ^ 54 \<le> unat (df v1)" "unat (df v1) < 2 ^ 64"
    using shift_until_run [of 64 "0xFFC0000000000000" 54 10 v] masks(1) assms by auto
  moreover obtain j v2 where 2: "shift_until 0x8000000000000000 1 v1 = Some v2" "shifted j v1 v2"
    "2 ^ 63 \<le> unat (df v2)"
    using shift_until_run [of 64 "0x8000000000000000" 63 1 v1] masks(2) 1 by auto
  ultimately show ?thesis
    using shifted_trans [OF 1(2) 2(2)] by (auto simp: diy_normalize_def)
qed

lemma diy_normalize_boundary_ok:
  assumes "0 < unat (df v)" "unat (df v) < 2 ^ 63"
  shows "\<exists>j v'. diy_normalize_boundary v = Some v' \<and> shifted j v v' \<and> 2 ^ 63 \<le> unat (df v')"
proof -
  obtain i v1 where 1: "shift_until 0x4000000000000000 1 v = Some v1" "shifted i v v1"
    "2 ^ 62 \<le> unat (df v1)" "unat (df v1) < 2 ^ 63"
    using shift_until_run [of 63 "0x4000000000000000" 62 1 v] mask_62 assms by auto
  let ?v = "DiyFp (push_bit 1 (df v1)) (de v1 - 1)"
  have s: "shifted 1 v1 ?v" using 1(4) unat_push_bit [of "df v1" 1] by (simp add: shifted_def)
  then have top: "2 ^ 63 \<le> unat (df ?v)" using 1(3) by (simp add: shifted_def)
  then have "shift_until 0x8000000000000000 1 ?v = Some ?v"
    using masks(2) [of "df ?v"] by (subst shift_until.simps) auto
  with 1 have "diy_normalize_boundary v = Some ?v"
    by (simp add: diy_normalize_boundary_def)
  then show ?thesis using shifted_trans [OF 1(2) s] top by blast
qed
end
