(* ===== verification/Elog_Render_Laws.thy ===== *)
theory Elog_Render_Laws
  imports Elog_Render
begin

text \<open>
  What the operations of \<open>Elog_Render\<close> do: they never touch a byte below the cursor (\<open>evolves\<close>),
  and with room left they append exactly their text (\<open>appends\<close>), or hand out borrowed bytes without
  touching the buffer (\<open>yields\<close> is either).
\<close>

section \<open>The vocabulary of the contract\<close>

text \<open>The bytes of a reference to borrowed memory.\<close>

definition ext_bytes :: "ptr \<Rightarrow> nat \<Rightarrow> byte list" where
  "ext_bytes p n = (case p of Ext bs \<Rightarrow> take n bs | _ \<Rightarrow> [])"

definition ext_ok :: "ptr \<Rightarrow> nat \<Rightarrow> bool" where
  "ext_ok p n = (case p of Ext bs \<Rightarrow> n \<le> length bs | Null \<Rightarrow> n = 0 | Scratch _ \<Rightarrow> False)"

definition join_str :: "string \<Rightarrow> string list \<Rightarrow> string" where
  "join_str sep ss = (case ss of [] \<Rightarrow> [] | s # ss' \<Rightarrow> s @ concat (map (\<lambda>t. sep @ t) ss'))"

definition pad_str :: "bool \<Rightarrow> u32 \<Rightarrow> char \<Rightarrow> string \<Rightarrow> string" where
  "pad_str left_align w c s =
     (let f = replicate (nat (sint w) - length s) c in if left_align then s @ f else f @ s)"

definition hex_byte :: "char \<Rightarrow> string" where
  "hex_byte c = [hexd (of_char c div 16), hexd (of_char c mod 16)]"

definition hexdump_str :: "byte list \<Rightarrow> bool \<Rightarrow> string" where
  "hexdump_str bs truncated = join_str '' '' (map hex_byte bs) @ (if truncated then '' ...'' else [])"

definition rok :: "renv \<Rightarrow> rbuf \<Rightarrow> bool" where
  "rok env b \<longleftrightarrow> rbuf_ok b \<and> (tid_cache b = 0 \<or> tid_cache b = gettid env)"

definition evolves :: "renv \<Rightarrow> rbuf \<Rightarrow> rbuf \<Rightarrow> bool" where
  "evolves env b b' \<longleftrightarrow> extends b b' \<and> (tid_cache b' = tid_cache b \<or> tid_cache b' = gettid env)"

definition appends :: "renv \<Rightarrow> string \<Rightarrow> rbuf \<Rightarrow> rbuf \<Rightarrow> bool" where
  "appends env s b b' \<longleftrightarrow>
     evolves env b b' \<and> pos b' = pos b + length s \<and> take (length s) (drop (pos b) (mem b')) = s"

definition yields :: "renv \<Rightarrow> string \<Rightarrow> rbuf \<Rightarrow> iov \<Rightarrow> rbuf \<Rightarrow> bool" where
  "yields env s b v b' \<longleftrightarrow>
     v = Iov (Scratch (pos b)) (length s) \<and> appends env s b b' \<or>
     b' = b \<and> ext_ok (iov_base v) (iov_len v) \<and> ext_bytes (iov_base v) (iov_len v) = s"

named_theorems evolve_intros \<open>operations that only write at and above the cursor\<close>

lemma evolves_refl [simp, intro]: "evolves env b b"
  by (simp add: evolves_def)

lemma evolves_trans [trans]: "evolves env b b' \<Longrightarrow> evolves env b' b'' \<Longrightarrow> evolves env b b''"
  unfolding evolves_def by (metis extends_trans)

lemma evolves_rok: "evolves env b b' \<Longrightarrow> rok env b \<Longrightarrow> rok env b'"
  by (auto simp: rok_def evolves_def extends_rbuf_ok)

lemma evolves_pos: "evolves env b b' \<Longrightarrow> pos b \<le> pos b'"
  by (simp add: evolves_def extends_def)

lemma evolves_length: "evolves env b b' \<Longrightarrow> length (mem b') = length (mem b)"
  by (simp add: evolves_def extends_def)

lemma rok_length [simp]: "rok env b \<Longrightarrow> length (mem b) = 4096"
  by (simp add: rok_def rbuf_ok_def kScratchSize_def)

lemma evolvesI:
  "length m = length (mem b) \<Longrightarrow> take (pos b) m = take (pos b) (mem b) \<Longrightarrow> pos b \<le> n \<Longrightarrow>
     evolves env b (b\<lparr>mem := m, pos := n\<rparr>)"
  by (simp add: evolves_def extends_def)

lemma evolves_mem:
  "length m = length (mem b) \<Longrightarrow> take (pos b) m = take (pos b) (mem b) \<Longrightarrow>
     evolves env b (b\<lparr>mem := m\<rparr>)"
  using evolvesI [of m b "pos b" env] by simp

lemma evolves_more: "evolves env b b' \<Longrightarrow> pos b' \<le> n \<Longrightarrow> evolves env b (b'\<lparr>pos := n\<rparr>)"
  by (auto simp: evolves_def extends_def)

lemma evolves_write_str:
  "s = [] \<or> pos b + length s \<le> length (mem b) \<Longrightarrow> evolves env b (write_str s b)"
  by (simp add: evolves_def extends_write_str) (simp add: write_str_def)

section \<open>Nothing below the cursor is written\<close>

lemma put_char_evolves [evolve_intros]: "put_char c b = Some b' \<Longrightarrow> evolves env b b'"
  by (auto simp: put_char_def split: if_splits intro!: evolvesI)

lemma put_str_evolves [evolve_intros]: "put_str s b = Some b' \<Longrightarrow> evolves env b b'"
  by (auto dest!: put_str_Some intro: evolves_write_str)

lemma put_iov_evolves [evolve_intros]: "put_iov s b = Some (v, b') \<Longrightarrow> evolves env b b'"
  by (auto simp: put_iov_Some intro: evolves_write_str)

lemma poke_evolves: "poke i c b = Some b' \<Longrightarrow> pos b \<le> i \<Longrightarrow> evolves env b b'"
  by (auto simp: poke_def split: if_splits intro!: evolves_mem)

lemma poke_pos: "poke i c b = Some b' \<Longrightarrow> pos b' = pos b"
  by (auto simp: poke_def split: if_splits)

lemma append_loop_evolves:
  "append_loop k i s b = Some b' \<Longrightarrow> evolves env b b' \<and> pos b' = pos b"
proof (induction k i s b rule: append_loop.induct)
  case (2 k i s b)
  then obtain c b1 where 1: "ptr_at (mem b) s i = Some c" "poke (pos b + i) c b = Some b1"
    "append_loop k (i + 1) s b1 = Some b'"
    by (auto simp: bind_eq_Some_conv)
  have "evolves env b1 b' \<and> pos b' = pos b1" by (rule 2(1) [OF 1])
  moreover have "evolves env b b1" by (rule poke_evolves [OF 1(2)]) simp
  ultimately show ?case using evolves_trans poke_pos [OF 1(2)] by metis
qed simp

lemma append_str_evolves [evolve_intros]: "append_str s n b = Some b' \<Longrightarrow> evolves env b b'"
  using append_loop_evolves [of _ 0 s b _ env]
  by (auto simp: append_str_def Let_def bind_eq_Some_conv split: if_splits intro!: evolves_more)

lemma append_lit_evolves [evolve_intros]: "append_lit s b = Some b' \<Longrightarrow> evolves env b b'"
  by (simp add: append_lit_def append_str_evolves)

lemma append_iov_evolves [evolve_intros]: "append_iov s b = Some b' \<Longrightarrow> evolves env b b'"
  by (simp add: append_iov_def append_str_evolves)

lemma splice_evolves:
  assumes "splice r = Some b'" "\<And>v b1. r = Some (v, b1) \<Longrightarrow> evolves env b b1"
  shows "evolves env b b'"
  using assms append_iov_evolves evolves_trans
  by (fastforce simp: splice_def bind_eq_Some_conv split: if_splits)

lemma overwrite_below: "n \<le> i \<Longrightarrow> i \<le> length ys \<Longrightarrow> take n (overwrite i xs ys) = take n ys"
  by simp

lemma c_snprintf_evolves [evolve_intros]: "c_snprintf s z b = Some (n, b') \<Longrightarrow> evolves env b b' \<and> pos b' = pos b"
  by (auto simp: c_snprintf_def Let_def split: if_splits intro!: evolves_mem length_overwrite)

lemma pad_loop_evolves [evolve_intros]: "pad_loop n c b = Some b' \<Longrightarrow> evolves env b b'"
  by (induction n c b rule: pad_loop.induct)
    (auto simp: bind_eq_Some_conv split: if_splits intro: evolves_trans put_char_evolves)

text \<open>Rewriting above \<open>a\<close>, the cursor and the cache unchanged.\<close>

definition above :: "nat \<Rightarrow> rbuf \<Rightarrow> rbuf \<Rightarrow> bool" where
  "above a b b' \<longleftrightarrow>
     length (mem b') = length (mem b) \<and> take a (mem b') = take a (mem b) \<and> pos b' = pos b \<and>
     tid_cache b' = tid_cache b"

lemma above_refl [simp]: "above a b b"
  by (simp add: above_def)

lemma above_trans: "above a b b' \<Longrightarrow> above a b' b'' \<Longrightarrow> above a b b''"
  by (simp add: above_def)

lemma poke_above: "poke i c b = Some b' \<Longrightarrow> a \<le> i \<Longrightarrow> above a b b'"
  by (auto simp: poke_def above_def split: if_splits)

lemma shift_loop_above: "shift_loop i start k b = Some b' \<Longrightarrow> above start b b'"
proof (induction i start k b rule: shift_loop.induct)
  case (2 i start k b)
  then obtain c b1 where 1: "ptr_at (mem b) (Scratch start) i = Some c"
    "poke (start + k + i) c b = Some b1" "shift_loop i start k b1 = Some b'"
    by (auto simp: bind_eq_Some_conv)
  have "above start b b1" by (rule poke_above [OF 1(2)]) simp
  then show ?case using 2(1) [OF 1] by (rule above_trans)
qed simp

lemma fill_loop_above: "fill_loop n i c b = Some b' \<Longrightarrow> a \<le> i \<Longrightarrow> above a b b'"
proof (induction n i c b rule: fill_loop.induct)
  case (2 n i c b)
  then obtain b1 where 1: "poke i c b = Some b1" "fill_loop n (i + 1) c b1 = Some b'"
    by (auto simp: bind_eq_Some_conv)
  have "above a b b1" by (rule poke_above [OF 1(1) 2(3)])
  moreover have "above a b1 b'" using 2(1) [OF 1] 2(3) by simp
  ultimately show ?case by (rule above_trans)
qed simp

lemma above_evolves: "evolves env b b1 \<Longrightarrow> above (pos b) b1 b2 \<Longrightarrow> pos b \<le> n \<Longrightarrow> evolves env b (b2\<lparr>pos := n\<rparr>)"
  by (auto simp: evolves_def extends_def above_def)

section \<open>Results are in place or borrowed\<close>

definition placed :: "renv \<Rightarrow> rbuf \<Rightarrow> iov \<Rightarrow> rbuf \<Rightarrow> bool" where
  "placed env b v b' \<longleftrightarrow>
     v = Iov (Scratch (pos b)) (pos b' - pos b) \<and> evolves env b b' \<or>
     b' = b \<and> ext_ok (iov_base v) (iov_len v)"

lemma placed_evolves: "placed env b v b' \<Longrightarrow> evolves env b b'"
  by (auto simp: placed_def)

lemma ext_ok_not_scratch: "ext_ok p n \<Longrightarrow> p \<noteq> Scratch a"
  by (auto simp: ext_ok_def)

lemma placed_direct: "placed env b v b' \<Longrightarrow> direct b v b'"
  by (auto simp: placed_def direct_def ext_ok_def)

lemma placed_in_range: "placed env b v b' \<Longrightarrow> in_range (pos b) (pos b') v"
  by (auto simp: placed_def in_range_def ext_ok_def evolves_def extends_def split: ptr.splits)

lemma yields_placed: "yields env s b v b' \<Longrightarrow> placed env b v b'"
  by (auto simp: yields_def placed_def appends_def)

lemma yields_bytes: "yields env s b v b' \<Longrightarrow> iov_bytes (mem b') v = s \<and> pos b' \<le> pos b + length s"
  by (auto simp: yields_def appends_def iov_bytes_def ext_bytes_def ext_ok_def split: ptr.splits)

lemma placed_here: "evolves env b b' \<Longrightarrow> placed env b (scratch_iov (pos b) b') b'"
  by (simp add: placed_def scratch_iov_def)

lemma put_iov_placed: "put_iov s b = Some (v, b') \<Longrightarrow> placed env b v b'"
  using put_iov_evolves [of s b v b' env] by (auto simp: placed_def put_iov_Some)

lemma oct_put: "\<exists>s. render_oct v b = put_iov s b"
  by (auto simp: render_oct_def Let_def)

text \<open>One rule per renderer of a single value.\<close>

named_theorems placed_intros \<open>where the result of a renderer is\<close>

lemma unsigned_placed [placed_intros]: "render_unsigned x b = Some (v, b') \<Longrightarrow> placed env b v b'"
  by (simp add: render_unsigned_def put_iov_placed)

lemma signed_placed [placed_intros]: "render_signed x b = Some (v, b') \<Longrightarrow> placed env b v b'"
  by (simp add: render_signed_def put_iov_placed)

lemma hex_placed [placed_intros]: "render_hex x b = Some (v, b') \<Longrightarrow> placed env b v b'"
  by (simp add: render_hex_put put_iov_placed)

lemma bin_placed [placed_intros]: "render_bin x b = Some (v, b') \<Longrightarrow> placed env b v b'"
  by (simp add: render_bin_put put_iov_placed)

lemma pointer_placed [placed_intros]: "render_pointer x b = Some (v, b') \<Longrightarrow> placed env b v b'"
  by (simp add: render_pointer_put put_iov_placed)

lemma oct_placed [placed_intros]: "render_oct x b = Some (v, b') \<Longrightarrow> placed env b v b'"
  using oct_put [of x b] put_iov_placed by metis

lemma double_placed [placed_intros]: "render_double x b = Some (v, b') \<Longrightarrow> placed env b v b'"
  by (auto simp: render_double_def bind_eq_Some_conv put_iov_placed placed_def split: if_splits
      dest: put_iov_placed [of _ _ _ _ env])

lemma snprintf_placed [placed_intros]: "render_snprintf s b = Some (v, b') \<Longrightarrow> placed env b v b'"
  using c_snprintf_evolves [of s _ b _ _ env]
  by (auto simp: render_snprintf_def Let_def bind_eq_Some_conv placed_def intro!: evolves_more)

lemma time_placed [placed_intros]: "render_time env s b = Some (v, b') \<Longrightarrow> placed env b v b'"
  using c_snprintf_evolves [of "time_text env s" _ b _ _ env]
  by (auto simp: render_time_def Let_def bind_eq_Some_conv placed_def intro!: evolves_more)

lemma bool_placed [placed_intros]: "render_bool x b = Some (v, b') \<Longrightarrow> placed env b v b'"
  by (auto simp: render_bool_def placed_def ext_ok_def split: if_splits)

lemma char_placed [placed_intros]: "render_char x b = Some (v, b') \<Longrightarrow> placed env b v b'"
  using put_char_evolves [of x b _ env]
  by (auto simp: render_char_def placed_def bind_eq_Some_conv put_char_def split: if_splits)

lemma cstr_placed [placed_intros]: "render_cstr x b = Some (v, b') \<Longrightarrow> placed env b v b'"
  by (auto simp: render_cstr_def placed_def ext_ok_def split: option.splits)

lemma ref_placed [placed_intros]:
  "render_ref x b = Some (v, b') \<Longrightarrow> ext_ok (sr_data x) (sr_size x) \<Longrightarrow> placed env b v b'"
  by (auto simp: render_ref_def placed_def)

lemma literal_placed [placed_intros]: "render_literal x b = Some (v, b') \<Longrightarrow> placed env b v b'"
  by (auto simp: render_literal_def Let_def placed_def ext_ok_def)

lemma nullptr_placed [placed_intros]: "render_nullptr b = Some (v, b') \<Longrightarrow> placed env b v b'"
  by (auto simp: render_nullptr_def placed_def ext_ok_def)

lemma thread_id_placed [placed_intros]:
  assumes "render_thread_id env t b = Some (v, b')"
  shows "placed env b v b'"
proof (cases "t = this_thread env \<and> tid_cache b = 0")
  case True
  then have "render_unsigned (gettid env) (b\<lparr>tid_cache := gettid env\<rparr>) = Some (v, b')"
    using assms by (simp add: render_thread_id_def)
  then show ?thesis
    by (auto simp: render_unsigned_def put_iov_Some placed_def evolves_def extends_def write_str_def)
next
  case False
  then show ?thesis
    using assms unsigned_placed by (auto simp: render_thread_id_def split: if_splits)
qed

lemma put_char_pos: "put_char c b = Some b' \<Longrightarrow> pos b' = pos b + 1"
  by (auto simp: put_char_def split: if_splits)

lemma quoted_placed [placed_intros]:
  assumes r: "render_quoted r b = Some (v, b')"
  shows "placed env b v b'"
proof (cases "pos b + sr_size r + 2 > kScratchSize")
  case True
  then obtain b1 where 1: "put_char (CHR 0x22) b = Some b1" "put_char (CHR 0x22) b1 = Some b'"
    "v = Iov (Scratch (pos b)) 2"
    using r by (auto simp: render_quoted_def bind_eq_Some_conv)
  have "evolves env b b'"
    using put_char_evolves [OF 1(1)] put_char_evolves [OF 1(2)] by (rule evolves_trans)
  moreover have "pos b' = pos b + 2" using put_char_pos [OF 1(1)] put_char_pos [OF 1(2)] by simp
  ultimately show ?thesis using 1(3) by (simp add: placed_def)
next
  case False
  then obtain b1 s b2 where 1: "put_char (CHR 0x22) b = Some b1" "put_str s b1 = Some b2"
    "put_char (CHR 0x22) b2 = Some b'" "v = scratch_iov (pos b) b'"
    using r by (auto simp: render_quoted_def bind_eq_Some_conv)
  have "evolves env b b'"
    using put_char_evolves [OF 1(1)] put_str_evolves [OF 1(2)] put_char_evolves [OF 1(3)]
    by (blast intro: evolves_trans)
  then show ?thesis using 1(4) placed_here by simp
qed

lemma hexdump_loop_evolves: "hexdump_loop k i p b = Some b' \<Longrightarrow> evolves env b b'"
proof (induction k arbitrary: i b)
  case (Suc k)
  show ?case
  proof (cases "bound_avail (pos b) < 3")
    case False
    with Suc.prems obtain b1 c b2 c' b3 where
      1: "(if i > 0 then put_char (CHR '' '') b else Some b) = Some b1"
      "put_char c b1 = Some b2" "put_char c' b2 = Some b3" "hexdump_loop k (i + 1) p b3 = Some b'"
      by (auto simp: bind_eq_Some_conv)
    have "evolves env b b1" using 1(1) put_char_evolves by (auto split: if_splits)
    then show ?thesis
      using put_char_evolves [OF 1(2)] put_char_evolves [OF 1(3)] Suc.IH [OF 1(4)]
      by (blast intro: evolves_trans)
  qed (use Suc in simp)
qed simp

lemma suffix_loop_evolves: "suffix_loop s b = Some b' \<Longrightarrow> evolves env b b'"
  by (induction s b rule: suffix_loop.induct)
    (auto simp: bind_eq_Some_conv split: if_splits intro: evolves_trans put_char_evolves)

lemma hexdump_placed [placed_intros]:
  assumes "render_hexdump p n b = Some (v, b')"
  shows "placed env b v b'"
proof -
  obtain k b1 where 1: "hexdump_loop k 0 p b = Some b1"
    "(if n > 64 then suffix_loop '' ...'' b1 else Some b1) = Some b'" "v = scratch_iov (pos b) b'"
    using assms by (auto simp: render_hexdump_def Let_def bind_eq_Some_conv)
  have "evolves env b1 b'"
    using 1(2) suffix_loop_evolves by (auto split: if_splits simp del: suffix_loop.simps)
  with hexdump_loop_evolves [OF 1(1)] have "evolves env b b'" by (rule evolves_trans)
  with 1(3) show ?thesis by (simp add: placed_here)
qed

lemma escaped_loop_evolves: "escaped_loop k i p b = Some b' \<Longrightarrow> evolves env b b'"
proof (induction k arbitrary: i b)
  case (Suc k)
  then obtain c where c: "ptr_at (mem b) p i = Some c" by (auto simp: bind_eq_Some_conv)
  show ?case
  proof (cases "bound_avail (pos b) = 0")
    case False
    with Suc.prems c obtain b1 where
      1: "(if bound_avail (pos b) \<ge> length (escape c) then put_str (escape c) b else Some b) = Some b1"
      "escaped_loop k (i + 1) p b1 = Some b'"
      by (auto simp: bind_eq_Some_conv)
    have "evolves env b b1" using 1(1) put_str_evolves by (auto split: if_splits)
    then show ?thesis using Suc.IH [OF 1(2)] by (rule evolves_trans)
  qed (use Suc.prems c in simp)
qed simp

lemma escaped_placed [placed_intros]: "render_escaped r b = Some (v, b') \<Longrightarrow> placed env b v b'"
  using escaped_loop_evolves [of "sr_size r" 0 "sr_data r" b _ env]
  by (auto simp: render_escaped_def bind_eq_Some_conv intro!: placed_here)

text \<open>Padding, given where the padded value was put.\<close>

lemma padded_placed:
  assumes r: "render_padded inner (pos b) w c la = Some (v, b')"
    and inner: "\<And>u b1. inner = Some (u, b1) \<Longrightarrow> placed env b u b1"
  shows "placed env b v b'"
proof -
  obtain u b1 where u: "inner = Some (u, b1)" using r by (auto simp: render_padded_def bind_eq_Some_conv)
  have pl: "placed env b u b1" by (rule inner [OF u])
  have ev: "evolves env b b1" by (rule placed_evolves [OF pl])
  have le: "pos b \<le> pos b1" by (rule evolves_pos [OF ev])
  let ?n = "nat (sint w) - iov_len u"
  show ?thesis
  proof (cases "iov_base u = Scratch (pos b)")
    case True
    show ?thesis
    proof (cases "sint w \<le> 0 \<or> nat (sint w) \<le> iov_len u")
      case True': True
      then have "v = u" "b' = b1" using r True by (auto simp: render_padded_def u)
      then show ?thesis using pl by simp
    next
      case False
      show ?thesis
      proof (cases la)
        case True': True
        then have "pad_loop ?n c b1 = Some b'" "v = scratch_iov (pos b) b'"
          using r True False by (auto simp: render_padded_def u bind_eq_Some_conv)
        then show ?thesis using ev pad_loop_evolves evolves_trans placed_here by metis
      next
        case False': False
        define k where "k = (if pos b1 + ?n > 4096 then size_sub 4096 (pos b1) else ?n)"
        from r True False False' obtain b2 b3 where
          2: "shift_loop (pos b1 - pos b) (pos b) k b1 = Some b2" "fill_loop k (pos b) c b2 = Some b3"
          "b' = b3\<lparr>pos := pos b1 + k\<rparr>" "v = scratch_iov (pos b) b'"
          by (auto simp: render_padded_def u bind_eq_Some_conv k_def Let_def)
        have "above (pos b) b1 b3"
          using shift_loop_above [OF 2(1)] fill_loop_above [OF 2(2) order_refl] by (rule above_trans)
        then have "evolves env b b'" unfolding 2(3) using ev le by (intro above_evolves) auto
        then show ?thesis using 2(4) placed_here by simp
      qed
    qed
  next
    case False
    with pl have b1: "b1 = b" "ext_ok (iov_base u) (iov_len u)" by (auto simp: placed_def)
    show ?thesis
    proof (cases "sint w \<le> 0 \<or> nat (sint w) \<le> iov_len u")
      case True
      then have "append_str (iov_base u) (iov_len u) b = Some b'" "v = scratch_iov (pos b) b'"
        using r False b1 by (auto simp: render_padded_def u bind_eq_Some_conv)
      then show ?thesis using append_str_evolves placed_here by metis
    next
      case F2: False
      from r False F2 b1 obtain b2 where 2:
        "(if la then do { b1 \<leftarrow> append_str (iov_base u) (iov_len u) b; pad_loop ?n c b1 }
          else do { b1 \<leftarrow> pad_loop ?n c b; append_str (iov_base u) (iov_len u) b1 }) = Some b2"
        "b' = b2" "v = scratch_iov (pos b) b2"
        by (auto simp: render_padded_def u bind_eq_Some_conv Let_def split: if_splits)
      have "evolves env b b2"
        using 2(1) by (auto simp: bind_eq_Some_conv split: if_splits
            intro: evolves_trans pad_loop_evolves append_str_evolves)
      then show ?thesis using 2 placed_here by simp
    qed
  qed
qed

section \<open>With room left, the text is what it should be\<close>

definition adds :: "renv \<Rightarrow> string \<Rightarrow> rbuf \<Rightarrow> rbuf option \<Rightarrow> bool" where
  "adds env s b r \<longleftrightarrow> (\<exists>b'. r = Some b' \<and> appends env s b b')"

definition delivers :: "renv \<Rightarrow> string \<Rightarrow> rbuf \<Rightarrow> (iov \<times> rbuf) option \<Rightarrow> bool" where
  "delivers env s b r \<longleftrightarrow> (\<exists>v b'. r = Some (v, b') \<and> yields env s b v b')"

lemma appends_refl [simp]: "appends env [] b b"
  by (simp add: appends_def)

lemma appends_pos: "appends env s b b' \<Longrightarrow> pos b' = pos b + length s"
  by (simp add: appends_def)

lemma appends_rok: "appends env s b b' \<Longrightarrow> rok env b \<Longrightarrow> rok env b'"
  using evolves_rok by (auto simp: appends_def)

lemma appends_trans:
  assumes 1: "appends env s b b1" and 2: "appends env t b1 b2"
  shows "appends env (s @ t) b b2"
proof -
  have "take (length s) (drop (pos b) (mem b2)) = take (length s) (drop (pos b) (mem b1))"
    using 1 2 by (intro region_eqI [where i = "pos b1"]) (simp_all add: appends_def evolves_def extends_def)
  then have "take (length s + length t) (drop (pos b) (mem b2)) = s @ t"
    using 1 2 by (simp add: take_add appends_def add.commute)
  then show ?thesis using 1 2 evolves_trans by (auto simp: appends_def)
qed

lemma appends_write:
  "pos b + length s \<le> length (mem b) \<Longrightarrow> appends env s b (write_str s b)"
  by (simp add: appends_def evolves_write_str)

lemma adds_bind:
  assumes "adds env s b r" "\<And>b1. appends env s b b1 \<Longrightarrow> adds env t b1 (f b1)"
  shows "adds env (s @ t) b (r \<bind> f)"
  using assms appends_trans by (fastforce simp: adds_def)

text \<open>A container is a chain of \<open>adds\<close> steps closed by \<open>Iov{scratch + start, pos - start}\<close>.\<close>

lemma delivers_step:
  assumes "appends env s b b1" "adds env t b1 r"
    "\<And>b2. appends env (s @ t) b b2 \<Longrightarrow> delivers env u b (f b2)"
  shows "delivers env u b (r \<bind> f)"
  using assms appends_trans by (fastforce simp: adds_def)

lemma delivers_close:
  "appends env s b b1 \<Longrightarrow> s = u \<Longrightarrow> delivers env u b (Some (scratch_iov (pos b) b1, b1))"
  by (auto simp: delivers_def yields_def scratch_iov_def appends_def)

lemma delivers_put:
  "rok env b \<Longrightarrow> pos b + length s \<le> 4096 \<Longrightarrow> delivers env s b (put_iov s b)"
  using appends_write [of b s env]
  by (auto simp: delivers_def yields_def put_iov_def put_str_fits scratch_iov_def)

lemma delivers_borrowed:
  "ext_ok p n \<Longrightarrow> ext_bytes p n = s \<Longrightarrow> delivers env s b (Some (Iov p n, b))"
  by (simp add: delivers_def yields_def)

lemma adds_put: "rok env b \<Longrightarrow> pos b + length s \<le> 4096 \<Longrightarrow> adds env s b (put_str s b)"
  using appends_write [of b s env] by (simp add: adds_def put_str_fits)

lemma put_char_put: "put_char c b = put_str [c] b"
  by (cases "put_char c b") auto

lemma append_loop_ext:
  "pos b + i + k \<le> length (mem b) \<Longrightarrow> i + k \<le> length bs \<Longrightarrow>
     append_loop k i (Ext bs) b =
       Some (b\<lparr>mem := overwrite (pos b + i) (take k (drop i bs)) (mem b)\<rparr>)"
proof (induction k arbitrary: i b)
  case (Suc k)
  let ?b = "b\<lparr>mem := (mem b)[pos b + i := bs ! i]\<rparr>"
  have "append_loop k (i + 1) (Ext bs) ?b =
      Some (?b\<lparr>mem := overwrite (pos b + i + 1) (take k (drop (i + 1) bs)) (mem ?b)\<rparr>)"
    using Suc by (subst Suc.IH) auto
  moreover have "mem ?b = overwrite (pos b + i) [bs ! i] (mem b)"
    using Suc.prems by (simp add: overwrite_single)
  moreover have "take (Suc k) (drop i bs) = [bs ! i] @ take k (drop (i + 1) bs)"
    using Suc.prems by (simp add: Cons_nth_drop_Suc [symmetric])
  ultimately show ?case
    using Suc.prems overwrite_overwrite [of "pos b + i" "[bs ! i]" "mem b" "take k (drop (i + 1) bs)"]
    by (simp add: ptr_at_def poke_def)
qed simp

lemma append_str_ext:
  assumes "rok env b" "ext_ok p n" "pos b + n \<le> 4096"
  shows "append_str p n b = Some (write_str (ext_bytes p n) b)"
proof (cases p)
  case (Ext bs)
  then show ?thesis
    using assms append_loop_ext [of b 0 n bs]
    by (simp add: append_str_def Let_def write_str_def ext_ok_def ext_bytes_def)
qed (use assms in \<open>auto simp: append_str_def ext_ok_def ext_bytes_def write_str_def\<close>)

lemma length_ext_bytes: "ext_ok p n \<Longrightarrow> length (ext_bytes p n) = n"
  by (auto simp: ext_ok_def ext_bytes_def split: ptr.splits)

lemma adds_append_str:
  "rok env b \<Longrightarrow> ext_ok p n \<Longrightarrow> pos b + n \<le> 4096 \<Longrightarrow> adds env (ext_bytes p n) b (append_str p n b)"
  by (simp add: adds_def append_str_ext appends_write length_ext_bytes)

lemma adds_append_lit:
  "rok env b \<Longrightarrow> pos b + length s \<le> 4096 \<Longrightarrow> adds env s b (append_lit s b)"
  using adds_append_str [of env b "Ext s" "length s"]
  by (simp add: append_lit_def ext_ok_def ext_bytes_def)

text \<open>Whatever a renderer hands out, \<open>splice\<close> makes it the next bytes of the container.\<close>

lemma adds_splice:
  assumes "delivers env s b r" "rok env b" "pos b + length s \<le> 4096"
  shows "adds env s b (splice r)"
proof -
  obtain v b1 where r: "r = Some (v, b1)" "yields env s b v b1"
    using assms(1) by (auto simp: delivers_def)
  show ?thesis
  proof (cases "v = Iov (Scratch (pos b)) (length s) \<and> appends env s b b1")
    case True
    with appends_pos [of env s b b1] have "pos b1 = pos b + length s" by blast
    with True show ?thesis by (simp add: r splice_def adds_def size_sub_def)
  next
    case False
    with r(2) have b1: "b1 = b" "ext_ok (iov_base v) (iov_len v)" "ext_bytes (iov_base v) (iov_len v) = s"
      by (auto simp: yields_def)
    then have "splice r = append_str (iov_base v) (iov_len v) b"
      by (auto simp: r splice_def append_iov_def ext_ok_def split: ptr.splits)
    moreover have "iov_len v = length s" using length_ext_bytes [OF b1(2)] b1(3) by simp
    ultimately show ?thesis using adds_append_str [OF assms(2) b1(2)] assms(3) b1(3) by simp
  qed
qed

lemma pad_loop_put:
  "rok env b \<Longrightarrow> pos b + n \<le> 4096 \<Longrightarrow> pad_loop n c b = Some (write_str (replicate n c) b)"
proof (induction n arbitrary: b)
  case (Suc n)
  have "put_char c b = Some (write_str [c] b)"
    using Suc.prems by (simp add: put_char_put put_str_fits del: put_str.simps)
  moreover have "rok env (write_str [c] b)"
    using Suc.prems by (intro evolves_rok [OF evolves_write_str]) auto
  ultimately show ?case
    using Suc.IH [of "write_str [c] b"] Suc.prems write_str_append [of b "[c]" "replicate n c"] by simp
qed simp

lemma adds_pad_loop:
  "rok env b \<Longrightarrow> pos b + n \<le> 4096 \<Longrightarrow> adds env (replicate n c) b (pad_loop n c b)"
  by (simp add: adds_def pad_loop_put appends_write)

section \<open>Single values\<close>

named_theorems delivered \<open>the renderers of single values deliver their text\<close>

lemma delivers_unsigned [delivered]:
  "rok env b \<Longrightarrow> pos b + length (radix_str 10 (unat v)) \<le> 4096 \<Longrightarrow>
     delivers env (radix_str 10 (unat v)) b (render_unsigned v b)"
  by (simp add: render_unsigned_def delivers_put)

lemma delivers_signed [delivered]:
  "rok env b \<Longrightarrow> pos b + length (int_str (sint v)) \<le> 4096 \<Longrightarrow>
     delivers env (int_str (sint v)) b (render_signed v b)"
  by (simp add: render_signed_def delivers_put)

lemma delivers_hex [delivered]:
  "rok env b \<Longrightarrow> pos b + length (radix_str 16 (unat v)) \<le> 4096 \<Longrightarrow>
     delivers env (radix_str 16 (unat v)) b (render_hex v b)"
  by (simp add: render_hex_put delivers_put)

lemma delivers_bin [delivered]:
  "rok env b \<Longrightarrow> pos b + length (radix_str 2 (unat v)) \<le> 4096 \<Longrightarrow>
     delivers env (radix_str 2 (unat v)) b (render_bin v b)"
  by (simp add: render_bin_put delivers_put)

lemma delivers_pointer [delivered]:
  "rok env b \<Longrightarrow> pos b + length (''0x'' @ radix_str 16 (unat v)) \<le> 4096 \<Longrightarrow>
     delivers env (''0x'' @ radix_str 16 (unat v)) b (render_pointer v b)"
  by (simp only: render_pointer_put delivers_put)

lemma delivers_oct [delivered]:
  "rok env b \<Longrightarrow> pos b + length (radix_str 8 (unat v)) \<le> 4096 \<Longrightarrow>
     delivers env (radix_str 8 (unat v)) b (render_oct v b)"
  using delivers_put [of env b "radix_str 8 (unat v)"]
  by (auto simp: render_oct_def Let_def bound_avail_def)

lemma delivers_double [delivered]:
  "rok env b \<Longrightarrow> format_double v = Some s \<Longrightarrow> length s \<le> 32 \<Longrightarrow> pos b + 32 \<le> 4096 \<Longrightarrow>
     delivers env s b (render_double v b)"
  by (auto simp: render_double_def size_sub_def kScratchSize_def delivers_put)

lemma appends_snprintf:
  assumes "rok env b" "pos b + length s + 1 \<le> 4096" "length s \<le> INT_MAX"
  shows "\<exists>b1. c_snprintf s (size_sub kScratchSize (pos b)) b = Some (int (length s), b1) \<and>
    pos b1 = pos b \<and> appends env s b (b1\<lparr>pos := pos b + length s\<rparr>)"
proof -
  let ?out = "s @ [CHR 0x00]"
  let ?b1 = "b\<lparr>mem := overwrite (pos b) ?out (mem b)\<rparr>"
  have "take (size_sub kScratchSize (pos b) - 1) s = s"
    using assms(2) by (simp add: size_sub_def kScratchSize_def)
  then have "c_snprintf s (size_sub kScratchSize (pos b)) b = Some (int (length s), ?b1)"
    using assms by (auto simp: c_snprintf_def Let_def size_sub_def kScratchSize_def)
  moreover have "evolves env b (b\<lparr>mem := overwrite (pos b) ?out (mem b), pos := pos b + length s\<rparr>)"
    using assms by (intro evolvesI) simp_all
  moreover have "take (length s) (drop (pos b) (overwrite (pos b) ?out (mem b))) = s"
    using assms by (simp add: overwrite_def)
  ultimately show ?thesis by (simp add: appends_def)
qed

lemma delivers_snprintf [delivered]:
  assumes "rok env b" "pos b + length s + 1 \<le> 4096" "length s \<le> INT_MAX"
  shows "delivers env s b (render_snprintf s b)"
  using appends_snprintf [OF assms] assms(2)
  by (auto simp: render_snprintf_def Let_def delivers_def yields_def size_sub_def kScratchSize_def)

lemma delivers_time [delivered]:
  assumes "rok env b" "pos b + length (time_text env v) + 1 \<le> 4096" "length (time_text env v) \<le> INT_MAX"
  shows "delivers env (time_text env v) b (render_time env v b)"
  using appends_snprintf [OF assms]
  by (auto simp: render_time_def Let_def delivers_def yields_def)

lemma delivers_bool [delivered]: "delivers env (if v then ''true'' else ''false'') b (render_bool v b)"
  by (simp add: render_bool_def delivers_borrowed ext_ok_def ext_bytes_def)

lemma put_char_fits: "pos b < length (mem b) \<Longrightarrow> put_char c b = Some (write_str [c] b)"
  by (simp add: put_char_def write_str_def overwrite_single)

lemma delivers_char [delivered]: "rok env b \<Longrightarrow> pos b + 1 \<le> 4096 \<Longrightarrow> delivers env [v] b (render_char v b)"
  using appends_write [of b "[v]" env]
  by (simp add: render_char_def put_char_fits delivers_def yields_def)

lemma delivers_cstr [delivered]:
  "delivers env (case v of None \<Rightarrow> ''(null)'' | Some s \<Rightarrow> s) b (render_cstr v b)"
  by (simp add: render_cstr_def delivers_borrowed ext_ok_def ext_bytes_def split: option.split)

lemma delivers_ref [delivered]:
  "ext_ok (sr_data r) (sr_size r) \<Longrightarrow> delivers env (ext_bytes (sr_data r) (sr_size r)) b (render_ref r b)"
  by (simp add: render_ref_def delivers_borrowed)

lemma delivers_literal [delivered]:
  "delivers env (if v \<noteq> [] \<and> last v = CHR 0x00 then butlast v else v) b (render_literal v b)"
  by (auto simp: render_literal_def Let_def ext_ok_def ext_bytes_def last_conv_nth butlast_conv_take
      intro!: delivers_borrowed)

lemma delivers_nullptr [delivered]: "delivers env ''nullptr'' b (render_nullptr b)"
  by (simp add: render_nullptr_def delivers_borrowed ext_ok_def ext_bytes_def)

lemma delivers_thread_id [delivered]:
  assumes "rok env b" 
    "pos b + length (radix_str 10 (unat (if t = this_thread env then gettid env else hash_tid env t))) \<le> 4096"
  shows "delivers env (radix_str 10 (unat (if t = this_thread env then gettid env else hash_tid env t))) b
    (render_thread_id env t b)"
proof (cases "t = this_thread env \<and> tid_cache b = 0")
  case True
  let ?b = "b\<lparr>tid_cache := gettid env\<rparr>"
  have "rok env ?b" using assms(1) by (simp add: rok_def rbuf_ok_def)
  from delivers_unsigned [OF this, of "gettid env"] obtain v b' where
    d: "render_unsigned (gettid env) ?b = Some (v, b')"
    "yields env (radix_str 10 (unat (gettid env))) ?b v b'"
    using assms(2) True by (auto simp: delivers_def)
  then have "yields env (radix_str 10 (unat (gettid env))) b v b'"
    by (auto simp: yields_def appends_def evolves_def extends_def render_unsigned_def put_iov_Some)
  with True d(1) show ?thesis by (auto simp: render_thread_id_def delivers_def)
next
  case False
  then show ?thesis
    using assms delivers_unsigned [of env b] by (auto simp: render_thread_id_def rok_def)
qed

lemma read_range_ext: "ext_ok p n \<Longrightarrow> read_range m p n = Some (ext_bytes p n)"
  by (auto simp: read_range_def ext_ok_def ext_bytes_def split: ptr.splits)

lemma ptr_at_ext: "ext_ok p n \<Longrightarrow> i < n \<Longrightarrow> ptr_at m p i = Some (ext_bytes p n ! i)"
  by (auto simp: ptr_at_def ext_ok_def ext_bytes_def split: ptr.splits)

lemma rok_write: "rok env b \<Longrightarrow> pos b + length s \<le> 4096 \<Longrightarrow> rok env (write_str s b)"
  by (rule evolves_rok [OF evolves_write_str]) auto

lemma delivers_quoted [delivered]:
  assumes ok: "rok env b" "ext_ok (sr_data r) (sr_size r)" and fit: "pos b + sr_size r + 2 \<le> 4096"
  shows "delivers env ([CHR 0x22] @ ext_bytes (sr_data r) (sr_size r) @ [CHR 0x22]) b (render_quoted r b)"
proof -
  let ?s = "ext_bytes (sr_data r) (sr_size r)"
  let ?b1 = "write_str [CHR 0x22] b" and ?b2 = "write_str ([CHR 0x22] @ ?s) b"
  let ?b3 = "write_str ([CHR 0x22] @ ?s @ [CHR 0x22]) b"
  note len = length_ext_bytes [OF ok(2)]
  have "put_char (CHR 0x22) b = Some ?b1" "put_str ?s ?b1 = Some ?b2" "put_char (CHR 0x22) ?b2 = Some ?b3"
    using ok fit len write_str_append [of b "[CHR 0x22]" ?s]
      write_str_append [of b "[CHR 0x22] @ ?s" "[CHR 0x22]"]
    by (simp_all add: put_char_fits put_str_fits)
  then have "render_quoted r b = Some (scratch_iov (pos b) ?b3, ?b3)"
    using fit ok(2) by (simp add: render_quoted_def kScratchSize_def read_range_ext)
  moreover have "appends env ([CHR 0x22] @ ?s @ [CHR 0x22]) b ?b3"
    using ok fit len by (intro appends_write) simp
  ultimately show ?thesis using delivers_close by simp
qed

lemma length_escape: "0 < length (escape c)" "length (escape c) \<le> 4"
  by (auto simp: escape_def Let_def)

lemma escaped_loop_ext:
  assumes "ext_ok p n" "rok env b" "i + k = n"
    "pos b + length (concat (map escape (drop i (ext_bytes p n)))) \<le> 4096"
  shows "escaped_loop k i p b = Some (write_str (concat (map escape (drop i (ext_bytes p n)))) b)"
  using assms
proof (induction k arbitrary: i b)
  case 0
  then show ?case by (simp add: length_ext_bytes)
next
  case (Suc k)
  let ?bs = "ext_bytes p n"
  have lt: "i < length ?bs" using Suc.prems length_ext_bytes by simp
  then have dr: "drop i ?bs = ?bs ! i # drop (i + 1) ?bs" by (simp add: Cons_nth_drop_Suc)
  let ?e = "escape (?bs ! i)" and ?rest = "concat (map escape (drop (i + 1) ?bs))"
  have fit: "pos b + length ?e + length ?rest \<le> 4096" using Suc.prems(4) by (simp add: dr)
  have av: "bound_avail (pos b) = 4096 - pos b" "length ?e \<le> 4096 - pos b" "4096 - pos b \<noteq> 0"
    using fit length_escape [of "?bs ! i"] by (auto simp: bound_avail_def simp del: length_greater_0_conv)
  have "put_str ?e b = Some (write_str ?e b)" using fit Suc.prems(2) by (simp add: put_str_fits)
  moreover have "escaped_loop k (i + 1) p (write_str ?e b) = Some (write_str ?rest (write_str ?e b))"
    using Suc.prems fit by (intro Suc.IH) (auto intro: rok_write)
  moreover have "ptr_at (mem b) p i = Some (?bs ! i)" using Suc.prems by (intro ptr_at_ext) auto
  ultimately show ?case
    using av fit Suc.prems(2) by (simp add: dr write_str_append)
qed

lemma delivers_escaped [delivered]:
  assumes "rok env b" "ext_ok (sr_data r) (sr_size r)"
    "pos b + length (concat (map escape (ext_bytes (sr_data r) (sr_size r)))) \<le> 4096"
  shows "delivers env (concat (map escape (ext_bytes (sr_data r) (sr_size r)))) b (render_escaped r b)"
  using escaped_loop_ext [OF assms(2,1), of 0 "sr_size r"] assms
    delivers_close [OF appends_write refl, of b "concat (map escape (ext_bytes (sr_data r) (sr_size r)))" env]
  by (simp add: render_escaped_def)

lemma hexdump_loop_ext:
  assumes "ext_ok p n" "rok env b" "i + k = n" "0 < i"
    "pos b + length (concat (map (\<lambda>c. '' '' @ hex_byte c) (drop i (ext_bytes p n)))) \<le> 4096"
  shows "hexdump_loop k i p b =
    Some (write_str (concat (map (\<lambda>c. '' '' @ hex_byte c) (drop i (ext_bytes p n)))) b)"
  using assms
proof (induction k arbitrary: i b)
  case 0
  then show ?case by (simp add: length_ext_bytes)
next
  case (Suc k)
  let ?bs = "ext_bytes p n"
  have lt: "i < length ?bs" using Suc.prems length_ext_bytes by simp
  then have dr: "drop i ?bs = ?bs ! i # drop (i + 1) ?bs" by (simp add: Cons_nth_drop_Suc)
  let ?h = "hexd (of_char (?bs ! i) div 16)" and ?l = "hexd (of_char (?bs ! i) mod 16)"
  let ?rest = "concat (map (\<lambda>c. '' '' @ hex_byte c) (drop (i + 1) ?bs))"
  have fit: "pos b + 3 + length ?rest \<le> 4096" using Suc.prems(5) by (simp add: dr hex_byte_def)
  let ?b1 = "write_str '' '' b" and ?b2 = "write_str ['' '' ! 0, ?h] b" and ?b3 = "write_str ['' '' ! 0, ?h, ?l] b"
  have w: "put_char (CHR '' '') b = Some ?b1" "put_char ?h ?b1 = Some ?b2" "put_char ?l ?b2 = Some ?b3"
    using fit Suc.prems(2) write_str_append [of b "'' ''" "[?h]"] write_str_append [of b "['' '' ! 0, ?h]" "[?l]"]
    by (simp_all add: put_char_fits)
  have "hexdump_loop k (i + 1) p ?b3 = Some (write_str ?rest ?b3)"
    using Suc.prems fit by (intro Suc.IH) (auto intro: rok_write)
  moreover have "ptr_at m p i = Some (?bs ! i)" for m using Suc.prems by (intro ptr_at_ext) auto
  moreover have "\<not> bound_avail (pos b) < 3" using fit by (simp add: bound_avail_def)
  ultimately show ?case
    using w fit Suc.prems(2,4) write_str_append [of b "['' '' ! 0, ?h, ?l]" ?rest]
    by (simp add: dr hex_byte_def)
qed

lemma suffix_loop_fits:
  "rok env b \<Longrightarrow> pos b + length s \<le> 4096 \<Longrightarrow> suffix_loop s b = Some (write_str s b)"
proof (induction s arbitrary: b)
  case (Cons c s)
  have "suffix_loop s (write_str [c] b) = Some (write_str s (write_str [c] b))"
    using Cons.prems by (intro Cons.IH) (auto intro: rok_write)
  then show ?case
    using Cons.prems write_str_append [of b "[c]" s] by (simp add: bound_avail_def put_char_fits)
qed simp

lemma join_str_Nil [simp]: "join_str sep [] = []"
  by (simp add: join_str_def)

lemma join_str_Cons [simp]: "join_str sep (t # ts) = t @ concat (map (\<lambda>u. sep @ u) ts)"
  by (simp add: join_str_def)

lemma delivers_hexdump [delivered]:
  assumes ok: "rok env b" "ext_ok p (min n 64)"
    and fit: "pos b + length (hexdump_str (ext_bytes p (min n 64)) (n > 64)) + 1 \<le> 4096"
  shows "delivers env (hexdump_str (ext_bytes p (min n 64)) (n > 64)) b (render_hexdump p n b)"
proof -
  let ?bs = "ext_bytes p (min n 64)" and ?k = "min n 64"
  let ?x = "join_str '' '' (map hex_byte ?bs)" and ?t = "if n > 64 then '' ...'' else []"
  have len: "length ?bs = ?k" by (rule length_ext_bytes [OF ok(2)])
  have fit': "pos b + length ?x + length ?t + 1 \<le> 4096" using fit by (simp add: hexdump_str_def split: if_splits)
  have loop: "hexdump_loop ?k 0 p b = Some (write_str ?x b)"
  proof (cases ?k)
    case 0
    then show ?thesis using len by simp
  next
    case (Suc k)
    then obtain c cs where bs: "?bs = c # cs" using len by (cases ?bs) auto
    let ?h = "hexd (of_char c div 16)" and ?l = "hexd (of_char c mod 16)"
    let ?rest = "concat (map (\<lambda>c. '' '' @ hex_byte c) cs)"
    have x: "?x = [?h, ?l] @ ?rest" by (simp add: bs hex_byte_def comp_def)
    have f: "pos b + 3 + length ?rest \<le> 4096" using fit' unfolding x by simp
    have at: "ptr_at m p 0 = Some c" for m using ptr_at_ext [OF ok(2), of 0] Suc bs by simp
    have w: "put_char ?h b = Some (write_str [?h] b)"
      "put_char ?l (write_str [?h] b) = Some (write_str [?h, ?l] b)"
      using f ok(1) write_str_append [of b "[?h]" "[?l]"] by (simp_all add: put_char_fits)
    have "hexdump_loop k 1 p (write_str [?h, ?l] b) =
        Some (write_str ?rest (write_str [?h, ?l] b))"
      using ok f Suc bs hexdump_loop_ext [OF ok(2), of env "write_str [?h, ?l] b" 1 k]
      by (simp add: rok_write)
    moreover have "\<not> bound_avail (pos b) < 3" using f by (simp add: bound_avail_def)
    ultimately have "hexdump_loop ?k 0 p b = Some (write_str ?rest (write_str [?h, ?l] b))"
      using w at by (simp add: Suc)
    then show ?thesis unfolding x using f ok(1) by (simp add: write_str_append)
  qed
  have ok': "rok env (write_str ?x b)" using ok(1) fit' by (intro rok_write) auto
  have suf: "(if n > 64 then suffix_loop '' ...'' (write_str ?x b) else Some (write_str ?x b)) =
      Some (write_str (?x @ ?t) b)"
    using suffix_loop_fits [OF ok', of "'' ...''"] fit' ok(1) write_str_append [of b ?x "'' ...''"]
    by (simp del: suffix_loop.simps split: if_splits)
  have "(if n > 64 then 64 else n) = ?k" by simp
  then have "render_hexdump p n b = Some (scratch_iov (pos b) (write_str (?x @ ?t) b), write_str (?x @ ?t) b)"
    using loop suf by (simp add: render_hexdump_def Let_def)
  moreover have "appends env (?x @ ?t) b (write_str (?x @ ?t) b)"
    using ok(1) fit' by (intro appends_write) simp
  ultimately show ?thesis using delivers_close by (simp add: hexdump_str_def)
qed

section \<open>Padding\<close>

lemma fill_loop_fits:
  "i + n \<le> length (mem b) \<Longrightarrow> fill_loop n i c b = Some (b\<lparr>mem := overwrite i (replicate n c) (mem b)\<rparr>)"
proof (induction n arbitrary: i b)
  case (Suc n)
  let ?b = "b\<lparr>mem := (mem b)[i := c]\<rparr>"
  have "fill_loop n (i + 1) c ?b = Some (?b\<lparr>mem := overwrite (i + 1) (replicate n c) (mem ?b)\<rparr>)"
    using Suc by (intro Suc.IH) simp
  then show ?case
    using Suc.prems overwrite_overwrite [of i "[c]" "mem b" "replicate n c"]
    by (simp add: poke_def overwrite_single)
qed simp

lemma shift_loop_fits:
  "start + k + i \<le> length (mem b) \<Longrightarrow>
     shift_loop i start k b = Some (b\<lparr>mem := overwrite (start + k) (take i (drop start (mem b))) (mem b)\<rparr>)"
proof (induction i arbitrary: b)
  case (Suc i)
  let ?c = "mem b ! (start + i)"
  let ?b = "b\<lparr>mem := (mem b)[start + k + i := ?c]\<rparr>"
  have same: "take i (drop start (mem ?b)) = take i (drop start (mem b))"
    by (simp add: region_update)
  have "shift_loop i start k ?b =
      Some (?b\<lparr>mem := overwrite (start + k) (take i (drop start (mem b))) (mem ?b)\<rparr>)"
    using Suc same by (subst Suc.IH) auto
  moreover have "overwrite (start + k) (take i (drop start (mem b))) (mem ?b) =
      overwrite (start + k) (take (Suc i) (drop start (mem b))) (mem b)"
  proof -
    have l: "length (take i (drop start (mem b))) = i" using Suc.prems by simp
    have "take (Suc i) (drop start (mem b)) = take i (drop start (mem b)) @ [?c]"
      using Suc.prems by (simp add: take_Suc_conv_app_nth)
    then show ?thesis
      using overwrite_before [of "start + k" "take i (drop start (mem b))" "[?c]" "mem b"] l Suc.prems
      by (simp add: overwrite_single)
  qed
  ultimately show ?case
    using Suc.prems by (simp add: ptr_at_def poke_def)
qed simp

lemma delivers_padded:
  assumes inner: "delivers env s b r" and ok: "rok env b"
    and fit: "pos b + length (pad_str la w c s) \<le> 4096"
  shows "delivers env (pad_str la w c s) b (render_padded r (pos b) w c la)"
proof -
  obtain u b1 where r: "r = Some (u, b1)" "yields env s b u b1" using inner by (auto simp: delivers_def)
  let ?n = "nat (sint w) - length s"
  have fits: "pos b + length s + ?n \<le> 4096" using fit by (simp add: pad_str_def Let_def split: if_splits)
  show ?thesis
  proof (cases "u = Iov (Scratch (pos b)) (length s) \<and> appends env s b b1")
    case True
    then have u: "u = Iov (Scratch (pos b)) (length s)" and ap: "appends env s b b1" by auto
    have ok1: "rok env b1" by (rule appends_rok [OF ap ok])
    have p1: "pos b1 = pos b + length s" by (rule appends_pos [OF ap])
    show ?thesis
    proof (cases "sint w \<le> 0 \<or> nat (sint w) \<le> length s")
      case True
      then have "pad_str la w c s = s" by (auto simp: pad_str_def Let_def)
      then show ?thesis using True r by (simp add: render_padded_def u delivers_def)
    next
      case wide: False
      show ?thesis
      proof (cases la)
        case True
        have "delivers env (pad_str la w c s) b
            (pad_loop ?n c b1 \<bind> (\<lambda>b2. Some (scratch_iov (pos b) b2, b2)))"
          by (rule delivers_step [OF ap adds_pad_loop [OF ok1]], use fits p1 in simp)
            (erule delivers_close, simp add: pad_str_def True)
        then show ?thesis using wide True by (simp add: render_padded_def r u Let_def)
      next
        case False
        let ?m = "overwrite (pos b) (replicate ?n c @ s) (mem b1)"
        have s: "take (length s) (drop (pos b) (mem b1)) = s" using ap by (simp add: appends_def)
        have "shift_loop (length s) (pos b) ?n b1 =
            Some (b1\<lparr>mem := overwrite (pos b + ?n) s (mem b1)\<rparr>)"
          using shift_loop_fits [of "pos b" ?n "length s" b1] fits ok1 s by (simp add: add_ac)
        moreover have "fill_loop ?n (pos b) c (b1\<lparr>mem := overwrite (pos b + ?n) s (mem b1)\<rparr>) =
            Some (b1\<lparr>mem := ?m\<rparr>)"
          using fits ok1 overwrite_before [of "pos b" "replicate ?n c" s "mem b1"]
          by (subst fill_loop_fits) (simp_all add: add_ac)
        moreover have "appends env (replicate ?n c @ s) b (b1\<lparr>mem := ?m, pos := pos b1 + ?n\<rparr>)"
          using ap fits ok ok1 p1 by (simp add: appends_def evolves_def extends_def overwrite_def)
        then have "delivers env (pad_str la w c s) b
            (Some (scratch_iov (pos b) (b1\<lparr>mem := ?m, pos := pos b1 + ?n\<rparr>), b1\<lparr>mem := ?m, pos := pos b1 + ?n\<rparr>))"
          by (rule delivers_close) (simp add: pad_str_def False)
        ultimately show ?thesis
          using wide False fits p1 by (simp add: render_padded_def r u Let_def)
      qed
    qed
  next
    case False
    with r(2) have u: "b1 = b" "ext_ok (iov_base u) (iov_len u)" "ext_bytes (iov_base u) (iov_len u) = s"
      by (auto simp: yields_def)
    have len: "iov_len u = length s" using length_ext_bytes [OF u(2)] u(3) by simp
    have base: "iov_base u \<noteq> Scratch a" for a using u(2) by (auto simp: ext_ok_def)
    have put: "adds env s b' (append_str (iov_base u) (length s) b')"
      if "rok env b'" "pos b' + length s \<le> 4096" for b'
      using adds_append_str [of env b' "iov_base u" "iov_len u"] that u len by simp
    show ?thesis
    proof (cases "sint w \<le> 0 \<or> nat (sint w) \<le> length s")
      case True
      then have "pad_str la w c s = s" by (auto simp: pad_str_def Let_def)
      moreover have "delivers env s b
          (append_str (iov_base u) (length s) b \<bind> (\<lambda>b1. Some (scratch_iov (pos b) b1, b1)))"
        by (rule delivers_step [OF appends_refl put [OF ok]], use fits in simp)
          (erule delivers_close, simp)
      ultimately show ?thesis using True by (simp add: render_padded_def r(1) u(1) len base)
    next
      case wide: False
      show ?thesis
      proof (cases la)
        case True
        have "delivers env (pad_str la w c s) b
            (append_str (iov_base u) (length s) b \<bind>
              (\<lambda>b1. pad_loop ?n c b1 \<bind> (\<lambda>b2. Some (scratch_iov (pos b) b2, b2))))"
        proof (rule delivers_step [OF appends_refl put [OF ok]])
          show "pos b + length s \<le> 4096" using fits by simp
          fix b2 assume a: "appends env ([] @ s) b b2"
          show "delivers env (pad_str la w c s) b (pad_loop ?n c b2 \<bind> (\<lambda>b2. Some (scratch_iov (pos b) b2, b2)))"
            by (rule delivers_step [OF a adds_pad_loop], use a ok fits in \<open>simp add: appends_rok\<close>,
                use a fits in \<open>simp add: appends_pos [OF a]\<close>)
              (erule delivers_close, simp add: pad_str_def True)
        qed
        then show ?thesis using wide True by (simp add: render_padded_def r(1) u(1) len base Let_def)
      next
        case False
        have "delivers env (pad_str la w c s) b
            (pad_loop ?n c b \<bind>
              (\<lambda>b1. append_str (iov_base u) (length s) b1 \<bind> (\<lambda>b2. Some (scratch_iov (pos b) b2, b2))))"
        proof (rule delivers_step [OF appends_refl adds_pad_loop [OF ok]])
          show "pos b + ?n \<le> 4096" using fits by simp
          fix b2 assume a: "appends env ([] @ replicate ?n c) b b2"
          show "delivers env (pad_str la w c s) b
              (append_str (iov_base u) (length s) b2 \<bind> (\<lambda>b2. Some (scratch_iov (pos b) b2, b2)))"
            by (rule delivers_step [OF a put], rule appends_rok [OF a ok],
                use fits in \<open>simp add: appends_pos [OF a]\<close>)
              (erule delivers_close, simp add: pad_str_def False)
        qed
        then show ?thesis using wide False by (simp add: render_padded_def r(1) u(1) len base Let_def)
      qed
    qed
  qed
qed

end
