(* ===== verification/Elog_Values.thy ===== *)
theory Elog_Values
  imports Elog_Render_Laws
begin

text \<open>
  The whole \<open>elog_render\<close> overload set of \<open>include/elog/render.hpp\<close> and
  \<open>include/elog/render_extra.hpp\<close> as one function on a datatype of loggable values. The text a
  value should have is \<open>shown\<close>; the theorems say that, room permitting, that text is what the code
  renders, and that in any case it writes only at and above the cursor.
\<close>

section \<open>Values and the overload set\<close>

text \<open>
  Unsigned and signed integers are words of their width; a \<open>float\<close>, \<open>double\<close> and \<open>long double\<close> are
  their bit patterns. The elements of containers come in iteration order. \<open>VUser\<close> is an object of a
  user type whose own \<open>elog_render\<close> returns an \<open>Iov\<close>; the objects of a program are numbered.
\<close>

datatype val =
    VBool bool | VChar char | VSChar u8 | VUChar u8 | VShort u16 | VUShort u16 | VInt u32 | VUInt u32
  | VLong u64 | VULong u64 | VLongLong u64 | VULongLong u64
  | VFloat u32 | VDouble u64 | VLongDouble "80 word"
  | VCStr "string option" | VRef string_ref | VString string | VLiteral "byte list"
  | VPointer u64 | VNullptr | VThreadId nat | VTime u64
  | VHex u64 | VBin u64 | VFixed u64 u32 | VQuoted string_ref
  | VOct u64 | VHexdump ptr nat | VEscaped string_ref
  | VPadLeft val u32 char | VPadRight val u32 char | VNullable "val option" | VJoin "val list" string
  | VVector "val list" | VArray "val list" | VPair val val | VTuple "val list"
  | VMap "(val \<times> val) list" | VSet "val list" | VUser nat

text \<open>
  The functions that build the adaptors. \<open>join\<close> counts the separator up to its terminator; a null
  separator is empty.
\<close>

definition pad_left :: "val \<Rightarrow> u32 \<Rightarrow> char \<Rightarrow> val" where
  "pad_left v width fc = VPadLeft v width fc"

definition pad_right :: "val \<Rightarrow> u32 \<Rightarrow> char \<Rightarrow> val" where
  "pad_right v width fc = VPadRight v width fc"

definition precision :: "u64 \<Rightarrow> u32 \<Rightarrow> val" where
  "precision v prec = VFixed v prec"

definition nullable_of :: "val option \<Rightarrow> val" where
  "nullable_of p = VNullable p"

fun c_strlen :: "string \<Rightarrow> nat" where
  "c_strlen [] = 0"
| "c_strlen (c # cs) = (if c = CHR 0x00 then 0 else Suc (c_strlen cs))"

definition join :: "val list \<Rightarrow> string option \<Rightarrow> val" where
  "join r sep =
     (let s = (case sep of None \<Rightarrow> [] | Some s \<Rightarrow> s); n = c_strlen s in VJoin r (take n s))"

text \<open>The overloads for the number types convert and call the common routines.\<close>

abbreviation render_schar :: "u8 \<Rightarrow> rbuf \<Rightarrow> (iov \<times> rbuf) option" where
  "render_schar v \<equiv> render_signed (scast v)"

abbreviation render_uchar :: "u8 \<Rightarrow> rbuf \<Rightarrow> (iov \<times> rbuf) option" where
  "render_uchar v \<equiv> render_unsigned (ucast v)"

abbreviation render_short :: "u16 \<Rightarrow> rbuf \<Rightarrow> (iov \<times> rbuf) option" where
  "render_short v \<equiv> render_signed (scast v)"

abbreviation render_ushort :: "u16 \<Rightarrow> rbuf \<Rightarrow> (iov \<times> rbuf) option" where
  "render_ushort v \<equiv> render_unsigned (ucast v)"

abbreviation render_int :: "u32 \<Rightarrow> rbuf \<Rightarrow> (iov \<times> rbuf) option" where
  "render_int v \<equiv> render_signed (scast v)"

abbreviation render_uint :: "u32 \<Rightarrow> rbuf \<Rightarrow> (iov \<times> rbuf) option" where
  "render_uint v \<equiv> render_unsigned (ucast v)"

abbreviation render_long :: "u64 \<Rightarrow> rbuf \<Rightarrow> (iov \<times> rbuf) option" where
  "render_long v \<equiv> render_signed v"

abbreviation render_ulong :: "u64 \<Rightarrow> rbuf \<Rightarrow> (iov \<times> rbuf) option" where
  "render_ulong v \<equiv> render_unsigned v"

abbreviation render_longlong :: "u64 \<Rightarrow> rbuf \<Rightarrow> (iov \<times> rbuf) option" where
  "render_longlong v \<equiv> render_signed v"

abbreviation render_ulonglong :: "u64 \<Rightarrow> rbuf \<Rightarrow> (iov \<times> rbuf) option" where
  "render_ulonglong v \<equiv> render_unsigned v"

abbreviation render_float :: "u32 \<Rightarrow> rbuf \<Rightarrow> (iov \<times> rbuf) option" where
  "render_float v \<equiv> render_double (float_to_double v)"

text \<open>
  \<open>render_elems\<close> is the loop over a sequence, with its flag \<open>first\<close>; \<open>tuple_render_helper\<close> unrolls
  to the same sequence of steps. \<open>render_entries\<close> is the loop of \<open>render_map\<close>.
\<close>

function elog_render :: "renv \<Rightarrow> val \<Rightarrow> rbuf \<Rightarrow> (iov \<times> rbuf) option"
and render_elems :: "renv \<Rightarrow> bool \<Rightarrow> string \<Rightarrow> val list \<Rightarrow> rbuf \<Rightarrow> rbuf option"
and render_entries :: "renv \<Rightarrow> bool \<Rightarrow> (val \<times> val) list \<Rightarrow> rbuf \<Rightarrow> rbuf option" where
  "elog_render env (VBool v) b = render_bool v b"
| "elog_render env (VChar v) b = render_char v b"
| "elog_render env (VSChar v) b = render_schar v b"
| "elog_render env (VUChar v) b = render_uchar v b"
| "elog_render env (VShort v) b = render_short v b"
| "elog_render env (VUShort v) b = render_ushort v b"
| "elog_render env (VInt v) b = render_int v b"
| "elog_render env (VUInt v) b = render_uint v b"
| "elog_render env (VLong v) b = render_long v b"
| "elog_render env (VULong v) b = render_ulong v b"
| "elog_render env (VLongLong v) b = render_longlong v b"
| "elog_render env (VULongLong v) b = render_ulonglong v b"
| "elog_render env (VFloat v) b = render_float v b"
| "elog_render env (VDouble v) b = render_double v b"
| "elog_render env (VLongDouble v) b = render_long_double env v b"
| "elog_render env (VCStr v) b = render_cstr v b"
| "elog_render env (VRef v) b = render_ref v b"
| "elog_render env (VString v) b = render_ref \<lparr>sr_data = Ext v, sr_size = length v\<rparr> b"
| "elog_render env (VLiteral v) b = render_literal v b"
| "elog_render env (VPointer v) b = render_pointer v b"
| "elog_render env VNullptr b = render_nullptr b"
| "elog_render env (VThreadId v) b = render_thread_id env v b"
| "elog_render env (VTime v) b = render_time env v b"
| "elog_render env (VHex v) b = render_hex v b"
| "elog_render env (VBin v) b = render_bin v b"
| "elog_render env (VFixed v p) b = render_fixed env v p b"
| "elog_render env (VQuoted r) b = render_quoted r b"
| "elog_render env (VOct v) b = render_oct v b"
| "elog_render env (VHexdump p n) b = render_hexdump p n b"
| "elog_render env (VEscaped r) b = render_escaped r b"
| "elog_render env (VPadLeft v w c) b = render_padded (elog_render env v b) (pos b) w c False"
| "elog_render env (VPadRight v w c) b = render_padded (elog_render env v b) (pos b) w c True"
| "elog_render env (VNullable None) b =
     do { b1 \<leftarrow> append_lit ''<null>'' b; Some (scratch_iov (pos b) b1, b1) }"
| "elog_render env (VNullable (Some v)) b = elog_render env v b"
| "elog_render env (VJoin vs sep) b =
     do { b1 \<leftarrow> render_elems env True sep vs b; Some (scratch_iov (pos b) b1, b1) }"
| "elog_render env (VVector vs) b =
     do { b1 \<leftarrow> append_lit ''['' b; b2 \<leftarrow> render_elems env True '', '' vs b1; b3 \<leftarrow> append_lit '']'' b2;
          Some (scratch_iov (pos b) b3, b3) }"
| "elog_render env (VArray vs) b =
     do { b1 \<leftarrow> append_lit ''['' b; b2 \<leftarrow> render_elems env True '', '' vs b1; b3 \<leftarrow> append_lit '']'' b2;
          Some (scratch_iov (pos b) b3, b3) }"
| "elog_render env (VPair x y) b =
     do { b1 \<leftarrow> append_lit ''('' b; b2 \<leftarrow> splice (elog_render env x b1); b3 \<leftarrow> append_lit '', '' b2;
          b4 \<leftarrow> splice (elog_render env y b3); b5 \<leftarrow> append_lit '')'' b4;
          Some (scratch_iov (pos b) b5, b5) }"
| "elog_render env (VTuple vs) b =
     (if vs = [] then do { b1 \<leftarrow> append_lit ''()'' b; Some (scratch_iov (pos b) b1, b1) }
      else
        do { b1 \<leftarrow> append_lit ''('' b; b2 \<leftarrow> render_elems env True '', '' vs b1; b3 \<leftarrow> append_lit '')'' b2;
             Some (scratch_iov (pos b) b3, b3) })"
| "elog_render env (VMap kvs) b =
     do { b1 \<leftarrow> append_lit ''{'' b; b2 \<leftarrow> render_entries env True kvs b1; b3 \<leftarrow> append_lit ''}'' b2;
          Some (scratch_iov (pos b) b3, b3) }"
| "elog_render env (VSet vs) b =
     do { b1 \<leftarrow> append_lit ''{'' b; b2 \<leftarrow> render_elems env True '', '' vs b1; b3 \<leftarrow> append_lit ''}'' b2;
          Some (scratch_iov (pos b) b3, b3) }"
| "elog_render env (VUser k) b = user_render env k b"
| "render_elems env first sep [] b = Some b"
| "render_elems env first sep (v # vs) b =
     do { b1 \<leftarrow> (if first then Some b else append_lit sep b); b2 \<leftarrow> splice (elog_render env v b1);
          render_elems env False sep vs b2 }"
| "render_entries env first [] b = Some b"
| "render_entries env first ((k, v) # kvs) b =
     do { b1 \<leftarrow> (if first then Some b else append_lit '', '' b); b2 \<leftarrow> splice (elog_render env k b1);
          b3 \<leftarrow> append_lit '': '' b2; b4 \<leftarrow> splice (elog_render env v b3);
          render_entries env False kvs b4 }"
  by pat_completeness auto
termination
  by (relation "measure (\<lambda>c. case c of
        Inl (_, v, _) \<Rightarrow> size v
      | Inr (Inl (_, _, _, vs, _)) \<Rightarrow> size_list size vs
      | Inr (Inr (_, _, kvs, _)) \<Rightarrow> size_list (size_prod size size) kvs)") auto

section \<open>The intended text\<close>

definition double_str :: "u64 \<Rightarrow> string" where
  "double_str v = (case format_double v of Some s \<Rightarrow> s | None \<Rightarrow> [])"

fun shown :: "renv \<Rightarrow> val \<Rightarrow> string" where
  "shown env (VBool v) = (if v then ''true'' else ''false'')"
| "shown env (VChar v) = [v]"
| "shown env (VSChar v) = int_str (sint v)"
| "shown env (VUChar v) = radix_str 10 (unat v)"
| "shown env (VShort v) = int_str (sint v)"
| "shown env (VUShort v) = radix_str 10 (unat v)"
| "shown env (VInt v) = int_str (sint v)"
| "shown env (VUInt v) = radix_str 10 (unat v)"
| "shown env (VLong v) = int_str (sint v)"
| "shown env (VULong v) = radix_str 10 (unat v)"
| "shown env (VLongLong v) = int_str (sint v)"
| "shown env (VULongLong v) = radix_str 10 (unat v)"
| "shown env (VFloat v) = double_str (float_to_double v)"
| "shown env (VDouble v) = double_str v"
| "shown env (VLongDouble v) = fmt_Lg env v"
| "shown env (VCStr v) = (case v of None \<Rightarrow> ''(null)'' | Some s \<Rightarrow> s)"
| "shown env (VRef r) = ext_bytes (sr_data r) (sr_size r)"
| "shown env (VString s) = s"
| "shown env (VLiteral v) = (if v \<noteq> [] \<and> last v = CHR 0x00 then butlast v else v)"
| "shown env (VPointer v) = ''0x'' @ radix_str 16 (unat v)"
| "shown env VNullptr = ''nullptr''"
| "shown env (VThreadId v) = radix_str 10 (unat (if v = this_thread env then gettid env else hash_tid env v))"
| "shown env (VTime v) = time_text env v"
| "shown env (VHex v) = radix_str 16 (unat v)"
| "shown env (VBin v) = radix_str 2 (unat v)"
| "shown env (VFixed v p) = fmt_fixed env (nat (sint p)) v"
| "shown env (VQuoted r) = [CHR 0x22] @ ext_bytes (sr_data r) (sr_size r) @ [CHR 0x22]"
| "shown env (VOct v) = radix_str 8 (unat v)"
| "shown env (VHexdump p n) = hexdump_str (ext_bytes p (min n 64)) (n > 64)"
| "shown env (VEscaped r) = concat (map escape (ext_bytes (sr_data r) (sr_size r)))"
| "shown env (VPadLeft v w c) = pad_str False w c (shown env v)"
| "shown env (VPadRight v w c) = pad_str True w c (shown env v)"
| "shown env (VNullable v) = (case v of None \<Rightarrow> ''<null>'' | Some x \<Rightarrow> shown env x)"
| "shown env (VJoin vs sep) = join_str sep (map (shown env) vs)"
| "shown env (VVector vs) = ''['' @ join_str '', '' (map (shown env) vs) @ '']''"
| "shown env (VArray vs) = ''['' @ join_str '', '' (map (shown env) vs) @ '']''"
| "shown env (VPair x y) = ''('' @ shown env x @ '', '' @ shown env y @ '')''"
| "shown env (VTuple vs) = ''('' @ join_str '', '' (map (shown env) vs) @ '')''"
| "shown env (VMap kvs) =
     ''{'' @ join_str '', '' (map (\<lambda>(k, v). shown env k @ '': '' @ shown env v) kvs) @ ''}''"
| "shown env (VSet vs) = ''{'' @ join_str '', '' (map (shown env) vs) @ ''}''"
| "shown env (VUser k) = user_text env k"

text \<open>
  What the customization point asks of an overload: its result is in place or borrowed, and is the
  promised text when 32 bytes more than the text are free.
\<close>

definition user_ok :: "renv \<Rightarrow> nat \<Rightarrow> bool" where
  "user_ok env k \<longleftrightarrow>
     (\<forall>b v b'. user_render env k b = Some (v, b') \<longrightarrow> placed env b v b') \<and>
     (\<forall>b. rok env b \<longrightarrow> pos b + length (user_text env k) + 32 \<le> 4096 \<longrightarrow>
        delivers env (user_text env k) b (user_render env k b))"

text \<open>
  Values that can be read: pointers refer to enough memory, text lengths fit the \<open>int\<close> that
  \<open>snprintf\<close> returns, and user types keep the contract.
\<close>

fun readable :: "renv \<Rightarrow> val \<Rightarrow> bool" where
  "readable env (VLongDouble v) = (length (fmt_Lg env v) \<le> INT_MAX)"
| "readable env (VFixed v p) = (length (fmt_fixed env (nat (sint p)) v) \<le> INT_MAX)"
| "readable env (VTime v) = (length (time_text env v) \<le> INT_MAX)"
| "readable env (VRef r) = ext_ok (sr_data r) (sr_size r)"
| "readable env (VQuoted r) = ext_ok (sr_data r) (sr_size r)"
| "readable env (VEscaped r) = ext_ok (sr_data r) (sr_size r)"
| "readable env (VHexdump p n) = ext_ok p (min n 64)"
| "readable env (VPadLeft v w c) = readable env v"
| "readable env (VPadRight v w c) = readable env v"
| "readable env (VNullable v) = (\<forall>x \<in> set_option v. readable env x)"
| "readable env (VJoin vs sep) = (\<forall>v \<in> set vs. readable env v)"
| "readable env (VVector vs) = (\<forall>v \<in> set vs. readable env v)"
| "readable env (VArray vs) = (\<forall>v \<in> set vs. readable env v)"
| "readable env (VPair x y) = (readable env x \<and> readable env y)"
| "readable env (VTuple vs) = (\<forall>v \<in> set vs. readable env v)"
| "readable env (VMap kvs) = (\<forall>kv \<in> set kvs. case kv of (k, v) \<Rightarrow> readable env k \<and> readable env v)"
| "readable env (VSet vs) = (\<forall>v \<in> set vs. readable env v)"
| "readable env (VUser k) = user_ok env k"
| "readable env v = True"

end
