(* ===== verification/Elog_Cursor.thy ===== *)
theory Elog_Cursor
  imports Elog_Values
begin

text \<open>
  Where the cursor can go: every overload of \<open>elog_render\<close> leaves it inside the scratch buffer, however
  little room there is, except that of a time point (\<open>src/render.cpp\<close>, line 205), alone or inside another
  value. A user type has to promise it for its own overload.
\<close>

section \<open>One value\<close>

definition inside :: "rbuf \<Rightarrow> bool" where
  "inside b \<longleftrightarrow> length (mem b) = 4096 \<and> pos b \<le> 4096"

named_theorems inside_intros \<open>operations that leave the cursor in the buffer\<close>

lemma put_char_inside [inside_intros]: "put_char c b = Some b' \<Longrightarrow> inside b \<Longrightarrow> inside b'"
  by (auto simp: put_char_def inside_def split: if_splits)

lemma put_str_inside [inside_intros]: "put_str s b = Some b' \<Longrightarrow> inside b \<Longrightarrow> inside b'"
  by (induction s b rule: put_str.induct) (auto simp: bind_eq_Some_conv put_char_inside)

lemma put_iov_inside [inside_intros]: "put_iov s b = Some (v, b') \<Longrightarrow> inside b \<Longrightarrow> inside b'"
  by (auto simp: put_iov_def bind_eq_Some_conv put_str_inside)

lemma inside_evolves: "evolves env b b' \<Longrightarrow> inside b \<Longrightarrow> pos b' \<le> 4096 \<Longrightarrow> inside b'"
  by (simp add: evolves_def extends_def inside_def)

lemma c_snprintf_frame: "c_snprintf s n b = Some (k, b') \<Longrightarrow> length (mem b') = length (mem b) \<and> pos b' = pos b"
  by (auto simp: c_snprintf_def Let_def split: if_splits)

lemma snprintf_inside [inside_intros]: "render_snprintf s b = Some (v, b') \<Longrightarrow> inside b \<Longrightarrow> inside b'"
  by (auto simp: render_snprintf_def bind_eq_Some_conv inside_def size_sub_def kScratchSize_def Let_def dest!: c_snprintf_frame)

lemma double_inside [inside_intros]: "render_double x b = Some (v, b') \<Longrightarrow> inside b \<Longrightarrow> inside b'"
  by (auto simp: render_double_def bind_eq_Some_conv put_iov_inside split: if_splits)

lemma char_inside [inside_intros]: "render_char x b = Some (v, b') \<Longrightarrow> inside b \<Longrightarrow> inside b'"
  by (auto simp: render_char_def bind_eq_Some_conv put_char_inside)

lemma thread_id_inside [inside_intros]: "render_thread_id env t b = Some (v, b') \<Longrightarrow> inside b \<Longrightarrow> inside b'"
  using put_iov_inside [of _ "b\<lparr>tid_cache := gettid env\<rparr>" v b'] put_iov_inside [of _ b v b']
  by (auto simp: render_thread_id_def render_unsigned_def inside_def Let_def split: if_splits)

lemma quoted_inside [inside_intros]: "render_quoted r b = Some (v, b') \<Longrightarrow> inside b \<Longrightarrow> inside b'"
  by (auto simp: render_quoted_def bind_eq_Some_conv split: if_splits dest: put_char_inside put_str_inside)

lemma hexdump_loop_inside: "hexdump_loop k i p b = Some b' \<Longrightarrow> inside b \<Longrightarrow> inside b'"
proof (induction k arbitrary: i b)
  case (Suc k)
  then show ?case by (auto simp: bind_eq_Some_conv split: if_splits) (metis put_char_inside)+
qed simp

lemma suffix_loop_inside: "suffix_loop s b = Some b' \<Longrightarrow> inside b \<Longrightarrow> inside b'"
  by (induction s b rule: suffix_loop.induct) (auto simp: bind_eq_Some_conv split: if_splits intro: put_char_inside)

lemma hexdump_inside [inside_intros]: "render_hexdump p n b = Some (v, b') \<Longrightarrow> inside b \<Longrightarrow> inside b'"
  by (auto simp: render_hexdump_def Let_def bind_eq_Some_conv split: if_splits simp del: suffix_loop.simps
      dest: suffix_loop_inside hexdump_loop_inside)

lemma escaped_loop_inside: "escaped_loop k i p b = Some b' \<Longrightarrow> inside b \<Longrightarrow> inside b'"
proof (induction k arbitrary: i b)
  case (Suc k)
  then show ?case by (auto simp: bind_eq_Some_conv Let_def split: if_splits dest: put_str_inside)
qed simp

lemma escaped_inside [inside_intros]: "render_escaped r b = Some (v, b') \<Longrightarrow> inside b \<Longrightarrow> inside b'"
  by (auto simp: render_escaped_def bind_eq_Some_conv dest: escaped_loop_inside)

lemma borrowed_inside [inside_intros]:
  "render_bool x b = Some (v, b') \<Longrightarrow> inside b \<Longrightarrow> inside b'" "render_cstr y b = Some (v, b') \<Longrightarrow> inside b \<Longrightarrow> inside b'"
  "render_ref r b = Some (v, b') \<Longrightarrow> inside b \<Longrightarrow> inside b'" "render_literal l b = Some (v, b') \<Longrightarrow> inside b \<Longrightarrow> inside b'"
  "render_nullptr b = Some (v, b') \<Longrightarrow> inside b \<Longrightarrow> inside b'"
  by (auto simp: render_bool_def render_cstr_def render_ref_def render_literal_def render_nullptr_def Let_def
      split: if_splits option.splits)

lemma number_inside [inside_intros]:
  "render_unsigned x b = Some (v, b') \<Longrightarrow> inside b \<Longrightarrow> inside b'" "render_signed x b = Some (v, b') \<Longrightarrow> inside b \<Longrightarrow> inside b'"
  "render_hex x b = Some (v, b') \<Longrightarrow> inside b \<Longrightarrow> inside b'" "render_bin x b = Some (v, b') \<Longrightarrow> inside b \<Longrightarrow> inside b'"
  "render_pointer x b = Some (v, b') \<Longrightarrow> inside b \<Longrightarrow> inside b'" "render_oct x b = Some (v, b') \<Longrightarrow> inside b \<Longrightarrow> inside b'"
proof -
  show "render_oct x b = Some (v, b') \<Longrightarrow> inside b \<Longrightarrow> inside b'" using oct_put [of x b] put_iov_inside by metis
qed (simp_all add: render_unsigned_def render_signed_def render_hex_put render_bin_put render_pointer_put put_iov_inside)

section \<open>Composite values\<close>

lemma append_str_inside: "append_str p n b = Some b' \<Longrightarrow> inside b \<Longrightarrow> inside b'"
proof -
  assume r: "append_str p n b = Some b'" and b: "inside b"
  from r b have "pos b' \<le> 4096"
    using append_loop_evolves [of _ 0 p b]
    by (auto simp: append_str_def inside_def Let_def bind_eq_Some_conv split: if_splits)
  then show ?thesis by (rule inside_evolves [OF append_str_evolves [OF r] b])
qed

lemma append_lit_inside: "append_lit s b = Some b' \<Longrightarrow> inside b \<Longrightarrow> inside b'"
  by (simp add: append_lit_def append_str_inside)

lemma splice_inside:
  assumes "splice r = Some b'" "\<And>v b1. r = Some (v, b1) \<Longrightarrow> inside b1"
  shows "inside b'"
  using assms by (auto simp: splice_def append_iov_def bind_eq_Some_conv split: if_splits dest: append_str_inside)

lemma pad_loop_inside: "pad_loop n c b = Some b' \<Longrightarrow> inside b \<Longrightarrow> inside b'"
  by (induction n c b rule: pad_loop.induct) (auto simp: bind_eq_Some_conv split: if_splits dest: put_char_inside)

lemma poke_length: "poke i c b = Some b' \<Longrightarrow> length (mem b') = length (mem b)"
  by (auto simp: poke_def split: if_splits)

lemma move_loops_length:
  "shift_loop k start shift b = Some b' \<Longrightarrow> length (mem b') = length (mem b)"
  "fill_loop n i c b = Some b' \<Longrightarrow> length (mem b') = length (mem b)"
proof -
  show "shift_loop k start shift b = Some b' \<Longrightarrow> length (mem b') = length (mem b)"
    by (induction k start shift b rule: shift_loop.induct) (auto simp: bind_eq_Some_conv dest: poke_length)
  show "fill_loop n i c b = Some b' \<Longrightarrow> length (mem b') = length (mem b)"
    by (induction n i c b rule: fill_loop.induct) (auto simp: bind_eq_Some_conv dest: poke_length)
qed

lemma padded_inside:
  assumes r: "render_padded inner start w c la = Some (v, b')" and inner: "\<And>u b1. inner = Some (u, b1) \<Longrightarrow> inside b1"
  shows "inside b'"
proof -
  obtain u b1 where u: "inner = Some (u, b1)" using r by (auto simp: render_padded_def bind_eq_Some_conv)
  have b1: "inside b1" by (rule inner [OF u])
  show ?thesis
    using r b1 unfolding u render_padded_def
    by (auto simp: Let_def bind_eq_Some_conv split: if_splits dest: append_str_inside pad_loop_inside move_loops_length)
      (auto simp: inside_def size_sub_def dest!: move_loops_length)
qed

text \<open>The values whose rendering cannot push the cursor out.\<close>

fun cursor_kept :: "renv \<Rightarrow> val \<Rightarrow> bool" where
  "cursor_kept env (VTime v) = False"
| "cursor_kept env (VUser k) = (\<forall>b v b'. user_render env k b = Some (v, b') \<longrightarrow> inside b \<longrightarrow> inside b')"
| "cursor_kept env (VPadLeft v w c) = cursor_kept env v"
| "cursor_kept env (VPadRight v w c) = cursor_kept env v"
| "cursor_kept env (VNullable v) = (\<forall>x \<in> set_option v. cursor_kept env x)"
| "cursor_kept env (VJoin vs sep) = (\<forall>v \<in> set vs. cursor_kept env v)"
| "cursor_kept env (VVector vs) = (\<forall>v \<in> set vs. cursor_kept env v)"
| "cursor_kept env (VArray vs) = (\<forall>v \<in> set vs. cursor_kept env v)"
| "cursor_kept env (VPair x y) = (cursor_kept env x \<and> cursor_kept env y)"
| "cursor_kept env (VTuple vs) = (\<forall>v \<in> set vs. cursor_kept env v)"
| "cursor_kept env (VMap kvs) = (\<forall>kv \<in> set kvs. case kv of (k, v) \<Rightarrow> cursor_kept env k \<and> cursor_kept env v)"
| "cursor_kept env (VSet vs) = (\<forall>v \<in> set vs. cursor_kept env v)"
| "cursor_kept env v = True"

lemma render_elems_inside:
  assumes "\<And>v b iv b'. v \<in> set vs \<Longrightarrow> inside b \<Longrightarrow> elog_render env v b = Some (iv, b') \<Longrightarrow> inside b'"
  shows "render_elems env ini sep vs b = Some b' \<Longrightarrow> inside b \<Longrightarrow> inside b'"
  using assms
proof (induction vs arbitrary: ini b)
  case (Cons v vs)
  then obtain b1 b2 where 1: "(if ini then Some b else append_lit sep b) = Some b1"
    "splice (elog_render env v b1) = Some b2" "render_elems env False sep vs b2 = Some b'"
    by (auto simp: bind_eq_Some_conv)
  have "inside b1" using 1(1) Cons.prems(2) append_lit_inside by (auto split: if_splits)
  then have "inside b2" using splice_inside [OF 1(2)] Cons.prems(3) [of v b1] by auto
  then show ?case using Cons.IH [OF 1(3)] Cons.prems(3) by auto
qed simp

lemma render_entries_inside:
  assumes "\<And>kv b iv b'. kv \<in> set kvs \<Longrightarrow> inside b \<Longrightarrow> elog_render env (fst kv) b = Some (iv, b') \<Longrightarrow> inside b'"
    and "\<And>kv b iv b'. kv \<in> set kvs \<Longrightarrow> inside b \<Longrightarrow> elog_render env (snd kv) b = Some (iv, b') \<Longrightarrow> inside b'"
  shows "render_entries env ini kvs b = Some b' \<Longrightarrow> inside b \<Longrightarrow> inside b'"
  using assms
proof (induction kvs arbitrary: ini b)
  case (Cons kv kvs)
  obtain b1 b2 b3 b4 where 1: "(if ini then Some b else append_lit '', '' b) = Some b1"
    "splice (elog_render env (fst kv) b1) = Some b2" "append_lit '': '' b2 = Some b3"
    "splice (elog_render env (snd kv) b3) = Some b4" "render_entries env False kvs b4 = Some b'"
    using Cons.prems(1) by (cases kv) (auto simp: bind_eq_Some_conv)
  have here: "kv \<in> set (kv # kvs)" by simp
  have "inside b1" using 1(1) Cons.prems(2) append_lit_inside by (auto split: if_splits)
  then have "inside b2" using splice_inside [OF 1(2)] Cons.prems(3) [OF here] by blast
  then have "inside b3" by (rule append_lit_inside [OF 1(3)])
  then have "inside b4" using splice_inside [OF 1(4)] Cons.prems(4) [OF here] by blast
  then show ?case using Cons.IH [OF 1(5)] Cons.prems(3,4) by (meson list.set_intros(2))
qed simp

lemma container_inside:
  assumes "do { b1 \<leftarrow> append_lit s b; b2 \<leftarrow> f b1; b3 \<leftarrow> append_lit t b2; Some (scratch_iov (pos b) b3, b3) } = Some (iv, b')"
    and "inside b" "\<And>b1 b2. f b1 = Some b2 \<Longrightarrow> inside b1 \<Longrightarrow> inside b2"
  shows "inside b'"
  using assms(1) append_lit_inside assms(2,3) by (auto simp: bind_eq_Some_conv)

lemma render_inside: "cursor_kept env v \<Longrightarrow> inside b \<Longrightarrow> elog_render env v b = Some (iv, b') \<Longrightarrow> inside b'"
proof (induction v arbitrary: b iv b')
  case (VPadLeft v w c)
  have "render_padded (elog_render env v b) (pos b) w c False = Some (iv, b')" using VPadLeft.prems(3) by simp
  then show ?case by (rule padded_inside) (use VPadLeft in auto)
next
  case (VPadRight v w c)
  have "render_padded (elog_render env v b) (pos b) w c True = Some (iv, b')" using VPadRight.prems(3) by simp
  then show ?case by (rule padded_inside) (use VPadRight in auto)
next
  case (VNullable x)
  then show ?case by (cases x) (auto simp: bind_eq_Some_conv dest: append_lit_inside)
next
  case (VUser k)
  then show ?case by simp
next
  case (VTime v)
  then show ?case by simp
next
  case (VJoin vs sep)
  have e: "v \<in> set vs \<Longrightarrow> inside b \<Longrightarrow> elog_render env v b = Some (iv, b') \<Longrightarrow> inside b'" for v b iv b'
    using VJoin.IH VJoin.prems(1) by simp
  obtain b1 where b1: "render_elems env True sep vs b = Some b1" "b' = b1"
    using VJoin.prems(3) by (auto simp: bind_eq_Some_conv)
  show ?case using render_elems_inside [of vs env, OF e b1(1) VJoin.prems(2)] b1(2) by simp
next
  case (VVector vs)
  have e: "v \<in> set vs \<Longrightarrow> inside b \<Longrightarrow> elog_render env v b = Some (iv, b') \<Longrightarrow> inside b'" for v b iv b'
    using VVector.IH VVector.prems(1) by simp
  show ?case using VVector.prems(3)
    by (simp only: elog_render.simps) (erule container_inside [OF _ VVector.prems(2)], rule render_elems_inside [of vs env, OF e])
next
  case (VArray vs)
  have e: "v \<in> set vs \<Longrightarrow> inside b \<Longrightarrow> elog_render env v b = Some (iv, b') \<Longrightarrow> inside b'" for v b iv b'
    using VArray.IH VArray.prems(1) by simp
  show ?case using VArray.prems(3)
    by (simp only: elog_render.simps) (erule container_inside [OF _ VArray.prems(2)], rule render_elems_inside [of vs env, OF e])
next
  case (VSet vs)
  have e: "v \<in> set vs \<Longrightarrow> inside b \<Longrightarrow> elog_render env v b = Some (iv, b') \<Longrightarrow> inside b'" for v b iv b'
    using VSet.IH VSet.prems(1) by simp
  show ?case using VSet.prems(3)
    by (simp only: elog_render.simps) (erule container_inside [OF _ VSet.prems(2)], rule render_elems_inside [of vs env, OF e])
next
  case (VTuple vs)
  show ?case
  proof (cases "vs = []")
    case True
    then show ?thesis using VTuple.prems(2,3) by (auto simp: bind_eq_Some_conv dest: append_lit_inside)
  next
    case False
    have e: "v \<in> set vs \<Longrightarrow> inside b \<Longrightarrow> elog_render env v b = Some (iv, b') \<Longrightarrow> inside b'" for v b iv b'
      using VTuple.IH VTuple.prems(1) by simp
    show ?thesis using VTuple.prems(3)
      by (simp only: elog_render.simps False if_False)
        (erule container_inside [OF _ VTuple.prems(2)], rule render_elems_inside [of vs env, OF e])
  qed
next
  case (VMap kvs)
  have e: "inside b \<Longrightarrow> elog_render env (fst kv) b = Some (iv, b') \<Longrightarrow> inside b'"
    "inside b \<Longrightarrow> elog_render env (snd kv) b = Some (iv, b') \<Longrightarrow> inside b'" if kv: "kv \<in> set kvs" for kv b iv b'
  proof -
    have "case kv of (k, v) \<Rightarrow> cursor_kept env k \<and> cursor_kept env v" using VMap.prems(1) kv by (simp only: cursor_kept.simps)
    then have c: "cursor_kept env (fst kv)" "cursor_kept env (snd kv)" by (simp_all split: prod.splits)
    have k: "fst kv \<in> Basic_BNFs.fsts kv" "snd kv \<in> Basic_BNFs.snds kv" by (simp_all add: fsts.simps snds.simps prod_eq_iff)
    show "inside b \<Longrightarrow> elog_render env (fst kv) b = Some (iv, b') \<Longrightarrow> inside b'" by (rule VMap.IH(1) [OF kv k(1) c(1)])
    show "inside b \<Longrightarrow> elog_render env (snd kv) b = Some (iv, b') \<Longrightarrow> inside b'" by (rule VMap.IH(2) [OF kv k(2) c(2)])
  qed
  show ?case using VMap.prems(3)
    by (simp only: elog_render.simps) (erule container_inside [OF _ VMap.prems(2)], rule render_entries_inside [of kvs env, OF e])
next
  case (VPair x y)
  from VPair.prems(3) obtain b1 b2 b3 b4 where 1: "append_lit ''('' b = Some b1" "splice (elog_render env x b1) = Some b2"
    "append_lit '', '' b2 = Some b3" "splice (elog_render env y b3) = Some b4" "append_lit '')'' b4 = Some b'"
    by (auto simp: bind_eq_Some_conv)
  have c: "cursor_kept env x" "cursor_kept env y" using VPair.prems(1) by simp_all
  have "inside b1" by (rule append_lit_inside [OF 1(1) VPair.prems(2)])
  then have "inside b2" using splice_inside [OF 1(2)] VPair.IH(1) [OF c(1)] by blast
  then have "inside b3" by (rule append_lit_inside [OF 1(3)])
  then have "inside b4" using splice_inside [OF 1(4)] VPair.IH(2) [OF c(2)] by blast
  then show ?case by (rule append_lit_inside [OF 1(5)])
qed (simp only: elog_render.simps render_long_double_def render_fixed_def Let_def, erule (1) inside_intros)+

end
