(* ===== verification/Elog_Digits.thy ===== *)
theory Elog_Digits
  imports Elog_Diy
begin

text \<open>
  Digit generation of \<open>src/grisu2.cpp\<close> (\<open>digit_gen\<close> and \<open>grisu_round\<close>) on natural numbers: the buffer
  always holds the numeral of a number \<open>D\<close>, no arithmetic wraps, both loops end, and \<open>D\<close> with its
  exponent lies between the two scaled boundaries.
\<close>

section \<open>The digit buffer\<close>

text \<open>The numeral of \<open>D\<close>, empty for zero.\<close>

definition decimal :: "nat \<Rightarrow> string" where
  "decimal D = (if D = 0 then [] else radix_str 10 D)"

lemma decimal_0 [simp]: "decimal 0 = []"
  by (simp add: decimal_def)

lemma decimal_pos [simp]: "0 < D \<Longrightarrow> decimal D = radix_str 10 D"
  by (simp add: decimal_def)

lemma decimal_empty [simp]: "decimal D = [] \<longleftrightarrow> D = 0"
  by (simp add: decimal_def)

lemma decimal_snoc: "0 < 10 * D + d \<Longrightarrow> d < 10 \<Longrightarrow> decimal (10 * D + d) = decimal D @ [digit_char d]"
  by (cases "D = 0") (simp_all add: radix_small radix_large)

lemma length_decimal: "D < 10 ^ k \<Longrightarrow> length (decimal D) \<le> k"
  using length_radix_str [of 10 D k] by (cases "k = 0") (auto simp: decimal_def)

lemma push_decimal:
  "d < 10 \<Longrightarrow> D < 10 ^ 16 \<Longrightarrow> push_digit d (decimal D) = Some (decimal (10 * D + d))"
  using length_decimal [of D 16] decimal_snoc [of D d] by (auto simp: push_digit_def digit_char_def)

lemma dec_last_decimal:
  assumes "0 < D mod 10" "1 < D"
  shows "dec_last (decimal D) = Some (decimal (D - 1))"
proof -
  define d where "d = D mod 10"
  have d: "D = 10 * (D div 10) + d" "D - 1 = 10 * (D div 10) + (d - 1)" "0 < d" "d < 10"
    using assms by (auto simp: d_def)
  have "decimal D = decimal (D div 10) @ [digit_char d]" using d by (subst d(1), intro decimal_snoc) auto
  moreover have "decimal (D - 1) = decimal (D div 10) @ [digit_char (d - 1)]"
    using d assms(2) by (subst d(2), intro decimal_snoc) auto
  ultimately show ?thesis using d(3,4) by (simp add: dec_last_def digit_char_def)
qed

section \<open>Rounding\<close>

text \<open>Rounding takes some units off the last digit, never past zero, and stays above the lower boundary.\<close>

lemma grisu_round_decimal:
  assumes "unat rest \<le> unat delta" "0 < unat tk" "0 < D"
    "unat delta \<le> unat rest + D mod 10 * unat tk" "unat delta < unat rest + D * unat tk"
  shows "\<exists>j < D. grisu_round (decimal D) delta rest tk wp = Some (decimal (D - j)) \<and> unat rest + j * unat tk \<le> unat delta"
  using assms
proof (induction D arbitrary: rest rule: less_induct)
  case (less D)
  show ?case
  proof (cases "rest < wp \<and> delta - rest \<ge> tk \<and> (rest + tk < wp \<or> wp - rest > rest + tk - wp)")
    case False
    then have "grisu_round (decimal D) delta rest tk wp = Some (decimal D)"
      by (subst grisu_round.simps) (rule if_not_P)
    then show ?thesis using less.prems by (intro exI [of _ 0]) simp
  next
    case True
    have "unat (delta - rest) = unat delta - unat rest"
      using less.prems(1) by (simp add: unat_sub word_le_nat_alt)
    moreover have "unat tk \<le> unat (delta - rest)" using True by (simp only: word_le_nat_alt)
    ultimately have le: "unat rest + unat tk \<le> unat delta" using less.prems(1) by linarith
    have add: "unat (rest + tk) = unat rest + unat tk"
      using le unat_u64 [of delta] by (intro unat_add_small) simp
    have m: "0 < D mod 10" using le less.prems by (cases "D mod 10 = 0") auto
    have one: "1 < D" using le less.prems by (cases "D = 1") auto
    have sub: "(D - 1) mod 10 = D mod 10 - 1"
      using m by (cases D) (auto simp: mod_Suc split: if_splits)
    have mult: "unat tk + (n - 1) * unat tk = n * unat tk" if "0 < n" for n :: nat
      using that by (cases n) simp_all
    have "unat delta \<le> unat (rest + tk) + (D - 1) mod 10 * unat tk"
      using less.prems(4) mult [OF m] unfolding add sub by linarith
    moreover have "unat delta < unat (rest + tk) + (D - 1) * unat tk"
      using less.prems(5) mult [OF less.prems(3)] unfolding add by linarith
    ultimately obtain j where j: "j < D - 1" "unat (rest + tk) + j * unat tk \<le> unat delta"
      "grisu_round (decimal (D - 1)) delta (rest + tk) tk wp = Some (decimal (D - 1 - j))"
      using less.IH [of "D - 1" "rest + tk"] less.prems(2) one le unfolding add by auto
    have "grisu_round (decimal D) delta rest tk wp = grisu_round (decimal (D - 1)) delta (rest + tk) tk wp"
      using True by (subst grisu_round.simps) (simp only: dec_last_decimal [OF m one] if_True Option.bind.simps simp_thms)
    then show ?thesis using j add by (intro exI [of _ "Suc j"]) auto
  qed
qed

section \<open>The integral part\<close>

lemma shl_int: "s < 64 \<Longrightarrow> shl x (int s) = Some (push_bit s x)" and shr_int: "s < 64 \<Longrightarrow> shr x (int s) = Some (drop_bit s x)"
  by (simp_all add: shl_def shr_def)

lemma len64: "LENGTH(64) = 64"
  by simp

lemma unat_pow10: "10 ^ n < (2 :: nat) ^ LENGTH('a) \<Longrightarrow> unat (10 ^ n :: 'a :: len word) = 10 ^ n"
  by (metis of_nat_numeral of_nat_power take_bit_nat_eq_self unsigned_of_nat)

text \<open>The leading digits of \<open>M\<close> are few as long as what is left of it exceeds \<open>delta\<close>.\<close>

lemma few_digits:
  fixes D :: nat
  assumes "D * U \<le> M" "delta \<le> U" "M < 10 ^ 16 * delta"
  shows "D < 10 ^ 16"
proof -
  have "D * delta \<le> D * U" using assms(2) by simp
  then have "D * delta < 10 ^ 16 * delta" using assms(1,3) by linarith
  then show ?thesis by simp
qed

text \<open>A finished generation: \<open>D\<close> scaled by the remaining digits is below \<open>M\<close>, by at most \<open>delta\<close>.\<close>

definition generated :: "nat \<Rightarrow> nat \<Rightarrow> nat \<Rightarrow> int \<Rightarrow> string \<times> int \<Rightarrow> bool" where
  "generated M delta s K r \<longleftrightarrow> (\<exists>D rest. fst r = decimal D \<and> 0 < D \<and> D < 10 ^ 17 \<and>
     ((\<exists>n. snd r = K + int n \<and> M = D * 10 ^ n * 2 ^ s + rest \<and> rest \<le> delta) \<or>
      (\<exists>n. snd r = K - int n \<and> M * 10 ^ n = D * 2 ^ s + rest \<and> rest \<le> delta * 10 ^ n)))"

lemma digit_gen_int_decimal:
  assumes "M = (D * 10 ^ kappa + unat p1) * 2 ^ s + unat p2" "M < 2 ^ 64" "M < 10 ^ 16 * unat delta" "s \<le> 60" "kappa \<le> 10"
    "unat p1 < 10 ^ kappa" "unat p2 < 2 ^ s" "unat delta < unat p1 * 2 ^ s + unat p2"
    "D = 0 \<longrightarrow> 10 ^ kappa \<le> 10 * unat p1"
  shows "\<exists>r. digit_gen_int kappa p1 p2 delta (int s) wp (decimal D) K = Some r \<and>
    (case r of Inl res \<Rightarrow> generated M (unat delta) s K res
     | Inr ds \<Rightarrow> \<exists>D'. ds = decimal D' \<and> 0 < D' \<and> M = D' * 2 ^ s + unat p2 \<and> unat delta < unat p2)"
  using assms
proof (induction kappa arbitrary: D p1)
  case 0
  then show ?case by (cases "D = 0") auto
next
  case (Suc n)
  let ?P = "10 ^ n :: nat" and ?S = "2 ^ s :: nat"
  define d where "d = unat p1 div ?P"
  define q where "q = p1 mod 10 ^ n"
  have P: "?P \<le> 10 ^ 9" using Suc.prems(5) by (intro power_increasing) auto
  then have P32: "unat (10 ^ n :: u32) = ?P" by (intro unat_pow10) simp
  have d_eq: "unat (p1 div 10 ^ n) = d" "unat q = unat p1 mod ?P"
    by (simp_all add: d_def q_def unat_div unat_mod P32)
  have p1: "unat p1 = d * ?P + unat q" "unat q < ?P" unfolding d_eq(2) d_def by (simp_all only: div_mult_mod_eq) simp
  have d10: "d < 10" using Suc.prems(6) by (simp add: d_def less_mult_imp_div_less mult.commute)
  have M: "M = ((10 * D + d) * ?P + unat q) * ?S + unat p2"
    using Suc.prems(1) p1(1) by (simp add: algebra_simps)
  have "unat p1 * ?S + unat p2 < 10 ^ Suc n * ?S"
  proof -
    have "(unat p1 + 1) * ?S \<le> 10 ^ Suc n * ?S" using Suc.prems(6) by (intro mult_right_mono) auto
    then show ?thesis using Suc.prems(7) by (simp add: algebra_simps)
  qed
  then have D16: "D < 10 ^ 16"
    using Suc.prems(1,3,8) by (intro few_digits [of D "10 ^ Suc n * ?S" M "unat delta"]) (simp_all add: algebra_simps)
  have push: "push_digit d (decimal D) = Some (decimal (10 * D + d))" by (rule push_decimal [OF d10 D16])
  have pos: "0 < 10 * D + d"
  proof (cases "D = 0")
    case True
    then have "?P \<le> unat p1" using Suc.prems(9) by simp
    then show ?thesis using True by (simp add: d_def div_greater_zero_iff)
  qed simp
  have fit: "unat q * ?S \<le> M" "?P * ?S \<le> M" "unat q * ?S + unat p2 \<le> M"
  proof -
    show "unat q * ?S \<le> M" "unat q * ?S + unat p2 \<le> M" unfolding M by (simp_all add: add_mult_distrib)
    have "1 * (?P * ?S) \<le> (10 * D + d) * (?P * ?S)" using pos by (intro mult_right_mono) auto
    then show "?P * ?S \<le> M" unfolding M by (simp add: algebra_simps)
  qed
  have "unat q < 2 ^ 64" using unsigned_less [of q, where 'a = nat] by simp
  then have uq: "unat (ucast q :: u64) = unat q" by (simp add: unsigned_ucast_eq take_bit_nat_eq_self)
  have p1s: "shl (ucast q) (int s) = Some (push_bit s (ucast q))" "unat (push_bit s (ucast q :: u64)) = unat q * ?S"
    using Suc.prems(2,4) fit(1) by (simp_all add: shl_int uq unat_push_bit)
  have tmp: "unat (push_bit s (ucast q) + p2) = unat q * ?S + unat p2"
    using le_less_trans [OF fit(3) Suc.prems(2)] by (subst unat_add_small) (simp_all only: p1s(2) len64)
  have tk: "shl (kPow10 n) (int s) = Some (push_bit s (10 ^ n))" "unat (push_bit s (10 ^ n :: u64)) = ?P * ?S"
  proof -
    have "unat (10 ^ n :: u64) = ?P" using le_less_trans [OF P, of "2 ^ 64"] by (intro unat_pow10) simp
    then show "unat (push_bit s (10 ^ n :: u64)) = ?P * ?S" using Suc.prems(2) fit(2) by (simp add: unat_push_bit)
    show "shl (kPow10 n) (int s) = Some (push_bit s (10 ^ n))" using Suc.prems(4) by (simp add: shl_int kPow10_def)
  qed
  show ?case
  proof (cases "push_bit s (ucast q) + p2 \<le> delta")
    case True
    then have le: "unat q * ?S + unat p2 \<le> unat delta" by (simp add: word_le_nat_alt tmp)
    have "unat delta \<le> unat q * ?S + unat p2 + d * (?P * ?S)" using Suc.prems(8) p1(1) by (simp add: algebra_simps)
    moreover have "d = (10 * D + d) mod 10" using d10 by simp
    moreover have "unat delta < unat q * ?S + unat p2 + (10 * D + d) * (?P * ?S)"
      using Suc.prems(8) p1(1) by (simp add: algebra_simps)
    ultimately obtain j where j: "j < 10 * D + d" "unat q * ?S + unat p2 + j * (?P * ?S) \<le> unat delta"
      "grisu_round (decimal (10 * D + d)) delta (push_bit s (ucast q) + p2) (push_bit s (10 ^ n)) wp = Some (decimal (10 * D + d - j))"
      using grisu_round_decimal [of "push_bit s (ucast q) + p2" delta "push_bit s (10 ^ n)" "10 * D + d" wp] le pos
      unfolding tmp tk by auto
    have "generated M (unat delta) s K (decimal (10 * D + d - j), K + int n)"
      unfolding generated_def
    proof (intro exI conjI disjI1)
      have "10 * D + d - j + j = 10 * D + d" using j(1) by simp
      then have "(10 * D + d) * (?P * ?S) = (10 * D + d - j) * (?P * ?S) + j * (?P * ?S)" by (metis add_mult_distrib)
      then show "M = (10 * D + d - j) * ?P * ?S + (unat q * ?S + unat p2 + j * (?P * ?S))"
        unfolding M by (simp add: algebra_simps)
    qed (use j D16 d10 in auto)
    then show ?thesis using True by (simp add: d_eq push q_def [symmetric] p1s tk j(3))
  next
    case False
    then have gt: "unat delta < unat q * ?S + unat p2" by (simp add: word_le_nat_alt tmp)
    show ?thesis
      using Suc.IH [OF M Suc.prems(2,3,4) _ p1(2) Suc.prems(7) gt] Suc.prems(5) pos False
      by (simp add: d_eq push q_def [symmetric] p1s)
  qed
qed

section \<open>The fractional part\<close>

lemma unat_and_one: "s < 64 \<Longrightarrow> unat (x AND (push_bit s 1 - 1) :: u64) = unat x mod 2 ^ s"
  using unat_and_mask [of x s] by (simp add: mask_eq_exp_minus_1 push_bit_eq_mult)

lemma digit_gen_frac_decimal:
  assumes "M * 10 ^ n = D * 2 ^ s + unat p2" "unat delta = delta0 * 10 ^ n" "unat delta \<le> unat p2" "unat p2 < 2 ^ s"
    "0 < D" "0 < delta0" "M < 10 ^ 16 * delta0" "s \<le> 60"
  shows "\<exists>r. digit_gen_frac p2 delta (push_bit s 1) (int s) wp (decimal D) (- int n) K = Some r \<and> generated M delta0 s K r"
  using assms(1-5)
proof (induction "2 ^ s - unat delta" arbitrary: n D p2 delta rule: less_induct)
  case less
  let ?S = "2 ^ s :: nat" and ?one = "push_bit s 1 :: u64"
  have s: "s < 64" "?S \<le> 2 ^ 60" using assms(8) power_increasing [of s 60 "2 :: nat"] by simp_all
  have u10: "unat (10 :: u64) = 10" by simp
  have p10: "unat (p2 * 10) = unat p2 * 10" "unat (delta * 10) = unat delta * 10"
    using s(2) less.prems(3,4) by (subst unat_mult_small; simp add: u10)+
  define d where "d = unat p2 * 10 div ?S"
  define q where "q = (p2 * 10) AND (?one - 1)"
  have q: "unat q = unat p2 * 10 mod ?S" unfolding q_def by (simp only: unat_and_one [OF s(1)] p10)
  have split: "unat p2 * 10 = d * ?S + unat q" "unat q < ?S" unfolding d_def q by (simp_all only: div_mult_mod_eq) simp
  have d10: "d < 10" unfolding d_def using less.prems(4) by (simp add: less_mult_imp_div_less)
  have shr: "shr (p2 * 10) (int s) = Some (drop_bit s (p2 * 10))" "unat (drop_bit s (p2 * 10)) mod 256 = d"
    using d10 by (simp_all only: shr_int [OF s(1)] unat_drop_bit p10 d_def [symmetric]) simp
  have one: "unat ?one = ?S" using s(2) by (subst unat_push_bit) simp_all
  have M: "M * 10 ^ Suc n = (10 * D + d) * ?S + unat q"
    using less.prems(1) split(1) by (simp add: algebra_simps)
  have D16: "D < 10 ^ 16"
  proof (rule few_digits)
    show "D * ?S \<le> M * 10 ^ n" using less.prems(1) by simp
    show "delta0 * 10 ^ n \<le> ?S" using less.prems(2-4) by simp
    have "M * 10 ^ n < 10 ^ 16 * delta0 * 10 ^ n" using assms(7) by (intro mult_strict_right_mono) simp_all
    then show "M * 10 ^ n < 10 ^ 16 * (delta0 * 10 ^ n)" by (simp only: mult.assoc)
  qed
  have push: "push_digit d (decimal D) = Some (decimal (10 * D + d))" by (rule push_decimal [OF d10 D16])
  have dl: "unat (delta * 10) = delta0 * 10 ^ Suc n" using less.prems(2) p10(2) by simp
  have pos: "0 < 10 * D + d" using less.prems(5) by simp
  show ?case
  proof (cases "q < delta * 10")
    case True
    then have lt: "unat q < unat (delta * 10)" by (simp only: word_less_nat_alt)
    have "unat (delta * 10) \<le> unat q + d * ?S" using less.prems(3) p10 split(1) by linarith
    moreover have "d * ?S < (10 * D + d) * ?S" using less.prems(5) by simp
    moreover have "d = (10 * D + d) mod 10" using d10 by simp
    moreover have "unat (delta * 10) < unat q + (10 * D + d) * ?S" using calculation(1,2) by linarith
    ultimately have r: "\<exists>j < 10 * D + d. grisu_round (decimal (10 * D + d)) (delta * 10) q ?one w = Some (decimal (10 * D + d - j)) \<and>
        unat q + j * ?S \<le> unat (delta * 10)" for w
      using grisu_round_decimal [of q "delta * 10" ?one "10 * D + d" w] lt pos unfolding one by (simp only: less_imp_le simp_thms) simp
    have "\<exists>w. digit_gen_frac p2 delta ?one (int s) wp (decimal D) (- int n) K =
        do { ds \<leftarrow> grisu_round (decimal (10 * D + d)) (delta * 10) q ?one w; Some (ds, K + (- int n - 1)) }"
      using True by (subst digit_gen_frac.simps)
        (simp only: Let_def shr Option.bind.simps push q_def [symmetric] if_True, rule exI, rule refl)
    then obtain w where w: "digit_gen_frac p2 delta ?one (int s) wp (decimal D) (- int n) K =
        do { ds \<leftarrow> grisu_round (decimal (10 * D + d)) (delta * 10) q ?one w; Some (ds, K + (- int n - 1)) }" by blast
    obtain j where j: "j < 10 * D + d" "unat q + j * ?S \<le> unat (delta * 10)"
      "grisu_round (decimal (10 * D + d)) (delta * 10) q ?one w = Some (decimal (10 * D + d - j))"
      using r [of w] by blast
    have "generated M delta0 s K (decimal (10 * D + d - j), K + (- int n - 1))"
      unfolding generated_def
    proof (intro exI conjI disjI2)
      show "snd (decimal (10 * D + d - j), K + (- int n - 1)) = K - int (Suc n)" by simp
      have "10 * D + d - j + j = 10 * D + d" using j(1) by simp
      then have "(10 * D + d) * ?S = (10 * D + d - j) * ?S + j * ?S" by (metis add_mult_distrib)
      then show "M * 10 ^ Suc n = (10 * D + d - j) * ?S + (unat q + j * ?S)" unfolding M by simp
    qed (use j D16 d10 dl in auto)
    then show ?thesis unfolding w j(3) by simp
  next
    case False
    then have ge: "unat (delta * 10) \<le> unat q" by (simp only: word_less_nat_alt not_less)
    have "0 < unat delta" using less.prems(2) assms(6) by simp
    then have "2 ^ s - unat (delta * 10) < 2 ^ s - unat delta" using ge split(2) p10(2) by linarith
    from less.hyps [OF this M dl ge split(2) pos]
    have "\<exists>r. digit_gen_frac q (delta * 10) ?one (int s) wp (decimal (10 * D + d)) (- int (Suc n)) K = Some r \<and>
      generated M delta0 s K r" .
    moreover have "digit_gen_frac p2 delta ?one (int s) wp (decimal D) (- int n) K =
        digit_gen_frac q (delta * 10) ?one (int s) wp (decimal (10 * D + d)) (- int (Suc n)) K"
    proof -
      have "- int (Suc n) = - int n - 1" by simp
      then show ?thesis
        using False by (subst digit_gen_frac.simps)
          (simp only: Let_def shr Option.bind.simps push q_def [symmetric] if_False)
    qed
    ultimately show ?thesis by simp
  qed
qed

section \<open>The generator\<close>

lemma dec_count: "v \<noteq> 0 \<Longrightarrow> unat v < 10 ^ dec_count_u32 v \<and> 10 ^ dec_count_u32 v \<le> 10 * unat v \<and> dec_count_u32 v \<le> 10"
  using unsigned_less [of v, where 'a = nat] unat_gt_0 [of v]
  by (simp add: dec_count_u32_def word_less_nat_alt)

lemma digit_gen_ok:
  assumes "de Mp = - int s" "32 \<le> s" "s \<le> 60" "2 ^ s \<le> unat (df Mp)" "unat delta < unat (df Mp)" "0 < unat delta"
    "unat (df Mp) < 10 ^ 16 * unat delta"
  shows "\<exists>r. digit_gen W Mp delta K = Some r \<and> generated (unat (df Mp)) (unat delta) s K r"
proof -
  let ?M = "unat (df Mp)" and ?S = "2 ^ s :: nat"
  define p1 where "p1 = (ucast (drop_bit s (df Mp)) :: u32)"
  define p2 where "p2 = df Mp AND (push_bit s 1 - 1)"
  have s: "s < 64" using assms(3) by simp
  have "?M div ?S < 2 ^ 32"
  proof -
    have "?M < 2 ^ 32 * 2 ^ 32" using unat_u64 [of "df Mp"] by simp
    also have "\<dots> \<le> 2 ^ 32 * ?S" using assms(2) by (intro mult_left_mono power_increasing) auto
    finally show ?thesis by (simp add: less_mult_imp_div_less)
  qed
  then have p1: "unat p1 = ?M div ?S"
    by (simp add: p1_def unsigned_ucast_eq unat_drop_bit take_bit_nat_eq_self)
  have p2: "unat p2 = ?M mod ?S" unfolding p2_def by (rule unat_and_one [OF s])
  have "p1 \<noteq> 0" using p1 assms(4) by (auto simp: div_eq_0_iff)
  from dec_count [OF this] have c: "unat p1 < 10 ^ dec_count_u32 p1" "10 ^ dec_count_u32 p1 \<le> 10 * unat p1" "dec_count_u32 p1 \<le> 10"
    by simp_all
  have M: "?M = (0 * 10 ^ dec_count_u32 p1 + unat p1) * ?S + unat p2" unfolding p1 p2 by (simp only: mult_0 add_0 div_mult_mod_eq)
  have M64: "?M < 2 ^ 64" using unat_u64 [of "df Mp"] by simp
  have p2_less: "unat p2 < ?S" unfolding p2 by simp
  have above: "unat delta < unat p1 * ?S + unat p2" using assms(5) unfolding p1 p2 div_mult_mod_eq .
  obtain r where r: "digit_gen_int (dec_count_u32 p1) p1 p2 delta (int s) (df (diy_subtract Mp W)) (decimal 0) K = Some r"
    "case r of Inl res \<Rightarrow> generated ?M (unat delta) s K res
     | Inr ds \<Rightarrow> \<exists>D'. ds = decimal D' \<and> 0 < D' \<and> ?M = D' * ?S + unat p2 \<and> unat delta < unat p2"
    using digit_gen_int_decimal [OF M M64 assms(7,3) c(3,1) p2_less above _, of "df (diy_subtract Mp W)" K] c(2) by blast
  have gen: "digit_gen W Mp delta K = (case r of Inl res \<Rightarrow> Some res
     | Inr ds \<Rightarrow> digit_gen_frac p2 delta (push_bit s 1) (int s) (df (diy_subtract Mp W)) ds 0 K)"
    using r(1) by (simp only: digit_gen_def assms(1) minus_minus shl_int [OF s] shr_int [OF s] p1_def [symmetric]
        p2_def [symmetric] Let_def Option.bind.simps decimal_0)
  show ?thesis
  proof (cases r)
    case (Inl res)
    then show ?thesis using gen r(2) by simp
  next
    case (Inr ds)
    then obtain D where D: "ds = decimal D" "0 < D" "?M = D * ?S + unat p2" "unat delta < unat p2" using r(2) by auto
    show ?thesis
      using digit_gen_frac_decimal [of ?M 0 D s p2 delta "unat delta" "df (diy_subtract Mp W)" K] D assms(3,6,7) p2_less gen Inr by simp
  qed
qed

end
