(* ===== verification/Elog_Powers.thy ===== *)
theory Elog_Powers
  imports Complex_Main Elog_Diy
begin

text \<open>
  The table of cached powers in \<open>src/grisu2.cpp\<close> and the index that \<open>cached_power\<close> computes in floating
  point: every entry is a power of ten rounded to 64 bits, and for the exponents of doubles the chosen
  one brings the product into the range the digit generation needs.
\<close>

section \<open>Every entry is within half a unit of its power of ten\<close>

text \<open>
  The checks go through the table from the middle outwards with an interval around the power of ten, or
  its inverse: between \<open>lo * 2 ^ t\<close> and \<open>hi * 2 ^ t\<close>, of about 110 bits.
\<close>

fun powers_up :: "int \<Rightarrow> int \<Rightarrow> int \<Rightarrow> (u64 \<times> int) list \<Rightarrow> bool" where
  "powers_up lo hi t [] = True"
| "powers_up lo hi t ((f, e) # fes) =
     (t < e \<and> (2 * uint f - 1) * 2 ^ nat (e - 1 - t) \<le> lo \<and> hi \<le> (2 * uint f + 1) * 2 ^ nat (e - 1 - t) \<and>
      powers_up (lo * 100000000 div 67108864) (hi * 100000000 div 67108864 + 1) (t + 26) fes)"

fun powers_down :: "int \<Rightarrow> int \<Rightarrow> int \<Rightarrow> (u64 \<times> int) list \<Rightarrow> bool" where
  "powers_down lo hi t [] = True"
| "powers_down lo hi t ((f, e) # fes) =
     (t + e \<le> 1 \<and> 1 \<le> uint f \<and> (2 * uint f - 1) * hi \<le> 2 ^ nat (1 - t - e) \<and> 2 ^ nat (1 - t - e) \<le> (2 * uint f + 1) * lo \<and>
      powers_down (lo * 100000000 div 67108864) (hi * 100000000 div 67108864 + 1) (t + 26) fes)"

text \<open>\<open>f\<close> with exponent \<open>e\<close> is \<open>x\<close> up to half a unit in the last place.\<close>

definition rounds :: "u64 \<Rightarrow> int \<Rightarrow> real \<Rightarrow> bool" where
  "rounds f e x \<longleftrightarrow> (2 * real_of_int (uint f) - 1) * 2 powi (e - 1) \<le> x \<and> x \<le> (2 * real_of_int (uint f) + 1) * 2 powi (e - 1)"

lemma powi_split: "0 \<le> n \<Longrightarrow> (2 :: real) powi (n + t) = 2 ^ nat n * 2 powi t"
  using power_int_add [of "2 :: real" n t] by (simp add: power_int_def [of _ n])

lemma interval_step:
  fixes p :: real
  assumes "real_of_int lo * 2 powi t \<le> p" "p \<le> real_of_int hi * 2 powi t"
  shows "real_of_int (lo * 100000000 div 67108864) * 2 powi (t + 26) \<le> p * 100000000"
    "p * 100000000 \<le> real_of_int (hi * 100000000 div 67108864 + 1) * 2 powi (t + 26)"
proof -
  have w: "(2 :: real) powi (t + 26) = 67108864 * 2 powi t" by (simp add: power_int_add)
  have "lo * 100000000 div 67108864 * 67108864 \<le> lo * 100000000"
    "hi * 100000000 \<le> (hi * 100000000 div 67108864 + 1) * 67108864"
    using div_mult_mod_eq [of "lo * 100000000" 67108864] div_mult_mod_eq [of "hi * 100000000" 67108864]
      pos_mod_sign [of 67108864 "lo * 100000000"] pos_mod_bound [of 67108864 "hi * 100000000"]
    unfolding distrib_right by linarith+
  then have "real_of_int (lo * 100000000 div 67108864) * 67108864 \<le> real_of_int lo * 100000000"
    "real_of_int hi * 100000000 \<le> real_of_int (hi * 100000000 div 67108864 + 1) * 67108864"
    by linarith+
  then have "real_of_int (lo * 100000000 div 67108864) * 67108864 * 2 powi t \<le> real_of_int lo * 100000000 * 2 powi t"
    "real_of_int hi * 100000000 * 2 powi t \<le> real_of_int (hi * 100000000 div 67108864 + 1) * 67108864 * 2 powi t"
    by (intro mult_right_mono; simp)+
  then show "real_of_int (lo * 100000000 div 67108864) * 2 powi (t + 26) \<le> p * 100000000"
    "p * 100000000 \<le> real_of_int (hi * 100000000 div 67108864 + 1) * 2 powi (t + 26)"
    using assms unfolding w by linarith+
qed

lemma powers_up_rounds:
  assumes "powers_up lo hi t fes" "real_of_int lo * 2 powi t \<le> p" "p \<le> real_of_int hi * 2 powi t" "i < length fes"
  shows "rounds (fst (fes ! i)) (snd (fes ! i)) (p * 100000000 ^ i)"
  using assms
proof (induction lo hi t fes arbitrary: p i rule: powers_up.induct)
  case (2 lo hi t f e fes)
  have c: "t < e" "(2 * uint f - 1) * 2 ^ nat (e - 1 - t) \<le> lo" "hi \<le> (2 * uint f + 1) * 2 ^ nat (e - 1 - t)"
    "powers_up (lo * 100000000 div 67108864) (hi * 100000000 div 67108864 + 1) (t + 26) fes"
    using "2.prems"(1) by simp_all
  show ?case
  proof (cases i)
    case 0
    have w: "(2 :: real) powi (e - 1) = 2 ^ nat (e - 1 - t) * 2 powi t" using powi_split [of "e - 1 - t" t] c(1) by simp
    have "real_of_int ((2 * uint f - 1) * 2 ^ nat (e - 1 - t)) * 2 powi t \<le> real_of_int lo * 2 powi t"
      "real_of_int hi * 2 powi t \<le> real_of_int ((2 * uint f + 1) * 2 ^ nat (e - 1 - t)) * 2 powi t"
      using c(2,3) by (intro mult_right_mono of_int_le_iff [THEN iffD2]; simp)+
    then have "real_of_int ((2 * uint f - 1) * 2 ^ nat (e - 1 - t)) * 2 powi t \<le> p"
      "p \<le> real_of_int ((2 * uint f + 1) * 2 ^ nat (e - 1 - t)) * 2 powi t"
      using "2.prems"(2,3) by linarith+
    then show ?thesis using 0 by (simp add: rounds_def w mult.assoc)
  next
    case (Suc j)
    then show ?thesis
      using "2.IH" [OF c(4) interval_step [OF "2.prems"(2,3)], of j] "2.prems"(4) by (simp add: mult.assoc)
  qed
qed simp

lemma powers_down_rounds:
  assumes "powers_down lo hi t fes" "real_of_int lo * 2 powi t \<le> p" "p \<le> real_of_int hi * 2 powi t" "i < length fes" "0 < p"
  shows "rounds (fst (fes ! i)) (snd (fes ! i)) (1 / (p * 100000000 ^ i))"
  using assms
proof (induction lo hi t fes arbitrary: p i rule: powers_down.induct)
  case (2 lo hi t f e fes)
  have c: "t + e \<le> 1" "1 \<le> uint f" "(2 * uint f - 1) * hi \<le> 2 ^ nat (1 - t - e)" "2 ^ nat (1 - t - e) \<le> (2 * uint f + 1) * lo"
    "powers_down (lo * 100000000 div 67108864) (hi * 100000000 div 67108864 + 1) (t + 26) fes"
    using "2.prems"(1) by simp_all
  show ?case
  proof (cases i)
    case 0
    have w: "2 ^ nat (1 - t - e) * 2 powi t * 2 powi (e - 1) = (1 :: real)"
      using powi_split [of "1 - t - e" t] c(1) power_int_add [of "2 :: real" "1 - e" "e - 1"] by simp
    define u v where "u = (2 :: real) powi t" and "v = (2 :: real) powi (e - 1)"
    define a b where "a = real_of_int (2 * uint f - 1)" and "b = real_of_int (2 * uint f + 1)"
    define n where "n = (2 :: real) ^ nat (1 - t - e)"
    have pos: "0 \<le> u" "0 \<le> v" "0 \<le> a" "0 \<le> b" using c(2) unfolding u_def v_def a_def b_def of_int_0_le_iff by (simp, simp, linarith, linarith)
    have le: "a * real_of_int hi \<le> n" "n \<le> b * real_of_int lo"
      using c(3,4) unfolding a_def b_def n_def by (metis of_int_le_iff of_int_mult of_int_power of_int_numeral)+
    have 1: "n * u * v = 1" using w by (simp add: n_def u_def v_def)
    have "a * real_of_int hi * (u * v) \<le> n * (u * v)" "n * (u * v) \<le> b * real_of_int lo * (u * v)"
      using le pos by (simp_all add: mult_right_mono)
    moreover have "a * v * p \<le> a * v * (real_of_int hi * u)" "b * v * (real_of_int lo * u) \<le> b * v * p"
      using "2.prems"(2,3) pos unfolding u_def [symmetric] by (simp_all add: mult_left_mono)
    moreover have "a * v * (real_of_int hi * u) = a * real_of_int hi * (u * v)" "b * v * (real_of_int lo * u) = b * real_of_int lo * (u * v)"
      by (simp_all only: mult_ac)
    ultimately have "a * v * p \<le> 1" "1 \<le> b * v * p" using 1 by (simp_all only: mult.assoc)
    then show ?thesis using 0 "2.prems"(5) by (simp add: rounds_def pos_le_divide_eq pos_divide_le_eq a_def b_def v_def)
  next
    case (Suc j)
    then show ?thesis
      using "2.IH" [OF c(5) interval_step [OF "2.prems"(2,3)], of j] "2.prems"(4,5) by (simp add: mult.assoc)
  qed
qed simp

lemma table_up: "powers_up (10000 * 2 ^ 90) (10000 * 2 ^ 90) (- 90) (drop 44 (zip kCachedPowersF kCachedPowersE))"
  by code_simp

lemma table_down: "powers_down (10000 * 2 ^ 90) (10000 * 2 ^ 90) (- 90) (rev (take 44 (zip kCachedPowersF kCachedPowersE)))"
  by code_simp

lemma table_length: "length kCachedPowersF = 87" "length kCachedPowersE = 87"
  by (simp_all add: kCachedPowersF_def kCachedPowersE_def)

lemma table_top: "i < 87 \<Longrightarrow> 2 ^ 63 \<le> kCachedPowersF ! i"
proof -
  have "list_all (\<lambda>f. 2 ^ 63 \<le> f) kCachedPowersF" by code_simp
  then show "i < 87 \<Longrightarrow> 2 ^ 63 \<le> kCachedPowersF ! i" by (simp add: list_all_length table_length)
qed

lemma table_start: "real_of_int (10000 * 2 ^ 90) * 2 powi (- 90) = 10000"
  by (simp add: power_int_minus)

lemma powi_10_8: "(10 :: real) powi (k + 8 * int n) = 10 powi k * 100000000 ^ n"
proof -
  have "(10 :: real) powi (8 * int n) = (10 powi 8) powi int n" by (rule power_int_mult)
  then show ?thesis by (simp add: power_int_add)
qed

lemma table_rounds:
  assumes "i < 87"
  shows "rounds (kCachedPowersF ! i) (kCachedPowersE ! i) (10 powi (8 * int i - 348))"
proof (cases "44 \<le> i")
  case True
  have "rounds (kCachedPowersF ! i) (kCachedPowersE ! i) (10000 * 100000000 ^ (i - 44))"
    using powers_up_rounds [OF table_up, of 10000 "i - 44"] assms True by (simp add: table_length table_start del: of_int_mult of_int_power)
  moreover have "(10 :: real) powi (8 * int i - 348) = 10000 * 100000000 ^ (i - 44)"
    using powi_10_8 [of 4 "i - 44"] True by (simp add: of_nat_diff)
  ultimately show ?thesis by simp
next
  case False
  have "rounds (kCachedPowersF ! i) (kCachedPowersE ! i) (1 / (10000 * 100000000 ^ (43 - i)))"
    using powers_down_rounds [OF table_down, of 10000 "43 - i"] False by (simp add: table_length table_start rev_nth del: of_int_mult of_int_power)
  moreover have "(10 :: real) powi (8 * int i - 348) = 1 / (10000 * 100000000 ^ (43 - i))"
  proof -
    have e: "8 * int i - 348 = - (4 + 8 * int (43 - i))" using False by simp
    have "(10 :: real) powi 4 = 10000" by simp
    then show ?thesis unfolding e power_int_minus powi_10_8 by (simp only: inverse_eq_divide)
  qed
  ultimately show ?thesis by simp
qed

section \<open>The index\<close>

lemma bit_length_le: "n < 2 ^ k \<Longrightarrow> bit_length n \<le> k"
proof (induction k arbitrary: n)
  case 0
  then show ?case by (simp add: bit_length.simps)
next
  case (Suc k)
  then have "n div 2 < 2 ^ k" by simp
  then show ?case using Suc.IH by (simp add: bit_length.simps [of n])
qed

lemma round_shift_error: "\<bar>round_shift m d * 2 ^ d - m\<bar> \<le> 2 ^ d"
proof -
  define P q r where "P = (2 :: int) ^ d" and "q = m div P" and "r = m mod P"
  have "0 < P" by (simp add: P_def)
  then have r: "0 \<le> r" "r < P" "q * P + r = m" by (simp_all add: q_def r_def)
  have "round_shift m d = q + 1 \<or> round_shift m d = q" by (simp add: round_shift_def Let_def q_def P_def)
  then show ?thesis using r by (auto simp: P_def [symmetric] distrib_right)
qed

lemma fl53_error:
  assumes "\<bar>m\<bar> < 2 ^ (53 + b)"
  shows "\<bar>fl53 m - m\<bar> \<le> 2 ^ b"
proof -
  define d where "d = bit_length \<bar>m\<bar> - 53"
  have "d \<le> b" using bit_length_le [OF assms] by (simp add: d_def)
  then have "(2 :: int) ^ d \<le> 2 ^ b" by (simp add: power_increasing)
  then show ?thesis
    using order_trans [OF round_shift_error [of m d]] by (simp add: fl53_def Let_def d_def [symmetric])
qed

lemma cached_dk_error:
  assumes "- 1137 \<le> e" "e \<le> 960"
  shows "\<bar>cached_dk e - ((- 61 - e) * 5422874305198590 + 347 * 18014398509481984)\<bar> \<le> 8192"
proof -
  let ?m = "(- 61 - e) * 5422874305198590"
  have "\<bar>?m\<bar> < 2 ^ (53 + 11)" using assms by simp
  from fl53_error [OF this] have 1: "\<bar>fl53 ?m - ?m\<bar> \<le> 2048" by simp
  moreover have "\<bar>fl53 ?m + 347 * 2 ^ 54\<bar> < 2 ^ (53 + 12)" using 1 assms by simp
  from fl53_error [OF this] have "\<bar>fl53 (fl53 ?m + 347 * 2 ^ 54) - (fl53 ?m + 347 * 2 ^ 54)\<bar> \<le> 4096" by simp
  ultimately show ?thesis unfolding cached_dk_def by simp
qed

lemma power_54: "(2 :: int) ^ 54 = 18014398509481984"
  by simp

lemma cached_index_bounds:
  assumes "- 1137 \<le> e" "e \<le> 960"
  defines "i \<equiv> cached_index e"
  shows "0 \<le> i" "i < 87"
    "18014398509481984 * (8 * i - 356) - 8192 < (- 61 - e) * 5422874305198590"
    "(- 61 - e) * 5422874305198590 \<le> 18014398509481984 * (8 * i - 348) + 8192"
proof -
  let ?A = "(- 61 - e) * 5422874305198590 :: int" and ?P = "18014398509481984 :: int"
  define dk where "dk = cached_dk e"
  have dk: "?A + 347 * ?P - 8192 \<le> dk" "dk \<le> ?A + 347 * ?P + 8192"
    using cached_dk_error [OF assms(1,2)] unfolding dk_def by linarith+
  then have "0 < dk" using assms(2) by simp
  then have sd: "dk sdiv ?P = dk div ?P" by (simp add: signed_divide_int_def)
  define k where "k = (if dk div ?P * ?P \<noteq> dk then dk div ?P + 1 else dk div ?P)"
  have "?P * (k - 1) < dk \<and> dk \<le> ?P * k"
    using div_mult_mod_eq [of dk ?P] pos_mod_sign [of ?P dk] pos_mod_bound [of ?P dk] unfolding k_def
    by (cases "dk div ?P * ?P = dk"; simp; linarith)
  then have k: "?P * (k - 1) < dk" "dk \<le> ?P * k" by simp_all
  define j where "j = k div 8 + 1"
  have j: "8 * (j - 1) \<le> k" "k \<le> 8 * j - 1" unfolding j_def by presburger+
  have "0 \<le> j" "j < 87" using j k dk assms(1,2) by simp_all
  then have "i = j"
    unfolding i_def cached_index_def Let_def dk_def [symmetric] power_54 sd k_def [symmetric] j_def [symmetric]
    by (simp add: kCachedPowersF_size_def)
  then show "0 \<le> i" "i < 87" "18014398509481984 * (8 * i - 356) - 8192 < ?A" "?A \<le> 18014398509481984 * (8 * i - 348) + 8192"
    using \<open>0 \<le> j\<close> \<open>j < 87\<close> j k dk by simp_all
qed

text \<open>The exponent of the product of a normalized boundary with the chosen power.\<close>

lemma table_range:
  "list_all (\<lambda>(i, e). 18014398509481984 * (8 * i - 348) + 8192 < (64 + e) * 5422874305198590 \<and>
     (34 + e) * 5422874305198590 \<le> 18014398509481984 * (8 * i - 356) - 8192) (zip [0 .. 86] kCachedPowersE)"
  by code_simp

lemma cached_exponent:
  assumes "- 1137 \<le> e" "e \<le> 960"
  shows "- 60 \<le> e + kCachedPowersE ! nat (cached_index e) + 64" "e + kCachedPowersE ! nat (cached_index e) + 64 \<le> - 32"
proof -
  note b = cached_index_bounds [OF assms]
  define i E where "i = cached_index e" and "E = kCachedPowersE ! nat (cached_index e)"
  have "18014398509481984 * (8 * i - 348) + 8192 < (64 + E) * 5422874305198590" "(34 + E) * 5422874305198590 \<le> 18014398509481984 * (8 * i - 356) - 8192"
    using table_range b(1,2) unfolding list_all_length i_def E_def by (auto simp: table_length dest!: spec [of _ "nat (cached_index e)"])
  then have "(- 61 - e) * 5422874305198590 < (64 + E) * 5422874305198590" "(34 + E) * 5422874305198590 < (- 61 - e) * 5422874305198590"
    using b(3,4) unfolding i_def [symmetric] by simp_all
  then show "- 60 \<le> e + kCachedPowersE ! nat (cached_index e) + 64" "e + kCachedPowersE ! nat (cached_index e) + 64 \<le> - 32"
    unfolding E_def [symmetric] by simp_all
qed

end
