(* ===== verification/Elog_Grisu_Laws.thy ===== *)
theory Elog_Grisu_Laws
  imports Elog_Digits Elog_Powers
begin

text \<open>
  Correctness of \<open>grisu2\<close> (\<open>src/grisu2.cpp\<close>): for every positive finite double it returns at most 17
  digits and an exponent, and the decimal number they stand for lies strictly less than half a unit in
  the last place away from the double.
\<close>

section \<open>The boundaries\<close>

text \<open>The binary significand and exponent of a positive double, from its bits read as a number.\<close>

definition significand :: "nat \<Rightarrow> nat" where
  "significand n = (if n div 2 ^ 52 = 0 then n mod 2 ^ 52 else n mod 2 ^ 52 + 2 ^ 52)"

definition exponent2 :: "nat \<Rightarrow> int" where
  "exponent2 n = (if n div 2 ^ 52 = 0 then - 1074 else int (n div 2 ^ 52) - 1075)"

lemma double_to_diy_fields:
  assumes "unat bits < 2 ^ 63"
  shows "unat (df (double_to_diy bits)) = significand (unat bits)" "de (double_to_diy bits) = exponent2 (unat bits)"
proof -
  have "unat bits div 2 ^ 52 < 2 ^ 11" using assms by (simp add: less_mult_imp_div_less)
  moreover have "unat (drop_bit 52 bits AND 0x7FF) = unat (drop_bit 52 bits) mod 2 ^ 11"
    using unat_and_mask [of "drop_bit 52 bits" 11] by (simp add: mask_eq_exp_minus_1)
  ultimately have e: "unat (drop_bit 52 bits AND 0x7FF) = unat bits div 2 ^ 52" by (simp add: unat_drop_bit)
  have s: "unat (bits AND 0x000FFFFFFFFFFFFF) = unat bits mod 2 ^ 52"
    using unat_and_mask [of bits 52] by (simp add: mask_eq_exp_minus_1)
  have "unat bits mod 2 ^ 52 < 2 ^ 52" by simp
  then have "unat ((bits AND 0x000FFFFFFFFFFFFF) + 0x0010000000000000) = unat bits mod 2 ^ 52 + 2 ^ 52"
    by (subst unat_add_small) (simp_all add: s)
  moreover have "uint (drop_bit 52 bits AND 0x7FF) = int (unat bits div 2 ^ 52)" by (simp only: e [symmetric] uint_nat)
  ultimately show "unat (df (double_to_diy bits)) = significand (unat bits)" "de (double_to_diy bits) = exponent2 (unat bits)"
    using s by (auto simp: double_to_diy_def significand_def exponent2_def Let_def)
qed

lemma significand_bounds: "0 < n \<Longrightarrow> 0 < significand n \<and> significand n < 2 ^ 53"
proof -
  have "n mod 2 ^ 52 < 2 ^ 52" by simp
  then show "0 < n \<Longrightarrow> 0 < significand n \<and> significand n < 2 ^ 53" by (auto simp: significand_def div_eq_0_iff)
qed

lemma exponent2_bounds: "n < 2047 * 2 ^ 52 \<Longrightarrow> - 1074 \<le> exponent2 n \<and> exponent2 n \<le> 971"
proof -
  assume "n < 2047 * 2 ^ 52"
  then have "n div 2 ^ 52 < 2047" by (simp add: less_mult_imp_div_less)
  then show ?thesis by (auto simp: exponent2_def)
qed

text \<open>
  The boundaries after normalization: the distance is at least 1536 units and \<open>2 ^ -53\<close> of the upper one;
  the lower one is half a unit in the last place below the double, or nearer.
\<close>

lemma boundaries:
  assumes "0 < unat bits" "unat bits < 2047 * 2 ^ 52"
  defines "f \<equiv> significand (unat bits)" and "e \<equiv> exponent2 (unat bits)"
  shows "\<exists>mi pl j. normalized_boundaries bits = Some (mi, pl) \<and> 10 \<le> j \<and> j \<le> 62 \<and>
    de mi = e - 1 - int j \<and> de pl = e - 1 - int j \<and> unat (df pl) = (2 * f + 1) * 2 ^ j \<and> 2 ^ 63 \<le> unat (df pl) \<and>
    (2 * f - 1) * 2 ^ j \<le> unat (df mi) \<and>
    unat (df mi) + 1536 \<le> unat (df pl) \<and> unat (df pl) + 2 ^ 53 * unat (df mi) \<le> 2 ^ 53 * unat (df pl)"
proof -
  define w where "w = double_to_diy bits"
  have w: "unat (df w) = f" "de w = e"
    using double_to_diy_fields [of bits] assms(2) by (simp_all add: w_def f_def e_def)
  have f: "0 < f" "f < 2 ^ 53" using significand_bounds [OF assms(1)] by (simp_all add: f_def)
  have two: "unat (push_bit 1 (df w)) = 2 * f" using f(2) unat_push_bit [of "df w" 1] by (simp add: w)
  have up: "unat (push_bit 1 (df w) + 1) = 2 * f + 1" using f(2) by (subst unat_add_small) (simp_all only: two, simp_all)
  obtain j pl where pl: "diy_normalize_boundary (DiyFp (push_bit 1 (df w) + 1) (e - 1)) = Some pl"
    "unat (df pl) = (2 * f + 1) * 2 ^ j" "de pl = e - 1 - int j" "2 ^ 63 \<le> unat (df pl)"
  proof -
    have "0 < 2 * f + 1" "2 * f + 1 < 2 ^ 63" using f(2) by simp_all
    from diy_normalize_boundary_ok [of "DiyFp (push_bit 1 (df w) + 1) (e - 1)", unfolded DiyFp_sel up, OF this]
    show ?thesis using that unfolding shifted_def DiyFp_sel up by blast
  qed
  have less: "(2 * f + 1) * 2 ^ j < 2 ^ 64" using unat_u64 [of "df pl"] pl(2) by simp
  have j10: "10 \<le> j"
  proof (rule ccontr)
    assume "\<not> 10 \<le> j"
    then have "(2 :: nat) ^ j \<le> 2 ^ 9" by (intro power_increasing) auto
    then have "(2 * f + 1) * 2 ^ j \<le> (2 * 2 ^ 53 - 1) * 2 ^ 9" using f(2) by (intro mult_le_mono) auto
    then show False using pl(2,4) by simp
  qed
  have j62: "j \<le> 62"
  proof (rule ccontr)
    assume "\<not> j \<le> 62"
    then have "3 * 2 ^ 63 \<le> (2 * f + 1) * 2 ^ j" using f(1) by (intro mult_le_mono power_increasing) auto
    then show False using less by simp
  qed
  have J: "(2 :: nat) ^ 10 \<le> 2 ^ j" using j10 by (intro power_increasing) auto
  show ?thesis
  proof (cases "bits = 0x0010000000000000")
    case False
    have lo: "unat (push_bit 1 (df w) - 1) = 2 * f - 1"
      using f(1) by (subst unat_sub) (simp_all only: two word_le_nat_alt, simp_all)
    have fit: "(2 * f - 1) * 2 ^ j < 2 ^ 64" using le_less_trans [OF mult_le_mono1 less] by simp
    define mi where "mi = DiyFp (push_bit j (push_bit 1 (df w) - 1)) (de pl)"
    have "normalized_boundaries bits = Some (mi, pl)"
      using False pl(1,3) j62 by (simp add: normalized_boundaries_def w_def [symmetric] w Let_def shl_def mi_def del: push_bit_of_1)
    moreover have mi: "unat (df mi) = (2 * f - 1) * 2 ^ j" "de mi = e - 1 - int j"
      using unat_push_bit [of "push_bit 1 (df w) - 1" j] fit unfolding mi_def DiyFp_sel lo pl(3) by simp_all
    moreover have "unat (df mi) + 1536 \<le> unat (df pl)" "unat (df pl) + 2 ^ 53 * unat (df mi) \<le> 2 ^ 53 * unat (df pl)"
    proof -
      have d: "unat (df mi) + 2 * 2 ^ j = unat (df pl)"
        unfolding mi pl(2) using f(1) by (cases f) (simp_all add: algebra_simps)
      then show "unat (df mi) + 1536 \<le> unat (df pl)" using J by simp
      have "unat (df pl) \<le> 2 ^ 54 * 2 ^ j" unfolding pl(2) using f(2) by (intro mult_right_mono) simp_all
      then show "unat (df pl) + 2 ^ 53 * unat (df mi) \<le> 2 ^ 53 * unat (df pl)" using d by simp
    qed
    ultimately show ?thesis using pl j10 j62 by (metis order_refl)
  next
    case True
    then have fe: "f = 2 ^ 52" "e = - 1074" by (simp_all add: f_def e_def significand_def exponent2_def)
    have j: "j = 10"
    proof (rule ccontr)
      assume "j \<noteq> 10"
      then have "(2 :: nat) ^ 11 \<le> 2 ^ j" using j10 by (intro power_increasing) auto
      then show False using less by (simp add: fe)
    qed
    have w4: "df w = 0x0010000000000000" using w(1) fe(1) by (simp add: word_unat_eq_iff)
    define mi where "mi = DiyFp (push_bit 9 (push_bit 2 (df w) - 1)) (de pl)"
    have "normalized_boundaries bits = Some (mi, pl)"
      using True pl(1,3) j unfolding normalized_boundaries_def Let_def w_def [symmetric] w fe
      by (simp add: shl_def mi_def del: push_bit_of_1)
    moreover have "unat (df mi) = (2 ^ 54 - 1) * 2 ^ 9" "de mi = de pl" by (simp_all add: mi_def w4)
    ultimately show ?thesis using pl j fe by (intro exI [of _ mi] exI [of _ pl] exI [of _ j]) simp
  qed
qed

section \<open>The scaled boundaries\<close>

text \<open>
  \<open>A\<close> and \<open>B\<close> are the exact products of the upper and the lower boundary with the cached power, \<open>P\<close> and \<open>Q\<close>
  their roundings. Stepping one unit inside keeps a wide enough interval.
\<close>

lemma inner_interval:
  fixes A B P Q :: nat
  assumes "P * 2 ^ 64 \<le> A + 2 ^ 63" "A < P * 2 ^ 64 + 2 ^ 63" "Q * 2 ^ 64 \<le> B + 2 ^ 63" "B < Q * 2 ^ 64 + 2 ^ 63"
    "B + 768 * 2 ^ 64 \<le> A" "A + 2 ^ 53 * B \<le> 2 ^ 53 * A" "2 ^ 126 \<le> A"
  shows "Q + 2 < P" "2 ^ 60 \<le> P - 1" "P - 1 < 10 ^ 16 * (P - 1 - (Q + 1))"
  using assms by simp_all

lemmas of_nat_push = of_nat_mult of_nat_add of_nat_power of_nat_numeral

text \<open>The decimal number of a digit generation, scaled as its input was.\<close>

lemma generated_bounds:
  assumes "generated M delta s K (ds, K')" "delta \<le> M"
  shows "\<exists>D. ds = radix_str 10 D \<and> 0 < D \<and> D < 10 ^ 17 \<and>
    real (M - delta) \<le> real D * 10 powi (K' - K) * 2 ^ s \<and> real D * 10 powi (K' - K) * 2 ^ s \<le> real M"
proof -
  from assms(1) obtain D rest where D: "ds = decimal D" "0 < D" "D < 10 ^ 17"
    and "(\<exists>n. K' = K + int n \<and> M = D * 10 ^ n * 2 ^ s + rest \<and> rest \<le> delta) \<or>
      (\<exists>n. K' = K - int n \<and> M * 10 ^ n = D * 2 ^ s + rest \<and> rest \<le> delta * 10 ^ n)"
    unfolding generated_def fst_conv snd_conv by blast
  then consider n where "K' = K + int n" "M = D * 10 ^ n * 2 ^ s + rest" "rest \<le> delta"
    | n where "K' = K - int n" "M * 10 ^ n = D * 2 ^ s + rest" "rest \<le> delta * 10 ^ n" by blast
  then have "real (M - delta) \<le> real D * 10 powi (K' - K) * 2 ^ s \<and> real D * 10 powi (K' - K) * 2 ^ s \<le> real M"
  proof cases
    case 1
    then show ?thesis using assms(2) by (simp add: power_int_def of_nat_diff)
  next
    case 2
    have "real (M * 10 ^ n) = real (D * 2 ^ s + rest)" "real rest \<le> real (delta * 10 ^ n)"
      using 2(2,3) by (simp_all only: of_nat_le_iff)
    then have "real M * 10 ^ n = real D * 2 ^ s + real rest" "real rest \<le> real delta * 10 ^ n"
      by (simp_all only: of_nat_push)
    then have "(real M - real delta) * 10 ^ n \<le> real D * 2 ^ s" "real D * 2 ^ s \<le> real M * 10 ^ n"
      by (simp_all add: algebra_simps)
    moreover have "(10 :: real) powi (K' - K) = 1 / 10 ^ n" using 2(1) by (simp add: power_int_minus inverse_eq_divide)
    ultimately show ?thesis using assms(2) by (simp add: of_nat_diff pos_le_divide_eq pos_divide_le_eq)
  qed
  then show ?thesis using D by auto
qed

text \<open>
  Scaling back: \<open>c\<close> stands for a power of ten \<open>t\<close> with binary exponent \<open>E\<close>, \<open>x\<close> is the decimal in units of
  \<open>2 ^ - s\<close>, within the inner boundaries.
\<close>

lemma unit_facts:
  assumes "ep + E + 64 = - int s"
  defines "u \<equiv> (2 :: real) powi (ep + E - 1)"
  shows "0 < u" "2 ^ s * (2 ^ 65 * u) = 1" "u = 2 powi ep * 2 powi (E - 1)"
proof -
  have "2 ^ s * (2 ^ 65 * u) = 2 powi (int s + (65 + (ep + E - 1)))"
    unfolding u_def by (subst power_int_add, simp)+ simp
  also have "int s + (65 + (ep + E - 1)) = 0" using assms(1) by simp
  finally show "2 ^ s * (2 ^ 65 * u) = 1" by simp
  show "u = 2 powi ep * 2 powi (E - 1)" unfolding u_def using power_int_add [of "2 :: real" ep "E - 1"] by (simp add: add_diff_eq)
qed (simp add: u_def)

lemma scale_back:
  fixes x t :: real and y c P Q :: nat
  assumes t: "(2 * real c - 1) * 2 powi (E - 1) \<le> t" "t \<le> (2 * real c + 1) * 2 powi (E - 1)"
    and y: "y < 2 ^ 64" and e: "ep + E + 64 = - int s"
  shows "P * 2 ^ 64 \<le> y * c + 2 ^ 63 \<Longrightarrow> x * 2 ^ s \<le> real P - 1 \<Longrightarrow> x < real y * 2 powi ep * t"
    and "y * c < Q * 2 ^ 64 + 2 ^ 63 \<Longrightarrow> real Q + 1 \<le> x * 2 ^ s \<Longrightarrow> real y * 2 powi ep * t < x"
proof -
  define u where "u = (2 :: real) powi (ep + E - 1)"
  note u = unit_facts [OF e, folded u_def]
  have "real y < real (2 ^ 64)" using y by (simp only: of_nat_less_iff)
  then have yr: "real y < 2 ^ 64" by (simp only: of_nat_push)
  have x: "x = x * 2 ^ s * (2 ^ 65 * u)" using u(2) by (simp only: mult.assoc mult_1_right)
  have split: "(2 * (real y * real c) + k * real y) * u = real y * 2 powi ep * ((2 * real c + k) * 2 powi (E - 1))" for k
    unfolding u(3) by (simp add: algebra_simps)
  { assume P: "P * 2 ^ 64 \<le> y * c + 2 ^ 63" and le: "x * 2 ^ s \<le> real P - 1"
    have "real (P * 2 ^ 64) \<le> real (y * c + 2 ^ 63)" using P by (simp only: of_nat_le_iff)
    then have P: "real P * 2 ^ 64 \<le> real y * real c + 2 ^ 63" by (simp only: of_nat_push)
    have "x * 2 ^ s * (2 ^ 65 * u) \<le> (real P - 1) * (2 ^ 65 * u)" using le u(1) by (intro mult_right_mono) simp_all
    also have "\<dots> = (2 * (real P * 2 ^ 64) - 2 ^ 65) * u" by (simp add: algebra_simps)
    also have "\<dots> \<le> (2 * (real y * real c) - 2 ^ 64) * u" using P u(1) by (intro mult_right_mono) simp_all
    also have "\<dots> < (2 * (real y * real c) + (- 1) * real y) * u" using yr u(1) by (intro mult_strict_right_mono) simp_all
    also have "\<dots> \<le> real y * 2 powi ep * t" unfolding split using t(1) by (intro mult_left_mono) simp_all
    finally show "x < real y * 2 powi ep * t" by (simp only: x [symmetric]) }
  { assume Q: "y * c < Q * 2 ^ 64 + 2 ^ 63" and le: "real Q + 1 \<le> x * 2 ^ s"
    have "real (y * c) < real (Q * 2 ^ 64 + 2 ^ 63)" using Q by (simp only: of_nat_less_iff)
    then have Q: "real y * real c < real Q * 2 ^ 64 + 2 ^ 63" by (simp only: of_nat_push)
    have "real y * 2 powi ep * t \<le> (2 * (real y * real c) + 1 * real y) * u" unfolding split using t(2) by (intro mult_left_mono) simp_all
    also have "\<dots> < (2 * (real y * real c) + 2 ^ 64) * u" using yr u(1) by (intro mult_strict_right_mono) simp_all
    also have "\<dots> \<le> (2 * (real Q * 2 ^ 64) + 2 ^ 65) * u" using Q u(1) by (intro mult_right_mono) simp_all
    also have "\<dots> = (real Q + 1) * (2 ^ 65 * u)" by (simp add: algebra_simps)
    also have "\<dots> \<le> x * 2 ^ s * (2 ^ 65 * u)" using le u(1) by (intro mult_right_mono) simp_all
    finally show "real y * 2 powi ep * t < x" by (simp only: x [symmetric]) }
qed

section \<open>The algorithm\<close>

lemma grisu2_between:
  assumes "0 < unat bits" "unat bits < 2047 * 2 ^ 52"
  defines "f \<equiv> significand (unat bits)" and "e \<equiv> exponent2 (unat bits)"
  shows "\<exists>D K. grisu2 bits = Some (radix_str 10 D, K) \<and> 0 < D \<and> D < 10 ^ 17 \<and>
    real (2 * f - 1) * 2 powi (e - 1) < real D * 10 powi K \<and> real D * 10 powi K < real (2 * f + 1) * 2 powi (e - 1)"
proof -
  obtain mi pl j where b: "normalized_boundaries bits = Some (mi, pl)" "10 \<le> j" "j \<le> 62"
    "de mi = e - 1 - int j" "de pl = e - 1 - int j" "unat (df pl) = (2 * f + 1) * 2 ^ j" "2 ^ 63 \<le> unat (df pl)"
    "(2 * f - 1) * 2 ^ j \<le> unat (df mi)" "unat (df mi) + 1536 \<le> unat (df pl)"
    "unat (df pl) + 2 ^ 53 * unat (df mi) \<le> 2 ^ 53 * unat (df pl)"
    using boundaries [OF assms(1,2)] unfolding f_def e_def by blast
  have e: "- 1074 \<le> e" "e \<le> 971" using exponent2_bounds [OF assms(2)] by (simp_all add: e_def)
  have ep: "- 1137 \<le> de pl" "de pl \<le> 960" using e b(2,3,5) by simp_all
  define i where "i = nat (cached_index (de pl))"
  have i: "i < 87" "cached_index (de pl) = int i" using cached_index_bounds [OF ep] by (simp_all add: i_def)
  define c where "c = DiyFp (kCachedPowersF ! i) (kCachedPowersE ! i)"
  define K where "K = 348 - 8 * int i"
  have cp: "cached_power (de pl) = (c, K)" by (simp add: cached_power_def c_def K_def i)
  define s where "s = nat (- (de pl + de c + 64))"
  have s: "de pl + de c + 64 = - int s" "32 \<le> s" "s \<le> 60"
    using cached_exponent [OF ep] by (simp_all add: s_def c_def i_def)
  have c: "2 ^ 63 \<le> unat (df c)" "unat (df c) < 2 ^ 64"
    using table_top [OF i(1)] unat_u64 [of "df c"] by (simp_all add: c_def word_le_nat_alt)
  obtain w where w: "diy_normalize (double_to_diy bits) = Some w"
    using diy_normalize_ok [of "double_to_diy bits"] double_to_diy_fields(1) [of bits] significand_bounds [OF assms(1)] assms(2) by auto
  note mp = diy_multiply_bound [of pl c] and mm = diy_multiply_bound [of mi c]
  define P where "P = unat (df (diy_multiply pl c))"
  define Q where "Q = unat (df (diy_multiply mi c))"
  have products: "unat (df mi) * unat (df c) + 768 * 2 ^ 64 \<le> unat (df pl) * unat (df c)"
    "unat (df pl) * unat (df c) + 2 ^ 53 * (unat (df mi) * unat (df c)) \<le> 2 ^ 53 * (unat (df pl) * unat (df c))"
    "2 ^ 126 \<le> unat (df pl) * unat (df c)"
  proof -
    have "1536 * 2 ^ 63 \<le> 1536 * unat (df c)" using c(1) by simp
    moreover have "(unat (df mi) + 1536) * unat (df c) \<le> unat (df pl) * unat (df c)" using b(9) by (rule mult_right_mono) simp
    ultimately show "unat (df mi) * unat (df c) + 768 * 2 ^ 64 \<le> unat (df pl) * unat (df c)" by (simp add: add_mult_distrib)
    show "unat (df pl) * unat (df c) + 2 ^ 53 * (unat (df mi) * unat (df c)) \<le> 2 ^ 53 * (unat (df pl) * unat (df c))"
      using mult_right_mono [OF b(10), of "unat (df c)"] by (simp add: add_mult_distrib mult.assoc)
    show "2 ^ 126 \<le> unat (df pl) * unat (df c)" using mult_le_mono [OF b(7) c(1)] by simp
  qed
  have inner: "Q + 2 < P" "2 ^ 60 \<le> P - 1" "P - 1 < 10 ^ 16 * (P - 1 - (Q + 1))"
    using inner_interval [of P "unat (df pl) * unat (df c)" Q "unat (df mi) * unat (df c)"] mp(1,2) mm(1,2) products
    unfolding P_def Q_def by simp_all
  define M where "M = DiyFp (df (diy_multiply pl c) - 1) (de (diy_multiply pl c))"
  define m where "m = DiyFp (df (diy_multiply mi c) + 1) (de (diy_multiply mi c))"
  define delta where "delta = df M - df m"
  have "P < 2 ^ 64" using unat_u64 [of "df (diy_multiply pl c)"] by (simp add: P_def)
  then have n: "unat (df M) = P - 1" "unat (df m) = Q + 1"
    using inner(1) unfolding M_def m_def DiyFp_sel P_def Q_def
    by (simp add: unat_sub word_le_nat_alt, subst unat_add_small, simp_all)
  then have d: "unat delta = P - 1 - (Q + 1)" using inner(1) by (simp add: delta_def unat_sub word_le_nat_alt)
  have de: "de M = - int s" using s(1) mp(3) by (simp add: M_def)
  have top: "2 ^ s \<le> unat (df M)" using n(1) inner(2) power_increasing [OF s(3), of "2 :: nat"] by simp
  obtain r where r: "digit_gen (diy_multiply w c) M delta K = Some r" "generated (unat (df M)) (unat delta) s K r"
  proof -
    have "unat delta < unat (df M)" "0 < unat delta" "unat (df M) < 10 ^ 16 * unat delta"
      using inner unfolding n d by linarith+
    then show ?thesis using digit_gen_ok [of M s delta "diy_multiply w c" K] s(2,3) de top that by blast
  qed
  have g: "grisu2 bits = Some r"
    by (simp only: grisu2_def b(1) w cp Option.bind.simps prod.case Let_def M_def [symmetric] m_def [symmetric]
        delta_def [symmetric] r(1))
  obtain ds K' where rp: "r = (ds, K')" by (cases r)
  have sub: "real (P - 1 - (P - 1 - (Q + 1))) = real Q + 1" "real (P - 1) = real P - 1" using inner(1) by (simp_all add: of_nat_diff)
  obtain D where D: "ds = radix_str 10 D" "0 < D" "D < 10 ^ 17"
    "real Q + 1 \<le> real D * 10 powi (K' - K) * 2 ^ s" "real D * 10 powi (K' - K) * 2 ^ s \<le> real P - 1"
    using generated_bounds [OF r(2) [unfolded rp n d] diff_le_self] unfolding sub by blast
  define t where "t = (10 :: real) powi (- K)"
  have t: "(2 * real (unat (df c)) - 1) * 2 powi (de c - 1) \<le> t" "t \<le> (2 * real (unat (df c)) + 1) * 2 powi (de c - 1)" "0 < t"
    using table_rounds [OF i(1)] by (simp_all add: rounds_def c_def K_def t_def)
  have K': "real D * 10 powi (K' - K) = real D * 10 powi K' * t"
    using power_int_add [of "10 :: real" K' "- K"] by (simp add: t_def)
  have bound: "unat (df pl) < 2 ^ 64" "unat (df mi) < 2 ^ 64" using unat_u64 [of "df pl"] unat_u64 [of "df mi"] by simp_all
  have PQ: "P * 2 ^ 64 \<le> unat (df pl) * unat (df c) + 2 ^ 63" "unat (df mi) * unat (df c) < Q * 2 ^ 64 + 2 ^ 63"
    unfolding P_def Q_def using mp(1) mm(2) by simp_all
  have "real D * 10 powi K' * t < real (unat (df pl)) * 2 powi de pl * t"
    using scale_back(1) [OF t(1,2) bound(1) s(1) PQ(1) D(5)] by (simp only: K')
  moreover have "real (unat (df mi)) * 2 powi de pl * t < real D * 10 powi K' * t"
    using scale_back(2) [OF t(1,2) bound(2) s(1) PQ(2) D(4)] by (simp only: K')
  ultimately have lt: "real D * 10 powi K' < real (unat (df pl)) * 2 powi de pl" "real (unat (df mi)) * 2 powi de pl < real D * 10 powi K'"
    using t(3) by simp_all
  have shift: "real (k * 2 ^ j) * 2 powi de pl = real k * 2 powi (e - 1)" for k
  proof -
    have "(2 :: real) powi (e - 1) = 2 powi (int j + de pl)" by (simp add: b(5))
    then show ?thesis by (simp add: power_int_add)
  qed
  have "real ((2 * f - 1) * 2 ^ j) * 2 powi de pl \<le> real (unat (df mi)) * 2 powi de pl"
    using b(8) by (intro mult_right_mono) (simp_all only: of_nat_le_iff, simp)
  then have "real (2 * f - 1) * 2 powi (e - 1) < real D * 10 powi K'" "real D * 10 powi K' < real (2 * f + 1) * 2 powi (e - 1)"
    using lt unfolding b(6) shift by linarith+
  then show ?thesis using g [unfolded rp D(1)] D(2,3) by blast
qed

end
