(* ===== verification/Elog_Doubles.thy ===== *)
theory Elog_Doubles
  imports Elog_Grisu_Laws
begin

text \<open>
  The value of an IEEE 754 double as its bits say it, and the distance to the doubles next to it: what
  \<open>src/grisu2.cpp\<close> has to respect for a printed number to be read back.
\<close>

section \<open>Doubles\<close>

definition magnitude :: "nat \<Rightarrow> real" where
  "magnitude n = real (significand n) * 2 powi exponent2 n"

definition double_value :: "u64 \<Rightarrow> real" where
  "double_value u = (if 2 ^ 63 \<le> unat u then - magnitude (unat u mod 2 ^ 63) else magnitude (unat u mod 2 ^ 63))"

definition finite_double :: "u64 \<Rightarrow> bool" where
  "finite_double u \<longleftrightarrow> unat u mod 2 ^ 63 < 2047 * 2 ^ 52"

text \<open>A normal power of two other than the smallest: the gap below it is half the gap above it.\<close>

definition binade_start :: "nat \<Rightarrow> bool" where
  "binade_start n \<longleftrightarrow> n mod 2 ^ 52 = 0 \<and> 2 \<le> n div 2 ^ 52"

text \<open>Magnitudes in units of the smallest one.\<close>

definition steps :: "nat \<Rightarrow> nat" where
  "steps n = significand n * 2 ^ (n div 2 ^ 52 - 1)"

lemma exponent2_steps: "exponent2 n = int (n div 2 ^ 52 - 1) - 1074"
  by (simp add: exponent2_def of_nat_diff)

lemma powi_1074: "(2 :: real) powi (int k - 1074) = 2 ^ k * 2 powi (- 1074)"
  using power_int_add [of "2 :: real" "int k" "- 1074"] by simp

lemma magnitude_steps: "magnitude n = real (steps n) * 2 powi (- 1074)"
  by (simp add: magnitude_def steps_def exponent2_steps powi_1074)

lemma steps_Suc: "steps (Suc n) = steps n + 2 ^ (n div 2 ^ 52 - 1)"
proof (cases "Suc (n mod 2 ^ 52) = 2 ^ 52")
  case True
  then have m: "n mod 2 ^ 52 = 2 ^ 52 - 1" by simp
  have s: "Suc n mod 2 ^ 52 = 0" "Suc n div 2 ^ 52 = Suc (n div 2 ^ 52)"
    using True by (simp_all add: mod_Suc div_Suc)
  show ?thesis unfolding steps_def significand_def s m by (cases "n div 2 ^ 52") simp_all
next
  case False
  then have s: "Suc n mod 2 ^ 52 = Suc (n mod 2 ^ 52)" "Suc n div 2 ^ 52 = n div 2 ^ 52"
    by (simp_all add: mod_Suc div_Suc)
  show ?thesis unfolding steps_def significand_def s by (simp add: add_mult_distrib)
qed

lemma steps_less: "n < m \<Longrightarrow> steps n + 2 ^ (n div 2 ^ 52 - 1) \<le> steps m"
proof -
  assume "n < m"
  then have "Suc n \<le> m" by simp
  have "steps i \<le> steps (Suc i)" for i unfolding steps_Suc by (rule le_add1)
  then have "steps (Suc n) \<le> steps m" using \<open>Suc n \<le> m\<close> by (rule lift_Suc_mono_le)
  then show ?thesis by (simp only: steps_Suc)
qed

lemma magnitude_above: "n < m \<Longrightarrow> magnitude n + 2 powi exponent2 n \<le> magnitude m"
proof -
  assume "n < m"
  from steps_less [OF this] have "real (steps n + 2 ^ (n div 2 ^ 52 - 1)) \<le> real (steps m)" by (simp only: of_nat_le_iff)
  then have "real (steps n) + 2 ^ (n div 2 ^ 52 - 1) \<le> real (steps m)" by (simp only: of_nat_push)
  then have "(real (steps n) + 2 ^ (n div 2 ^ 52 - 1)) * 2 powi (- 1074) \<le> real (steps m) * 2 powi (- 1074)"
    by (rule mult_right_mono) simp
  then show ?thesis unfolding magnitude_steps exponent2_steps powi_1074 by (simp only: distrib_right)
qed

lemma magnitude_below:
  assumes "m < n" "\<not> binade_start n"
  shows "magnitude m + 2 powi exponent2 n \<le> magnitude n"
proof -
  obtain p where p: "n = Suc p" using assms(1) by (cases n) auto
  have e: "p div 2 ^ 52 - 1 = n div 2 ^ 52 - 1"
    using assms(2) unfolding binade_start_def p by (auto simp: div_Suc mod_Suc split: if_splits)
  have "magnitude p + 2 powi exponent2 p \<le> magnitude n" by (rule magnitude_above) (simp add: p)
  moreover have "magnitude m \<le> magnitude p"
    using assms(1) magnitude_above [of m p] p by (cases "m = p") (auto intro: order_trans [rotated])
  moreover have "exponent2 p = exponent2 n" by (simp only: exponent2_steps e)
  ultimately show ?thesis by simp
qed

text \<open>A number less than half a unit away is nearer than to every other double.\<close>

lemma nearest:
  assumes "real (2 * significand n - 1) * 2 powi (exponent2 n - 1) < x" "x < real (2 * significand n + 1) * 2 powi (exponent2 n - 1)"
    "0 < n" "\<not> binade_start n" "m \<noteq> n"
  shows "\<bar>x - magnitude n\<bar> < \<bar>x - magnitude m\<bar>" "0 < x"
proof -
  have f: "0 < significand n" using significand_bounds [OF assms(3)] by simp
  define h where "h = (2 :: real) powi (exponent2 n - 1)"
  have h: "0 < h" "2 powi exponent2 n = 2 * h" "magnitude n = 2 * real (significand n) * h"
    using power_int_add [of "2 :: real" 1 "exponent2 n - 1"] by (simp_all add: h_def magnitude_def)
  have x: "magnitude n - h < x" "x < magnitude n + h"
    using assms(1,2) f unfolding h_def [symmetric] h(3) by (simp_all add: algebra_simps of_nat_diff)
  have "h \<le> magnitude n" unfolding h(3) using f h(1) by simp
  then show "0 < x" using x(1) by simp
  consider "n < m" | "m < n" using assms(5) by linarith
  then show "\<bar>x - magnitude n\<bar> < \<bar>x - magnitude m\<bar>"
  proof cases
    case 1
    then show ?thesis using magnitude_above [of n m] x h(2) by linarith
  next
    case 2
    then show ?thesis using magnitude_below [OF 2 assms(4)] x h(2) by linarith
  qed
qed

end
