(* ===== verification/Elog_Decimal.thy ===== *)
theory Elog_Decimal
  imports Elog_Doubles
begin

text \<open>
  What \<open>format_double\<close> (\<open>src/grisu2.cpp\<close>) prints: a reader of decimal text, the layout of \<open>prettify\<close> as
  seen by the reader, and the properties. The printed text is short and reads back as the same double,
  except for powers of two.
\<close>

section \<open>Reading decimal text\<close>

text \<open>Digits, an optional fraction and an optional signed exponent, as a number; a leading minus negates.\<close>

definition read_exponent :: "string \<Rightarrow> int option" where
  "read_exponent r =
     (case r of
        [] \<Rightarrow> Some 0
      | c # cs \<Rightarrow>
          if c = CHR ''e'' \<and> 2 \<le> length cs \<and> list_all is_digit (tl cs) then
            (if hd cs = CHR ''+'' then Some (int (radix_val 10 (tl cs)))
             else if hd cs = CHR ''-'' then Some (- int (radix_val 10 (tl cs))) else None)
          else None)"

definition read_unsigned :: "string \<Rightarrow> real option" where
  "read_unsigned s =
     (let i = takeWhile is_digit s; r = dropWhile is_digit s;
          point = (r \<noteq> [] \<and> hd r = CHR ''.'');
          f = (if point then takeWhile is_digit (tl r) else []);
          r = (if point then dropWhile is_digit (tl r) else r)
      in if i = [] then None
         else do { ex \<leftarrow> read_exponent r; Some (real (radix_val 10 (i @ f)) * 10 powi (ex - int (length f))) })"

definition read_decimal :: "string \<Rightarrow> real option" where
  "read_decimal s = (if s \<noteq> [] \<and> hd s = CHR ''-'' then map_option uminus (read_unsigned (tl s)) else read_unsigned s)"

lemma radix_val_append: "radix_val b (s @ t) = radix_val b s * b ^ length t + radix_val b t"
proof (induction t rule: rev_induct)
  case (snoc c t)
  then show ?case
    using radix_val_snoc [of b "s @ t" c] by (simp add: algebra_simps)
qed simp

lemma radix_val_zeros: "radix_val 10 (replicate n (CHR ''0'')) = 0"
  by (induction n) (simp_all add: replicate_append_same [symmetric] digit_val_def)

lemma digits_simps [simp]: "\<not> is_digit (CHR ''.'')" "\<not> is_digit (CHR ''e'')" "is_digit (CHR ''0'')"
  by (simp_all add: is_digit_def)

text \<open>What may follow the digits: nothing or an exponent.\<close>

definition exponent_text :: "string \<Rightarrow> int \<Rightarrow> bool" where
  "exponent_text r ex \<longleftrightarrow> read_exponent r = Some ex \<and> (r = [] \<or> hd r = CHR ''e'')"

lemma stop_at:
  assumes "list_all is_digit i" "r = [] \<or> \<not> is_digit (hd r)"
  shows "takeWhile is_digit (i @ r) = i" "dropWhile is_digit (i @ r) = r"
  using assms by (cases r; simp add: list_all_iff takeWhile_append dropWhile_append)+

lemma read_int:
  assumes "list_all is_digit i" "i \<noteq> []" "exponent_text r ex"
  shows "read_unsigned (i @ r) = Some (real (radix_val 10 i) * 10 powi ex)"
proof -
  have r: "r = [] \<or> \<not> is_digit (hd r)" "(r \<noteq> [] \<and> hd r = CHR ''.'') = False" "read_exponent r = Some ex"
    using assms(3) by (auto simp: exponent_text_def)
  show ?thesis
    unfolding read_unsigned_def Let_def stop_at [OF assms(1) r(1)] r(2) if_False using assms(2) r(3) by simp
qed

lemma read_frac:
  assumes "list_all is_digit i" "i \<noteq> []" "list_all is_digit f" "exponent_text r ex"
  shows "read_unsigned (i @ CHR ''.'' # f @ r) = Some (real (radix_val 10 (i @ f)) * 10 powi (ex - int (length f)))"
proof -
  have r: "r = [] \<or> \<not> is_digit (hd r)" "read_exponent r = Some ex" using assms(4) by (auto simp: exponent_text_def)
  have i: "takeWhile is_digit (i @ CHR ''.'' # f @ r) = i" "dropWhile is_digit (i @ CHR ''.'' # f @ r) = CHR ''.'' # f @ r"
    by (rule stop_at [OF assms(1)], simp)+
  show ?thesis
    unfolding read_unsigned_def Let_def i using assms(2) stop_at [OF assms(3) r(1)] r(2) by simp
qed

lemma exponent_text_Nil [simp]: "exponent_text [] 0"
  by (simp add: exponent_text_def read_exponent_def)

section \<open>The layout of \<open>prettify\<close>\<close>

lemma exp_digits:
  assumes "n < 1000"
  shows "(if n \<ge> 100 then [char_of (48 + n div 100), char_of (48 + n mod 100 div 10), char_of (48 + n mod 100 mod 10)]
     else if n \<ge> 10 then [char_of (48 + n div 10), char_of (48 + n mod 10)] else [char_of (48 + n)]) = radix_str 10 n"
proof -
  have d: "char_of (48 + k) = digit_char k" if "k < 10" for k :: nat using that by (simp add: digit_char_def)
  show ?thesis
  proof (cases "100 \<le> n")
    case True
    have "n mod 100 div 10 = n div 10 mod 10" "n mod 100 mod 10 = n mod 10" "n div 10 div 10 = n div 100" "n div 100 < 10"
      using assms by (simp_all add: div_mult2_eq [symmetric] mod_mult2_eq [of n 10 10, simplified] mod_mod_cancel less_mult_imp_div_less)
    moreover have "10 \<le> n div 10" using div_le_mono [OF True, of 10] by simp
    ultimately show ?thesis
      using True radix_large [of 10 n] radix_large [of 10 "n div 10"] by (simp add: radix_small d)
  next
    case False
    then show ?thesis by (cases "10 \<le> n") (simp_all add: radix_large radix_small d less_mult_imp_div_less)
  qed
qed

lemma exp_str_radix:
  assumes "\<bar>ex\<bar> < 1000"
  shows "exp_str ex = (if ex < 0 then ''-'' else ''+'') @ radix_str 10 (nat \<bar>ex\<bar>)"
proof -
  have "nat \<bar>ex\<bar> < 1000" using assms by simp
  note digits = exp_digits [OF this]
  show ?thesis
  proof (cases "ex < 0")
    case True
    then have "nat (- ex) = nat \<bar>ex\<bar>" by simp
    then show ?thesis using True by (simp only: exp_str_def Let_def if_True prod.case digits)
  next
    case False
    then have "nat ex = nat \<bar>ex\<bar>" by simp
    then show ?thesis using False by (simp only: exp_str_def Let_def if_False prod.case digits)
  qed
qed

lemma exponent_text_e:
  assumes "\<bar>ex\<bar> < 1000"
  shows "exponent_text (CHR ''e'' # exp_str ex) ex"
proof -
  define t where "t = radix_str 10 (nat \<bar>ex\<bar>)"
  have t: "list_all is_digit t" "1 \<le> length t" "radix_val 10 t = nat \<bar>ex\<bar>"
    using radix_str_digits [of 10] by (auto simp: t_def list_all_iff Suc_le_eq)
  show ?thesis
    unfolding exponent_text_def read_exponent_def exp_str_radix [OF assms] t_def [symmetric] using t by simp
qed

lemma read_unsigned_digit: "read_unsigned t = Some x \<Longrightarrow> t \<noteq> [] \<and> hd t \<noteq> CHR ''-''"
  by (cases t) (auto simp: read_unsigned_def Let_def is_digit_def split: if_splits)

lemma read_sign: "read_unsigned t = Some x \<Longrightarrow> read_decimal (''-'' @ t) = Some (- x) \<and> read_decimal t = Some x"
  using read_unsigned_digit [of t x] by (simp add: read_decimal_def)

lemma prettify_reads:
  assumes "0 < D" "D < 10 ^ 17" "\<bar>int (length (radix_str 10 D)) + K - 1\<bar> < 1000"
  shows "read_unsigned (prettify (radix_str 10 D) K) = Some (real D * 10 powi K)"
    "length (prettify (radix_str 10 D) K) \<le> 24"
proof -
  define ds where "ds = radix_str 10 D"
  have ds: "list_all is_digit ds" "ds \<noteq> []" "radix_val 10 ds = D" "length ds \<le> 17"
    using radix_str_digits [of 10] length_radix_str [of 10 D 17] assms(2) by (auto simp: ds_def list_all_iff)
  define kk where "kk = int (length ds) + K"
  have ex: "\<bar>kk - 1\<bar> < 1000" using assms(3) by (simp add: kk_def ds_def)
  have exp: "exponent_text (CHR ''e'' # exp_str (kk - 1)) (kk - 1)" by (rule exponent_text_e [OF ex])
  have exp_len: "length (exp_str (kk - 1)) \<le> 4"
  proof -
    have "nat \<bar>kk - 1\<bar> < 10 ^ 3" using ex by simp
    from length_radix_str [OF _ this] have "length (radix_str 10 (nat \<bar>kk - 1\<bar>)) \<le> 3" by simp
    moreover define r where "r = radix_str 10 (nat \<bar>kk - 1\<bar>)"
    ultimately show ?thesis unfolding exp_str_radix [OF ex] r_def [symmetric] by simp
  qed
  have tk: "list_all is_digit (take n ds)" "list_all is_digit (drop n ds)" for n
    using ds(1) by (auto simp: list_all_iff dest: in_set_takeD in_set_dropD)
  have zeros: "list_all is_digit (replicate n (CHR ''0''))" for n by (simp add: list_all_iff)
  consider "0 < kk" "kk \<le> 21" "int (length ds) \<le> kk" | "0 < kk" "kk \<le> 21" "kk < int (length ds)"
    | "kk \<le> 0" "kk > - 6" | "kk > 21 \<or> kk \<le> - 6" "length ds = 1" | "kk > 21 \<or> kk \<le> - 6" "length ds \<noteq> 1"
    by linarith
  then have "read_unsigned (prettify ds K) = Some (real D * 10 powi K) \<and> length (prettify ds K) \<le> 24"
  proof cases
    case 1
    then have p: "prettify ds K = ds @ replicate (nat K) (CHR ''0'')" by (simp add: prettify_def Let_def kk_def)
    have "0 \<le> K" using 1 by (simp add: kk_def)
    then show ?thesis
      using read_int [of "ds @ replicate (nat K) (CHR ''0'')" "[]" 0] ds zeros [of "nat K"] 1(2) unfolding p
      by (simp add: radix_val_append radix_val_zeros power_int_def kk_def)
  next
    case 2
    then have p: "prettify ds K = take (nat kk) ds @ CHR ''.'' # drop (nat kk) ds @ []"
      by (simp add: prettify_def Let_def kk_def)
    have "take (nat kk) ds \<noteq> []" "int (length (drop (nat kk) ds)) = - K" using 2 ds(2) by (simp_all add: kk_def)
    then show ?thesis
      using read_frac [OF tk(1) _ tk(2) exponent_text_Nil, of "nat kk" "nat kk"] ds(3,4) unfolding p by simp
  next
    case 3
    then have p: "prettify ds K = ''0'' @ CHR ''.'' # (replicate (nat (- kk)) (CHR ''0'') @ ds) @ []"
      by (simp add: prettify_def Let_def kk_def)
    have "radix_val 10 (''0'' @ replicate (nat (- kk)) (CHR ''0'') @ ds) = D"
      using ds(3) radix_val_zeros [of 1] by (simp only: radix_val_append radix_val_zeros) (simp add: digit_val_def radix_val_def)
    moreover have "int (length (replicate (nat (- kk)) (CHR ''0'') @ ds)) = - K" using 3 by (simp add: kk_def)
    ultimately show ?thesis
      using read_frac [of "''0''" "replicate (nat (- kk)) (CHR ''0'') @ ds" "[]" 0] ds(1,4) zeros 3 unfolding p by simp
  next
    case 4
    then have p: "prettify ds K = ds @ CHR ''e'' # exp_str (kk - 1)" by (auto simp: prettify_def Let_def kk_def)
    show ?thesis unfolding p using read_int [OF ds(1,2) exp] ds(3) 4(2) exp_len by (simp add: kk_def)
  next
    case 5
    then have p: "prettify ds K = take 1 ds @ CHR ''.'' # drop 1 ds @ CHR ''e'' # exp_str (kk - 1)"
      by (auto simp: prettify_def Let_def kk_def)
    have "take 1 ds \<noteq> []" "int (length (drop 1 ds)) = int (length ds) - 1" using ds(2) by (auto simp: Suc_le_eq)
    then show ?thesis
      unfolding p using read_frac [OF tk(1) _ tk(2) exp, of 1 1] ds exp_len by (simp add: kk_def)
  qed
  then show "read_unsigned (prettify (radix_str 10 D) K) = Some (real D * 10 powi K)" "length (prettify (radix_str 10 D) K) \<le> 24"
    unfolding ds_def by simp_all
qed

section \<open>All doubles\<close>

lemma radix_length_bounds: "0 < D \<Longrightarrow> 10 ^ (length (radix_str 10 D) - 1) \<le> D \<and> D < 10 ^ length (radix_str 10 D)"
proof (induction D rule: less_induct)
  case (less D)
  show ?case
  proof (cases "D < 10")
    case True
    then show ?thesis using less.prems by (simp add: radix_small)
  next
    case False
    then have IH: "10 ^ (length (radix_str 10 (D div 10)) - 1) \<le> D div 10" "D div 10 < 10 ^ length (radix_str 10 (D div 10))"
      using less.IH [of "D div 10"] by simp_all
    obtain k where k: "length (radix_str 10 (D div 10)) = Suc k" by (cases "length (radix_str 10 (D div 10))") auto
    have "length (radix_str 10 D) = Suc (Suc k)" using False k by (simp add: radix_large)
    then show ?thesis using IH unfolding k by (simp add: less_eq_div_iff_mult_less_eq div_less_iff_less_mult)
  qed
qed

lemma exponent_in_range:
  assumes "0 < n" "n < 2047 * 2 ^ 52" "0 < D"
    "real (2 * significand n - 1) * 2 powi (exponent2 n - 1) < real D * 10 powi K"
    "real D * 10 powi K < real (2 * significand n + 1) * 2 powi (exponent2 n - 1)"
  shows "\<bar>int (length (radix_str 10 D)) + K - 1\<bar> < 1000"
proof -
  define k where "k = length (radix_str 10 D)"
  have k: "0 < k" "10 ^ (k - 1) \<le> D" "D < 10 ^ k" using radix_length_bounds [OF assms(3)] by (simp_all add: k_def)
  define x where "x = real D * 10 powi K"
  have f: "0 < significand n" "significand n < 2 ^ 53" using significand_bounds [OF assms(1)] by simp_all
  have e: "- 1074 \<le> exponent2 n" "exponent2 n \<le> 971" using exponent2_bounds [OF assms(2)] by simp_all
  have "real (10 ^ (k - 1)) \<le> real D" "real D < real (10 ^ k)" using k(2,3) by (simp_all only: of_nat_le_iff of_nat_less_iff)
  then have "10 ^ (k - 1) * 10 powi K \<le> x" "x < 10 ^ k * 10 powi K"
    unfolding x_def by (simp_all add: mult_right_mono)
  moreover obtain m where m: "k = Suc m" using k(1) by (cases k) auto
  moreover have "(10 :: real) powi (int m + K) = 10 ^ m * 10 powi K" "(10 :: real) powi (int k + K) = 10 ^ k * 10 powi K"
    using power_int_add [of "10 :: real" "int m" K] power_int_add [of "10 :: real" "int k" K] by simp_all
  ultimately have x: "10 powi (int k + K - 1) \<le> x" "x < 10 powi (int k + K)" by simp_all
  have "x < 10 powi 309"
  proof -
    have "x < real (2 * significand n + 1) * 2 powi (exponent2 n - 1)" using assms(5) by (simp only: x_def)
    also have "\<dots> \<le> 2 ^ 54 * 2 powi 970"
      using f e by (intro mult_mono power_int_increasing) simp_all
    also have "\<dots> < (10 :: real) powi 309" by simp
    finally show ?thesis .
  qed
  then have "\<not> 309 \<le> int k + K - 1" using x(1) power_int_increasing [of 309 "int k + K - 1" "10 :: real"] by linarith
  moreover have "10 powi (- 324) < x"
  proof -
    have "(10 :: real) powi (- 324) < 1 * 2 powi (- 1075)" by (simp add: power_int_minus field_simps)
    also have "\<dots> \<le> real (2 * significand n - 1) * 2 powi (exponent2 n - 1)"
      using f(1) e by (intro mult_mono power_int_increasing) simp_all
    finally show ?thesis using assms(4) by (simp only: x_def)
  qed
  then have "\<not> int k + K \<le> - 324" using x(2) power_int_increasing [of "int k + K" "- 324" "10 :: real"] by linarith
  ultimately show ?thesis unfolding k_def by linarith
qed

lemma unat_magnitude_bits: "unat (u AND 0x7FFFFFFFFFFFFFFF :: u64) = unat u mod 2 ^ 63"
  using unat_and_mask [of u 63] by (simp add: mask_eq_exp_minus_1)

lemma sign_bit: "drop_bit 63 (u :: u64) \<noteq> 0 \<longleftrightarrow> 2 ^ 63 \<le> unat u"
  by (simp add: drop_bit_zero_iff div_eq_0_iff not_less)

definition sign_text :: "u64 \<Rightarrow> string" where
  "sign_text u = (if 2 ^ 63 \<le> unat u then ''-'' else '''')"

text \<open>A finite number other than zero: the digits, their value, and the text.\<close>

lemma format_double_finite:
  assumes "finite_double u" "0 < unat u mod 2 ^ 63"
  defines "n \<equiv> unat u mod 2 ^ 63"
  shows "\<exists>t x. format_double u = Some (sign_text u @ t) \<and> length t \<le> 24 \<and> read_unsigned t = Some x \<and>
    real (2 * significand n - 1) * 2 powi (exponent2 n - 1) < x \<and> x < real (2 * significand n + 1) * 2 powi (exponent2 n - 1)"
proof -
  define bits where "bits = u AND 0x7FFFFFFFFFFFFFFF"
  have n: "unat bits = n" "0 < n" "n < 2047 * 2 ^ 52"
    using assms(1,2) unat_magnitude_bits [of u] by (simp_all add: bits_def n_def finite_double_def)
  obtain D K where g: "grisu2 bits = Some (radix_str 10 D, K)" "0 < D" "D < 10 ^ 17"
    "real (2 * significand n - 1) * 2 powi (exponent2 n - 1) < real D * 10 powi K"
    "real D * 10 powi K < real (2 * significand n + 1) * 2 powi (exponent2 n - 1)"
    using grisu2_between [of bits] n by auto
  note p = prettify_reads [OF g(2,3) exponent_in_range [OF n(2,3) g(2,4,5)]]
  have "bits \<noteq> 0" "\<not> bits \<ge> 0x7FF0000000000000" using n by (auto simp: word_le_nat_alt)
  then have "format_double u = Some (sign_text u @ prettify (radix_str 10 D) K)"
    unfolding format_double_def Let_def bits_def [symmetric] sign_bit sign_text_def by (simp add: g(1))
  then show ?thesis using p g(4,5) by blast
qed

lemma format_double_zero: "unat u mod 2 ^ 63 = 0 \<Longrightarrow> format_double u = Some (sign_text u @ ''0'')"
  using unat_magnitude_bits [of u] unfolding format_double_def Let_def sign_bit sign_text_def by (simp add: word_unat_eq_iff)

lemma format_double_special: "\<not> finite_double u \<Longrightarrow>
    format_double u = Some (sign_text u @ (if unat u mod 2 ^ 63 = 2047 * 2 ^ 52 then ''inf'' else ''nan''))"
proof -
  assume "\<not> finite_double u"
  then have "u AND 0x7FFFFFFFFFFFFFFF \<ge> 0x7FF0000000000000" "u AND 0x7FFFFFFFFFFFFFFF \<noteq> 0"
    and "u AND 0x7FFFFFFFFFFFFFFF = 0x7FF0000000000000 \<longleftrightarrow> unat u mod 2 ^ 63 = 2047 * 2 ^ 52"
    using unat_magnitude_bits [of u] by (auto simp: finite_double_def word_le_nat_alt word_unat_eq_iff)
  then show ?thesis unfolding format_double_def Let_def sign_bit sign_text_def by simp
qed

lemma sign_text_length: "length (sign_text u) \<le> 1"
  by (simp add: sign_text_def)

text \<open>
  Each of the \<open>2 ^ 64\<close> bit patterns prints without undefined behaviour, with at most 25 characters; the
  callers in \<open>render.cpp\<close> reserve 32.
\<close>

lemma double_prints: "\<exists>s. format_double u = Some s \<and> length s \<le> 25"
proof (cases "finite_double u")
  case False
  then show ?thesis using format_double_special [of u] sign_text_length [of u] by auto
next
  case True
  show ?thesis
  proof (cases "unat u mod 2 ^ 63 = 0")
    case 0: True
    then show ?thesis using format_double_zero [OF 0] sign_text_length [of u] by auto
  next
    case False
    then obtain t where "format_double u = Some (sign_text u @ t)" "length t \<le> 24"
      using format_double_finite [OF True] by auto
    then show ?thesis using sign_text_length [of u] by auto
  qed
qed

lemma magnitude_0 [simp]: "magnitude 0 = 0"
  by (simp add: magnitude_def significand_def)

lemma magnitude_nonneg [simp]: "0 \<le> magnitude n"
  by (simp add: magnitude_def)

lemma nearest_signed:
  fixes a b w x :: real
  assumes "\<bar>x - a\<bar> < \<bar>x - b\<bar> \<or> a = b" "0 < x" "0 < a" "0 \<le> b"
  shows "w = b \<or> w = - b \<Longrightarrow> w \<noteq> a \<Longrightarrow> \<bar>x - a\<bar> < \<bar>x - w\<bar>"
    "w = b \<or> w = - b \<Longrightarrow> w \<noteq> - a \<Longrightarrow> \<bar>- x - - a\<bar> < \<bar>- x - w\<bar>"
  using assms by linarith+

section \<open>Evaluation at \<open>2 ^ 64\<close>\<close>

lemma shift_until_stop: "df v AND m \<noteq> 0 \<Longrightarrow> shift_until m k v = Some v"
  by (simp add: shift_until.simps)

lemma shift_until_go: "df v AND m = 0 \<Longrightarrow> shift_until m k v = shift_until m k (DiyFp (push_bit k (df v)) (de v - int k))"
  by (simp add: shift_until.simps [of m k v])

lemma digit_gen_int_go:
  "0 < n \<Longrightarrow> digit_gen_int n p1 p2 delta sh wp_w buf K =
     (let kappa = n - 1; d = unat (p1 div 10 ^ kappa); p1 = p1 mod 10 ^ kappa
      in do {
        buf \<leftarrow> push_digit d buf;
        p1s \<leftarrow> shl (ucast p1) sh;
        let tmp = p1s + p2;
        if tmp \<le> delta then do {
          tk \<leftarrow> shl (kPow10 kappa) sh;
          buf \<leftarrow> grisu_round buf delta tmp tk wp_w;
          Some (Inl (buf, K + int kappa)) }
        else digit_gen_int kappa p1 p2 delta sh wp_w buf K
      })"
  by (cases n) (simp_all add: Let_def)

lemma push_digit_char:
  "d < 10 \<Longrightarrow> push_digit d buf = (if d \<noteq> 0 \<or> buf \<noteq> [] then
     (if length buf < 24 then Some (buf @ [digit_char d]) else None) else Some buf)"
  by (simp add: push_digit_def digit_char_def)

lemma grisu2_2_64: "grisu2 0x43F0000000000000 = Some (''1844674407370955'', 4)"
proof -
  let ?c = "DiyFp 10141204801825835212 (- 103)"
  have "normalized_boundaries 0x43F0000000000000 = Some (DiyFp 9223372036854774784 1, DiyFp 9223372036854776832 1)"
    by (simp add: normalized_boundaries_def double_to_diy_def Let_def diy_normalize_boundary_def shift_until_stop
        shift_until_go shl_def)
  moreover have "diy_normalize (double_to_diy 0x43F0000000000000) = Some (DiyFp 9223372036854775808 1)"
    by (simp add: double_to_diy_def Let_def diy_normalize_def shift_until_stop shift_until_go)
  moreover have "cached_index 1 = 42"
    by (simp add: cached_index_def cached_dk_def fl53_def bit_length.simps round_shift_def Let_def kCachedPowersF_size_def
        signed_divide_int_def)
  then have "cached_power 1 = (?c, 12)" by (simp add: cached_power_def kCachedPowersF_def kCachedPowersE_def)
  moreover have "diy_multiply (DiyFp 9223372036854775808 1) ?c = DiyFp 5070602400912917606 (- 38)"
    "diy_multiply (DiyFp 9223372036854776832 1) ?c = DiyFp 5070602400912918169 (- 38)"
    "diy_multiply (DiyFp 9223372036854774784 1) ?c = DiyFp 5070602400912917043 (- 38)"
    by (simp_all add: diy_multiply_def Let_def)
  moreover have "digit_gen (DiyFp 5070602400912917606 (- 38)) (DiyFp 5070602400912918168 (- 38)) 1124 12 = Some (''1844674407370955'', 4)"
  proof -
    have i: "digit_gen_int 8 18446744 20261127832 1124 38 562 [] 12 = Some (Inr (map digit_char [1, 8, 4, 4, 6, 7, 4, 4]))"
      by (simp add: digit_gen_int_go push_digit_char Let_def shl_def)
    have "digit_gen_frac 20261127832 1124 (2 ^ 38) 38 562 (map digit_char [1, 8, 4, 4, 6, 7, 4, 4]) 0 12 = Some (''1844674407370955'', 4)"
      by (simp add: digit_gen_frac.simps Let_def shr_def push_digit_char grisu_round.simps)
        (simp add: digit_char_def char_of_def bit_Suc_0_iff)
    then show ?thesis by (simp add: digit_gen_def shl_def shr_def Let_def dec_count_u32_def diy_subtract_def i)
  qed
  ultimately show ?thesis by (simp add: grisu2_def)
qed

lemma format_double_2_64: "format_double 0x43F0000000000000 = Some ''18446744073709550000''"
proof -
  have "prettify ''1844674407370955'' 4 = ''18446744073709550000''" by (simp add: prettify_def Let_def numeral_eq_Suc)
  then show ?thesis by (simp add: format_double_def grisu2_2_64 Let_def)
qed

section \<open>Properties\<close>

text \<open>
  C4: The text of a finite double reads back as that double: the decimal number it stands for is nearer to
  the printed double than to every finite double of another value, so that rounding to nearest recovers
  it. This holds for every finite bit pattern, denormals, zeros and both signs included, except for the
  normal powers of two above the smallest one. The text has at most 25 characters.
\<close>

theorem format_double_reads_back:
  assumes "finite_double u" "\<not> binade_start (unat u mod 2 ^ 63)"
  shows "\<exists>s x. format_double u = Some s \<and> length s \<le> 25 \<and> read_decimal s = Some x \<and>
    (\<forall>v. finite_double v \<and> double_value v \<noteq> double_value u \<longrightarrow> \<bar>x - double_value u\<bar> < \<bar>x - double_value v\<bar>)"
proof (cases "unat u mod 2 ^ 63 = 0")
  case True
  have "read_unsigned ''0'' = Some 0" using read_int [of "''0''" "[]" 0] by (simp add: radix_val_def digit_val_def)
  then have "read_decimal (sign_text u @ ''0'') = Some 0" using read_sign [of "''0''" 0] by (simp add: sign_text_def)
  moreover have "double_value u = 0" using True by (simp add: double_value_def)
  ultimately show ?thesis using format_double_zero [OF True] sign_text_length [of u] by auto
next
  case False
  define n where "n = unat u mod 2 ^ 63"
  obtain t x where t: "format_double u = Some (sign_text u @ t)" "length t \<le> 24" "read_unsigned t = Some x"
    "real (2 * significand n - 1) * 2 powi (exponent2 n - 1) < x" "x < real (2 * significand n + 1) * 2 powi (exponent2 n - 1)"
    using format_double_finite [OF assms(1)] False by (auto simp: n_def)
  have n: "0 < n" using False by (simp add: n_def)
  have nb: "\<not> binade_start n" using assms(2) by (simp only: n_def not_False_eq_True)
  have near: "m \<noteq> n \<Longrightarrow> \<bar>x - magnitude n\<bar> < \<bar>x - magnitude m\<bar>" for m by (rule nearest(1) [OF t(4,5) n nb])
  have pos: "0 < x" by (rule nearest(2) [OF t(4,5) n nb, of "Suc n"]) simp
  have "0 < magnitude n" using significand_bounds [OF n] by (simp add: magnitude_def)
  note signed = nearest_signed [OF _ pos this magnitude_nonneg]
  have v: "double_value v = magnitude (unat v mod 2 ^ 63) \<or> double_value v = - magnitude (unat v mod 2 ^ 63)" for v
    by (simp add: double_value_def)
  have close: "\<bar>x - magnitude n\<bar> < \<bar>x - magnitude m\<bar> \<or> magnitude n = magnitude m" for m
    using near [of m] by (cases "m = n") auto
  show ?thesis
  proof (cases "2 ^ 63 \<le> unat u")
    case True
    then have "double_value u = - magnitude n" "sign_text u = ''-''" by (simp_all add: double_value_def sign_text_def n_def)
    then show ?thesis using t(1,2) read_sign [OF t(3)] signed(2) [OF close v] by auto
  next
    case False
    then have "double_value u = magnitude n" "sign_text u = ''''" by (simp_all add: double_value_def sign_text_def n_def)
    then show ?thesis using t(1,2) read_sign [OF t(3)] signed(1) [OF close v] by auto
  qed
qed

theorem format_double_reads_back_witness:
  "\<exists>s x. format_double 0x3FB999999999999A = Some s \<and> read_decimal s = Some x \<and>
    \<bar>x - double_value 0x3FB999999999999A\<bar> < \<bar>x - double_value 0x3FB999999999999B\<bar>"
proof -
  have "finite_double 0x3FB999999999999A" "\<not> binade_start (unat (0x3FB999999999999A :: u64) mod 2 ^ 63)"
    by (simp_all add: finite_double_def binade_start_def)
  moreover have "finite_double 0x3FB999999999999B" "double_value 0x3FB999999999999B \<noteq> double_value 0x3FB999999999999A"
    by (simp_all add: finite_double_def double_value_def magnitude_def significand_def exponent2_def)
  ultimately show ?thesis using format_double_reads_back [of "0x3FB999999999999A"] by blast
qed

text \<open>
  C23: \<open>grisu2\<close> ends for every positive finite double, within its digit buffer, with at most 17 significant
  digits without a leading zero, whose decimal value is less than half a unit in the last place away.
\<close>

theorem grisu2_seventeen_digits:
  assumes "0 < unat bits" "unat bits < 2047 * 2 ^ 52"
  shows "\<exists>D K. grisu2 bits = Some (radix_str 10 D, K) \<and> 0 < D \<and> length (radix_str 10 D) \<le> 17 \<and>
    \<bar>real D * 10 powi K - double_value bits\<bar> < 2 powi (exponent2 (unat bits) - 1)"
proof -
  let ?n = "unat bits"
  obtain D K where g: "grisu2 bits = Some (radix_str 10 D, K)" "0 < D" "D < 10 ^ 17"
    "real (2 * significand ?n - 1) * 2 powi (exponent2 ?n - 1) < real D * 10 powi K"
    "real D * 10 powi K < real (2 * significand ?n + 1) * 2 powi (exponent2 ?n - 1)"
    using grisu2_between [OF assms] by blast
  define h where "h = (2 :: real) powi (exponent2 ?n - 1)"
  have "double_value bits = 2 * real (significand ?n) * h"
    using assms(2) power_int_add [of "2 :: real" 1 "exponent2 ?n - 1"] by (simp add: double_value_def magnitude_def h_def)
  then have "\<bar>real D * 10 powi K - double_value bits\<bar> < h"
    using g(4,5) significand_bounds [OF assms(1)] unfolding h_def [symmetric] by (auto simp: algebra_simps of_nat_diff)
  then show ?thesis using g(1-3) length_radix_str [of 10 D 17] unfolding h_def by auto
qed

theorem grisu2_seventeen_digits_witness:
  "\<exists>D K. grisu2 1 = Some (radix_str 10 D, K) \<and> length (radix_str 10 D) \<le> 17 \<and>
     \<bar>real D * 10 powi K - double_value 1\<bar> < 2 powi (- 1075)"
  using grisu2_seventeen_digits [of 1] by (auto simp: exponent2_def)

text \<open>
  C35: A power of two can read back as another double. \<open>2 ^ 64\<close> prints as \<open>18446744073709550000\<close>, which is
  nearer to the double below it, \<open>2 ^ 64 - 2048\<close>: the code narrows the lower boundary for the smallest
  normal number only and not for the other powers of two.
\<close>

theorem power_of_two_misread:
  "format_double 0x43F0000000000000 = Some ''18446744073709550000'' \<and> double_value 0x43F0000000000000 = 2 ^ 64 \<and>
   double_value 0x43EFFFFFFFFFFFFF = 2 ^ 64 - 2048 \<and>
   (\<exists>x. read_decimal ''18446744073709550000'' = Some x \<and>
     \<bar>x - double_value 0x43EFFFFFFFFFFFFF\<bar> < \<bar>x - double_value 0x43F0000000000000\<bar>)"
proof (intro conjI)
  show "format_double 0x43F0000000000000 = Some ''18446744073709550000''" by (rule format_double_2_64)
  show v: "double_value 0x43F0000000000000 = 2 ^ 64" "double_value 0x43EFFFFFFFFFFFFF = 2 ^ 64 - 2048"
    by (simp_all add: double_value_def magnitude_def significand_def exponent2_def)
  have "read_decimal ''18446744073709550000'' = Some 18446744073709550000"
    by (simp add: read_decimal_def read_unsigned_def Let_def is_digit_def read_exponent_def radix_val_def digit_val_def)
  then show "\<exists>x. read_decimal ''18446744073709550000'' = Some x \<and>
     \<bar>x - double_value 0x43EFFFFFFFFFFFFF\<bar> < \<bar>x - double_value 0x43F0000000000000\<bar>" unfolding v by simp
qed

end
