(* ===== verification/Elog_Values_Laws.thy ===== *)
theory Elog_Values_Laws
  imports Elog_Cursor Elog_Decimal
begin

text \<open>
  The overload set keeps the contract of \<open>Elog_Memory\<close>: by induction on values, with the laws of
  \<open>Elog_Render_Laws\<close> for the single renderers and the loops, every \<open>elog_render\<close> result is in place or
  borrowed and, room permitting, its text is \<open>shown\<close>. The properties at the end apply the contract
  to the arguments of one call, and show where the unchecked writes go wrong.
\<close>

section \<open>Where the results are\<close>

lemma ext_Ext [simp]: "ext_ok (Ext s) n \<longleftrightarrow> n \<le> length s" "ext_bytes (Ext s) n = take n s"
  by (simp_all add: ext_ok_def ext_bytes_def)

lemma render_elems_evolves:
  assumes "\<And>v b iv b'. v \<in> set vs \<Longrightarrow> elog_render env v b = Some (iv, b') \<Longrightarrow> evolves env b b'"
  shows "render_elems env ini sep vs b = Some b' \<Longrightarrow> evolves env b b'"
  using assms
proof (induction vs arbitrary: ini b)
  case (Cons v vs)
  then obtain b1 b2 where 1: "(if ini then Some b else append_lit sep b) = Some b1"
    "splice (elog_render env v b1) = Some b2" "render_elems env False sep vs b2 = Some b'"
    by (auto simp: bind_eq_Some_conv)
  have "evolves env b b1" using 1(1) append_lit_evolves by (auto split: if_splits)
  also have "evolves env b1 b2" using 1(2) Cons.prems(2) by (intro splice_evolves [OF 1(2)]) auto
  also have "evolves env b2 b'" using 1(3) Cons.prems(2) by (intro Cons.IH [OF 1(3)]) auto
  finally show ?case .
qed simp

lemma elems_evolve:
  assumes "\<And>x b iv b'. x \<in> set vs \<Longrightarrow> readable env x \<Longrightarrow> elog_render env x b = Some (iv, b') \<Longrightarrow> placed env b iv b'"
    and "\<forall>v \<in> set vs. readable env v" and "render_elems env ini sep vs b = Some b'"
  shows "evolves env b b'"
proof (rule render_elems_evolves [OF _ assms(3)])
  fix v b iv b'
  assume v: "v \<in> set vs" "elog_render env v b = Some (iv, b')"
  show "evolves env b b'" by (rule placed_evolves [OF assms(1)]) (use v assms(2) in auto)
qed

lemma render_entries_evolves:
  assumes "\<And>kv b iv b'. kv \<in> set kvs \<Longrightarrow> elog_render env (fst kv) b = Some (iv, b') \<Longrightarrow> evolves env b b'"
    and "\<And>kv b iv b'. kv \<in> set kvs \<Longrightarrow> elog_render env (snd kv) b = Some (iv, b') \<Longrightarrow> evolves env b b'"
  shows "render_entries env ini kvs b = Some b' \<Longrightarrow> evolves env b b'"
  using assms
proof (induction kvs arbitrary: ini b)
  case (Cons kv kvs)
  obtain b1 b2 b3 b4 where 1: "(if ini then Some b else append_lit '', '' b) = Some b1"
    "splice (elog_render env (fst kv) b1) = Some b2" "append_lit '': '' b2 = Some b3"
    "splice (elog_render env (snd kv) b3) = Some b4" "render_entries env False kvs b4 = Some b'"
    using Cons.prems(1) by (cases kv) (auto simp: bind_eq_Some_conv)
  have here: "kv \<in> set (kv # kvs)" by simp
  have "evolves env b b1" using 1(1) append_lit_evolves by (auto split: if_splits)
  also have "evolves env b1 b2" by (rule splice_evolves [OF 1(2) Cons.prems(2) [OF here]])
  also have "evolves env b2 b3" by (rule append_lit_evolves [OF 1(3)])
  also have "evolves env b3 b4" by (rule splice_evolves [OF 1(4) Cons.prems(3) [OF here]])
  also have "evolves env b4 b'" using Cons.prems(2,3) by (intro Cons.IH [OF 1(5)]) (meson list.set_intros(2))+
  finally show ?case .
qed simp

lemma container_placed:
  assumes "do { b1 \<leftarrow> append_lit s b; b2 \<leftarrow> f b1; b3 \<leftarrow> append_lit t b2; Some (scratch_iov (pos b) b3, b3) } =
      Some (iv, b')"
    and "\<And>b1 b2. f b1 = Some b2 \<Longrightarrow> evolves env b1 b2"
  shows "placed env b iv b'"
proof -
  obtain b1 b2 where 1: "append_lit s b = Some b1" "f b1 = Some b2" "append_lit t b2 = Some b'"
    "iv = scratch_iov (pos b) b'"
    using assms(1) by (auto simp: bind_eq_Some_conv)
  have "evolves env b b1" by (rule append_lit_evolves [OF 1(1)])
  also have "evolves env b1 b2" by (rule assms(2) [OF 1(2)])
  also have "evolves env b2 b'" by (rule append_lit_evolves [OF 1(3)])
  finally show ?thesis using 1(4) placed_here by simp
qed

lemma render_placed:
  "readable env v \<Longrightarrow> elog_render env v b = Some (iv, b') \<Longrightarrow> placed env b iv b'"
proof (induction v arbitrary: b iv b')
  case (VPadLeft v w c)
  have "render_padded (elog_render env v b) (pos b) w c False = Some (iv, b')" "readable env v"
    using VPadLeft.prems by simp_all
  then show ?case using VPadLeft.IH padded_placed by blast
next
  case (VPadRight v w c)
  have "render_padded (elog_render env v b) (pos b) w c True = Some (iv, b')" "readable env v"
    using VPadRight.prems by simp_all
  then show ?case using VPadRight.IH padded_placed by blast
next
  case (VNullable x)
  then show ?case
    by (cases x) (auto simp: bind_eq_Some_conv intro!: placed_here append_lit_evolves)
next
  case (VUser k)
  then show ?case by (simp add: user_ok_def)
next
  case (VJoin vs sep)
  then obtain b1 where 1: "render_elems env True sep vs b = Some b1" "iv = scratch_iov (pos b) b1" "b' = b1"
    by (auto simp: bind_eq_Some_conv)
  have "evolves env b b1"
    by (rule elems_evolve [OF VJoin.IH _ 1(1)]) (use VJoin.prems in auto)
  then show ?case using 1 placed_here by simp
next
  case (VVector vs)
  have e: "render_elems env True '', '' vs b1 = Some b2 \<Longrightarrow> evolves env b1 b2" for b1 b2
    by (rule elems_evolve [OF VVector.IH]) (use VVector.prems in auto)
  show ?case using VVector.prems(2) e by (simp only: elog_render.simps, elim container_placed)
next
  case (VArray vs)
  have e: "render_elems env True '', '' vs b1 = Some b2 \<Longrightarrow> evolves env b1 b2" for b1 b2
    by (rule elems_evolve [OF VArray.IH]) (use VArray.prems in auto)
  show ?case using VArray.prems(2) e by (simp only: elog_render.simps, elim container_placed)
next
  case (VSet vs)
  have e: "render_elems env True '', '' vs b1 = Some b2 \<Longrightarrow> evolves env b1 b2" for b1 b2
    by (rule elems_evolve [OF VSet.IH]) (use VSet.prems in auto)
  show ?case using VSet.prems(2) e by (simp only: elog_render.simps, elim container_placed)
next
  case (VTuple vs)
  show ?case
  proof (cases "vs = []")
    case True
    then show ?thesis using VTuple.prems by (auto simp: bind_eq_Some_conv intro!: placed_here append_lit_evolves)
  next
    case False
    have e: "render_elems env True '', '' vs b1 = Some b2 \<Longrightarrow> evolves env b1 b2" for b1 b2
      by (rule elems_evolve [OF VTuple.IH]) (use VTuple.prems in auto)
    show ?thesis
      using VTuple.prems(2) e by (simp only: elog_render.simps False if_False, elim container_placed)
  qed
next
  case (VMap kvs)
  have "evolves env b1 b2" if "render_entries env True kvs b1 = Some b2" for b1 b2
  proof (rule render_entries_evolves [OF _ _ that])
    fix kv b iv b'
    assume kv: "kv \<in> set kvs"
    then have "case kv of (k, v) \<Rightarrow> readable env k \<and> readable env v"
      using VMap.prems(1) by (simp only: readable.simps)
    then have r: "readable env (fst kv)" "readable env (snd kv)" by (simp_all split: prod.splits)
    have k: "fst kv \<in> Basic_BNFs.fsts kv" "snd kv \<in> Basic_BNFs.snds kv"
      by (simp_all add: fsts.simps snds.simps prod_eq_iff)
    show "elog_render env (fst kv) b = Some (iv, b') \<Longrightarrow> evolves env b b'"
      by (rule placed_evolves, rule VMap.IH(1) [OF kv k(1) r(1)])
    show "elog_render env (snd kv) b = Some (iv, b') \<Longrightarrow> evolves env b b'"
      by (rule placed_evolves, rule VMap.IH(2) [OF kv k(2) r(2)])
  qed
  with VMap.prems(2) show ?case by (simp only: elog_render.simps, elim container_placed)
next
  case (VPair x y)
  then obtain b1 b2 b3 b4 where 1: "append_lit ''('' b = Some b1" "splice (elog_render env x b1) = Some b2"
    "append_lit '', '' b2 = Some b3" "splice (elog_render env y b3) = Some b4" "append_lit '')'' b4 = Some b'"
    "iv = scratch_iov (pos b) b'"
    by (auto simp: bind_eq_Some_conv)
  have r: "readable env x" "readable env y" using VPair.prems(1) by simp_all
  have "evolves env b b1" by (rule append_lit_evolves [OF 1(1)])
  also have "evolves env b1 b2"
    by (rule splice_evolves [OF 1(2)], rule placed_evolves, rule VPair.IH(1) [OF r(1)])
  also have "evolves env b2 b3" by (rule append_lit_evolves [OF 1(3)])
  also have "evolves env b3 b4"
    by (rule splice_evolves [OF 1(4)], rule placed_evolves, rule VPair.IH(2) [OF r(2)])
  also have "evolves env b4 b'" by (rule append_lit_evolves [OF 1(5)])
  finally show ?case using 1(6) placed_here by simp
qed (simp_all add: render_long_double_def render_fixed_def Let_def placed_intros)

section \<open>The text that is rendered\<close>

lemma int_casts:
  "sint (scast (a :: u8) :: u64) = sint a" "sint (scast (b :: u16) :: u64) = sint b"
  "sint (scast (c :: u32) :: u64) = sint c"
  "unat (ucast (a :: u8) :: u64) = unat a" "unat (ucast (b :: u16) :: u64) = unat b"
  "unat (ucast (c :: u32) :: u64) = unat c"
  by (transfer; simp)+

text \<open>The bytes the loops over sequences and over entries add.\<close>

definition seq_text :: "bool \<Rightarrow> string \<Rightarrow> string list \<Rightarrow> string" where
  "seq_text ini sep ts = (if ini then join_str sep ts else concat (map (\<lambda>t. sep @ t) ts))"

lemma seq_text_Nil [simp]: "seq_text ini sep [] = []"
  by (simp add: seq_text_def)

lemma seq_text_Cons: "seq_text ini sep (t # ts) = (if ini then [] else sep) @ t @ seq_text False sep ts"
  by (simp add: seq_text_def)

definition renders_to :: "renv \<Rightarrow> val \<Rightarrow> bool" where
  "renders_to env v \<longleftrightarrow>
     (\<forall>b. rok env b \<longrightarrow> pos b + length (shown env v) + 32 \<le> 4096 \<longrightarrow>
        delivers env (shown env v) b (elog_render env v b))"

lemma renders_toI:
  "(\<And>b. rok env b \<Longrightarrow> pos b + length (shown env v) + 32 \<le> 4096 \<Longrightarrow>
     delivers env (shown env v) b (elog_render env v b)) \<Longrightarrow> renders_to env v"
  by (simp add: renders_to_def)

lemma delivers_eq: "delivers env t b r \<Longrightarrow> s = t \<Longrightarrow> delivers env s b r"
  by simp

lemma adds_val:
  "renders_to env v \<Longrightarrow> rok env b \<Longrightarrow> pos b + length (shown env v) + 32 \<le> 4096 \<Longrightarrow>
     adds env (shown env v) b (splice (elog_render env v b))"
  by (intro adds_splice) (simp_all add: renders_to_def)

lemma adds_sep:
  "rok env b \<Longrightarrow> pos b + length (if ini then [] else sep) \<le> 4096 \<Longrightarrow>
     adds env (if ini then [] else sep) b (if ini then Some b else append_lit sep b)"
  using adds_append_lit [of env b sep] by (cases ini) (auto simp: adds_def)

lemma adds_elems:
  assumes "\<forall>v \<in> set vs. renders_to env v"
  shows "rok env b \<Longrightarrow> pos b + length (seq_text ini sep (map (shown env) vs)) + 32 \<le> 4096 \<Longrightarrow>
     adds env (seq_text ini sep (map (shown env) vs)) b (render_elems env ini sep vs b)"
  using assms
proof (induction vs arbitrary: ini b)
  case Nil
  then show ?case by (simp add: adds_def)
next
  case (Cons v vs)
  let ?s = "if ini then [] else sep" and ?v = "shown env v" and ?rest = "seq_text False sep (map (shown env) vs)"
  have fit: "pos b + length ?s + length ?v + length ?rest + 32 \<le> 4096"
    using Cons.prems(2) by (simp add: seq_text_Cons split: if_splits)
  have "adds env (?s @ (?v @ ?rest)) b (render_elems env ini sep (v # vs) b)"
    unfolding render_elems.simps
  proof (rule adds_bind [OF adds_sep [OF Cons.prems(1)]])
    show "pos b + length ?s \<le> 4096" using fit by simp
    fix b1 assume 1: "appends env ?s b b1"
    show "adds env (?v @ ?rest) b1 (splice (elog_render env v b1) \<bind> render_elems env False sep vs)"
    proof (rule adds_bind [OF adds_val])
      show "renders_to env v" using Cons.prems(3) by simp
      show "rok env b1" by (rule appends_rok [OF 1 Cons.prems(1)])
      show "pos b1 + length ?v + 32 \<le> 4096" using fit appends_pos [OF 1] by simp
      fix b2 assume 2: "appends env ?v b1 b2"
      show "adds env ?rest b2 (render_elems env False sep vs b2)"
        using Cons.prems(3) fit appends_pos [OF 1] appends_pos [OF 2]
          appends_rok [OF 2 appends_rok [OF 1 Cons.prems(1)]]
        by (intro Cons.IH) auto
    qed
  qed
  then show ?case by (simp add: seq_text_Cons)
qed

lemma adds_entries:
  assumes "\<forall>kv \<in> set kvs. renders_to env (fst kv) \<and> renders_to env (snd kv)"
  defines "txt \<equiv> \<lambda>kv. shown env (fst kv) @ '': '' @ shown env (snd kv)"
  shows "rok env b \<Longrightarrow> pos b + length (seq_text ini '', '' (map txt kvs)) + 32 \<le> 4096 \<Longrightarrow>
     adds env (seq_text ini '', '' (map txt kvs)) b (render_entries env ini kvs b)"
  using assms(1)
proof (induction kvs arbitrary: ini b)
  case Nil
  then show ?case by (simp add: adds_def)
next
  case (Cons kv kvs)
  obtain x y where kv: "kv = (x, y)" by (cases kv)
  let ?s = "if ini then [] else '', ''" and ?x = "shown env x" and ?y = "shown env y"
  let ?rest = "seq_text False '', '' (map txt kvs)"
  have fit: "pos b + length ?s + length ?x + 2 + length ?y + length ?rest + 32 \<le> 4096"
    using Cons.prems(2) by (simp add: seq_text_Cons txt_def kv split: if_splits)
  have g: "renders_to env x" "renders_to env y" using Cons.prems(3) by (simp_all add: kv)
  have "adds env (?s @ (?x @ ('': '' @ (?y @ ?rest)))) b (render_entries env ini (kv # kvs) b)"
    unfolding kv render_entries.simps
  proof (rule adds_bind [OF adds_sep [OF Cons.prems(1)]])
    show "pos b + length ?s \<le> 4096" using fit by simp
    fix b1 assume 1: "appends env ?s b b1"
    note ok1 = appends_rok [OF 1 Cons.prems(1)] and p1 = appends_pos [OF 1]
    show "adds env (?x @ ('': '' @ (?y @ ?rest))) b1 (splice (elog_render env x b1) \<bind>
        (\<lambda>b2. append_lit '': '' b2 \<bind> (\<lambda>b3. splice (elog_render env y b3) \<bind> render_entries env False kvs)))"
    proof (rule adds_bind [OF adds_val [OF g(1) ok1]])
      show "pos b1 + length ?x + 32 \<le> 4096" using fit p1 by simp
      fix b2 assume 2: "appends env ?x b1 b2"
      note ok2 = appends_rok [OF 2 ok1] and p2 = appends_pos [OF 2]
      show "adds env ('': '' @ (?y @ ?rest)) b2
          (append_lit '': '' b2 \<bind> (\<lambda>b3. splice (elog_render env y b3) \<bind> render_entries env False kvs))"
      proof (rule adds_bind [OF adds_append_lit [OF ok2]])
        show "pos b2 + length '': '' \<le> 4096" using fit p1 p2 by simp
        fix b3 assume 3: "appends env '': '' b2 b3"
        note ok3 = appends_rok [OF 3 ok2] and p3 = appends_pos [OF 3]
        show "adds env (?y @ ?rest) b3 (splice (elog_render env y b3) \<bind> render_entries env False kvs)"
        proof (rule adds_bind [OF adds_val [OF g(2) ok3]])
          show "pos b3 + length ?y + 32 \<le> 4096" using fit p1 p2 p3 by simp
          fix b4 assume 4: "appends env ?y b3 b4"
          show "adds env ?rest b4 (render_entries env False kvs b4)"
            using Cons.prems(3) fit p1 p2 p3 appends_pos [OF 4] appends_rok [OF 4 ok3]
            by (intro Cons.IH) auto
        qed
      qed
    qed
  qed
  then show ?case by (simp add: seq_text_Cons txt_def kv)
qed

lemma delivers_container:
  assumes ok: "rok env b" and fit: "pos b + length (s @ t @ u) \<le> 4096"
    and f: "\<And>b1. rok env b1 \<Longrightarrow> pos b1 = pos b + length s \<Longrightarrow> adds env t b1 (f b1)"
  shows "delivers env (s @ t @ u) b
    (do { b1 \<leftarrow> append_lit s b; b2 \<leftarrow> f b1; b3 \<leftarrow> append_lit u b2; Some (scratch_iov (pos b) b3, b3) })"
proof (rule delivers_step [OF appends_refl adds_append_lit [OF ok]])
  show "pos b + length s \<le> 4096" using fit by simp
  fix b1 assume 1: "appends env ([] @ s) b b1"
  note ok1 = appends_rok [OF 1 ok] and p1 = appends_pos [OF 1]
  show "delivers env (s @ t @ u) b
      (do { b2 \<leftarrow> f b1; b3 \<leftarrow> append_lit u b2; Some (scratch_iov (pos b) b3, b3) })"
  proof (rule delivers_step [OF 1 f [OF ok1]])
    show "pos b1 = pos b + length s" using p1 by simp
    fix b2 assume 2: "appends env (([] @ s) @ t) b b2"
    show "delivers env (s @ t @ u) b (do { b3 \<leftarrow> append_lit u b2; Some (scratch_iov (pos b) b3, b3) })"
      by (rule delivers_step [OF 2 adds_append_lit [OF appends_rok [OF 2 ok]]],
          use fit appends_pos [OF 2] in simp) (erule delivers_close, simp)
  qed
qed

lemma delivers_elems:
  assumes "rok env b" "\<forall>v \<in> set vs. renders_to env v"
    "pos b + length (s @ join_str sep (map (shown env) vs) @ u) + 32 \<le> 4096"
  shows "delivers env (s @ join_str sep (map (shown env) vs) @ u) b
    (do { b1 \<leftarrow> append_lit s b; b2 \<leftarrow> render_elems env True sep vs b1; b3 \<leftarrow> append_lit u b2;
          Some (scratch_iov (pos b) b3, b3) })"
proof (rule delivers_container [OF assms(1)])
  show "pos b + length (s @ join_str sep (map (shown env) vs) @ u) \<le> 4096" using assms(3) by simp
  fix b1
  show "rok env b1 \<Longrightarrow> pos b1 = pos b + length s \<Longrightarrow>
      adds env (join_str sep (map (shown env) vs)) b1 (render_elems env True sep vs b1)"
    using adds_elems [OF assms(2), of b1 True sep] assms(3) by (simp add: seq_text_def)
qed

lemma shown_entries:
  "(\<lambda>(k, v). shown env k @ '': '' @ shown env v) = (\<lambda>kv. shown env (fst kv) @ '': '' @ shown env (snd kv))"
  by (auto simp: fun_eq_iff)

text \<open>Every double prints, in fewer bytes than \<open>render.cpp\<close> reserves.\<close>

lemma double_text: "format_double v = Some (double_str v)" "length (double_str v) \<le> 32"
  using double_prints [of v] by (auto simp: double_str_def)

lemma renders_val: "readable env v \<Longrightarrow> renders_to env v"
proof (induction v)
  case (VPadLeft v w c)
  show ?case unfolding renders_to_def
  proof (intro allI impI)
    fix b
    assume b: "rok env b" "pos b + length (shown env (VPadLeft v w c)) + 32 \<le> 4096"
    have "length (shown env v) \<le> length (shown env (VPadLeft v w c))" by (simp add: pad_str_def Let_def)
    then have "delivers env (shown env v) b (elog_render env v b)"
      using VPadLeft b by (simp add: renders_to_def)
    from delivers_padded [OF this b(1), of False w c] b(2)
    show "delivers env (shown env (VPadLeft v w c)) b (elog_render env (VPadLeft v w c) b)" by simp
  qed
next
  case (VPadRight v w c)
  show ?case unfolding renders_to_def
  proof (intro allI impI)
    fix b
    assume b: "rok env b" "pos b + length (shown env (VPadRight v w c)) + 32 \<le> 4096"
    have "length (shown env v) \<le> length (shown env (VPadRight v w c))" by (simp add: pad_str_def Let_def)
    then have "delivers env (shown env v) b (elog_render env v b)"
      using VPadRight b by (simp add: renders_to_def)
    from delivers_padded [OF this b(1), of True w c] b(2)
    show "delivers env (shown env (VPadRight v w c)) b (elog_render env (VPadRight v w c) b)" by simp
  qed
next
  case (VNullable x)
  show ?case
  proof (cases x)
    case None
    have "delivers env ''<null>'' b
        (append_lit ''<null>'' b \<bind> (\<lambda>b1. Some (scratch_iov (pos b) b1, b1)))"
      if "rok env b" "pos b + 6 \<le> 4096" for b
      by (rule delivers_step [OF appends_refl adds_append_lit [OF that(1)]], use that in simp)
        (erule delivers_close, simp)
    then show ?thesis by (simp add: None renders_to_def)
  next
    case (Some v)
    then have "renders_to env v" using VNullable by simp
    then show ?thesis by (simp add: Some renders_to_def)
  qed
next
  case (VUser k)
  then show ?case by (simp add: renders_to_def user_ok_def)
next
  case (VJoin vs sep)
  have g: "\<forall>v \<in> set vs. renders_to env v" using VJoin by simp
  have "delivers env (join_str sep (map (shown env) vs)) b
      (render_elems env True sep vs b \<bind> (\<lambda>b1. Some (scratch_iov (pos b) b1, b1)))"
    if "rok env b" "pos b + length (join_str sep (map (shown env) vs)) + 32 \<le> 4096" for b
    by (rule delivers_step [OF appends_refl], use adds_elems [OF g that(1), of True sep] that(2)
        in \<open>simp add: seq_text_def\<close>) (erule delivers_close, simp)
  then show ?case by (simp add: renders_to_def)
next
  case (VVector vs)
  have g: "\<forall>v \<in> set vs. renders_to env v" using VVector by simp
  show ?case using delivers_elems [OF _ g, of _ "''[''" "'', ''" "'']''"] by (simp add: renders_to_def)
next
  case (VArray vs)
  have g: "\<forall>v \<in> set vs. renders_to env v" using VArray by simp
  show ?case using delivers_elems [OF _ g, of _ "''[''" "'', ''" "'']''"] by (simp add: renders_to_def)
next
  case (VSet vs)
  have g: "\<forall>v \<in> set vs. renders_to env v" using VSet by simp
  show ?case using delivers_elems [OF _ g, of _ "''{''" "'', ''" "''}''"] by (simp add: renders_to_def)
next
  case (VTuple vs)
  have g: "\<forall>v \<in> set vs. renders_to env v" using VTuple by simp
  have e: "delivers env ''()'' b (append_lit ''()'' b \<bind> (\<lambda>b1. Some (scratch_iov (pos b) b1, b1)))"
    if "rok env b" "pos b + 2 \<le> 4096" for b
    by (rule delivers_step [OF appends_refl adds_append_lit [OF that(1)]], use that in simp)
      (erule delivers_close, simp)
  show ?case
    using delivers_elems [OF _ g, of _ "''(''" "'', ''" "'')''"] e by (simp add: renders_to_def)
next
  case (VMap kvs)
  have g: "\<forall>kv \<in> set kvs. renders_to env (fst kv) \<and> renders_to env (snd kv)"
  proof
    fix kv assume kv: "kv \<in> set kvs"
    then have "case kv of (k, v) \<Rightarrow> readable env k \<and> readable env v"
      using VMap.prems(1) by (simp only: readable.simps)
    moreover have "fst kv \<in> Basic_BNFs.fsts kv" "snd kv \<in> Basic_BNFs.snds kv"
      by (simp_all add: fsts.simps snds.simps prod_eq_iff)
    ultimately show "renders_to env (fst kv) \<and> renders_to env (snd kv)"
      using VMap.IH kv by (simp split: prod.splits)
  qed
  let ?j = "join_str '', '' (map (\<lambda>kv. shown env (fst kv) @ '': '' @ shown env (snd kv)) kvs)"
  have "delivers env (''{'' @ ?j @ ''}'') b (elog_render env (VMap kvs) b)"
    if b: "rok env b" "pos b + length (''{'' @ ?j @ ''}'') + 32 \<le> 4096" for b
    unfolding elog_render.simps
  proof (rule delivers_container [OF b(1)])
    show "pos b + length (''{'' @ ?j @ ''}'') \<le> 4096" using b(2) by simp
    fix b1
    show "rok env b1 \<Longrightarrow> pos b1 = pos b + length ''{'' \<Longrightarrow> adds env ?j b1 (render_entries env True kvs b1)"
      using adds_entries [OF g, of b1 True] b(2) by (simp add: seq_text_def)
  qed
  then show ?case by (simp only: renders_to_def shown.simps shown_entries) auto
next
  case (VPair x y)
  then have g: "renders_to env x" "renders_to env y" by simp_all
  show ?case unfolding renders_to_def
  proof (intro allI impI)
    fix b
    assume b: "rok env b" "pos b + length (shown env (VPair x y)) + 32 \<le> 4096"
    let ?x = "shown env x" and ?y = "shown env y"
    have fit: "pos b + length ?x + length ?y + 36 \<le> 4096" using b(2) by simp
    have "delivers env (''('' @ (?x @ ('', '' @ ?y)) @ '')'') b
      (do { b1 \<leftarrow> append_lit ''('' b;
            b4 \<leftarrow> splice (elog_render env x b1) \<bind> (\<lambda>b2. append_lit '', '' b2 \<bind> (\<lambda>b3. splice (elog_render env y b3)));
            b5 \<leftarrow> append_lit '')'' b4; Some (scratch_iov (pos b) b5, b5) })"
    proof (rule delivers_container [OF b(1)])
      show "pos b + length (''('' @ (?x @ ('', '' @ ?y)) @ '')'') \<le> 4096" using fit by simp
      fix b1 assume 1: "rok env b1" "pos b1 = pos b + length ''(''"
      show "adds env (?x @ ('', '' @ ?y)) b1
          (splice (elog_render env x b1) \<bind> (\<lambda>b2. append_lit '', '' b2 \<bind> (\<lambda>b3. splice (elog_render env y b3))))"
      proof (rule adds_bind [OF adds_val [OF g(1) 1(1)]])
        show "pos b1 + length ?x + 32 \<le> 4096" using fit 1(2) by simp
        fix b2 assume 2: "appends env ?x b1 b2"
        note ok2 = appends_rok [OF 2 1(1)] and p2 = appends_pos [OF 2]
        show "adds env ('', '' @ ?y) b2 (append_lit '', '' b2 \<bind> (\<lambda>b3. splice (elog_render env y b3)))"
        proof (rule adds_bind [OF adds_append_lit [OF ok2]])
          show "pos b2 + length '', '' \<le> 4096" using fit 1(2) p2 by simp
          fix b3 assume 3: "appends env '', '' b2 b3"
          show "adds env ?y b3 (splice (elog_render env y b3))"
            using fit 1(2) p2 appends_pos [OF 3] appends_rok [OF 3 ok2] by (intro adds_val [OF g(2)]) auto
        qed
      qed
    qed
    then show "delivers env (shown env (VPair x y)) b (elog_render env (VPair x y) b)"
      by (simp add: bind_assoc)
  qed
next
  case (VFloat v)
  then show ?case by (auto intro!: renders_toI delivers_double double_text)
next
  case (VDouble v)
  then show ?case by (auto intro!: renders_toI delivers_double double_text)
qed ((rule renders_toI; simp only: elog_render.simps render_long_double_def render_fixed_def Let_def;
      rule delivers_eq, rule delivered; auto simp: int_casts length_ext_bytes)+)

text \<open>
  So every overload keeps the contract of a renderer, for the values whose memory may be read: with
  32 free bytes beyond its text a value is rendered exactly, and its result can be told from
  borrowed memory by its address.
\<close>

interpretation rendered: direct_renderer "elog_render env" "shown env" 32 "rok env" "readable env" for env
proof
  fix x b v b'
  show "rok env b \<Longrightarrow> rbuf_ok b" by (simp add: rok_def)
  assume r: "elog_render env x b = Some (v, b')" "rok env b" "readable env x"
  note p = render_placed [OF r(3,1)]
  show "rok env b'" by (rule evolves_rok [OF placed_evolves [OF p] r(2)])
  show "extends b b'" using placed_evolves [OF p] by (simp add: evolves_def)
  show "in_range (pos b) (pos b') v" by (rule placed_in_range [OF p])
  show "direct b v b'" by (rule placed_direct [OF p])
next
  fix b x
  assume "rok env b" "readable env x" "pos b + length (shown env x) + 32 \<le> kScratchSize"
  then have "delivers env (shown env x) b (elog_render env x b)"
    using renders_val by (simp add: renders_to_def kScratchSize_def)
  then show "\<exists>v b'. elog_render env x b = Some (v, b') \<and> pos b' \<le> pos b + length (shown env x) \<and>
      iov_bytes (mem b') v = shown env x"
    using yields_bytes by (auto simp: delivers_def)
qed


section \<open>Properties\<close>

text \<open>
  C9: The arguments of one log call, rendered left to right through one scratch cursor, do not
  disturb each other: as long as their texts and 32 spare bytes fit in the scratch buffer, no write
  leaves the buffer, and after the last one every iovec still reads as the intended text of its own
  value, for all overloads, nested containers included.
\<close>

theorem arguments_independent:
  assumes "rok env b" "\<forall>x \<in> set xs. readable env x"
    "pos b + length (concat (map (shown env) xs)) + 32 \<le> kScratchSize"
  shows "\<exists>vs b'. render_seq (elog_render env) xs b = Some (vs, b') \<and> rok env b' \<and>
    map (iov_bytes (mem b')) vs = map (shown env) xs \<and>
    (\<forall>v \<in> set vs. in_range (pos b) (pos b') v) \<and>
    take (pos b) (mem b') = take (pos b) (mem b)"
proof -
  obtain vs b' where r: "render_seq (elog_render env) xs b = Some (vs, b')"
    "map (iov_bytes (mem b')) vs = map (shown env) xs"
    using rendered.seq_renders [OF assms] by blast
  with rendered.seq_frame [OF r(1) assms(1,2)] show ?thesis by (auto simp: extends_def)
qed

definition sample_env :: renv where
  "sample_env = \<lparr>fmt_fixed = (\<lambda>p v. ''1.50''), fmt_Lg = (\<lambda>v. ''1.5''),
     localtime_r = (\<lambda>t. \<lparr>tm_year = 124, tm_mon = 1, tm_mday = 29, tm_hour = 12, tm_min = 30, tm_sec = 59\<rparr>),
     this_thread = 1, gettid = 42, hash_tid = of_nat, user_render = \<lambda>_ _. None, user_text = \<lambda>_. []\<rparr>"

definition fresh_rbuf :: rbuf where
  "fresh_rbuf = \<lparr>mem = replicate 4096 (CHR 0x00), pos = 0, tid_cache = 0\<rparr>"

lemma fresh_rok [simp]: "rok env fresh_rbuf" "pos fresh_rbuf = 0"
  by (simp_all add: rok_def rbuf_ok_def fresh_rbuf_def kScratchSize_def)

theorem arguments_independent_witness:
  "\<exists>vs b'. render_seq (elog_render sample_env)
       [VVector [VInt (- 5), VUInt 7], VCStr (Some ''x''), VPadLeft (VHex 255) 6 CHR ''.'', VTuple [VThreadId 1]]
       fresh_rbuf = Some (vs, b') \<and>
     map (iov_bytes (mem b')) vs = [''[-5, 7]'', ''x'', ''....ff'', ''(42)'']"
proof -
  let ?xs = "[VVector [VInt (- 5), VUInt 7], VCStr (Some ''x''), VPadLeft (VHex 255) 6 CHR ''.'', VTuple [VThreadId 1]]"
  have num: "radix_str 10 5 = ''5''" "radix_str 10 7 = ''7''" "radix_str 16 255 = ''ff''" "radix_str 10 42 = ''42''"
    by (simp_all add: radix_str.simps digit_char_def char_of_def bit_Suc_0_iff)
  have four: "replicate 4 c = [c, c, c, c]" for c :: char by (simp add: numeral_eq_Suc)
  have s: "map (shown sample_env) ?xs = [''[-5, 7]'', ''x'', ''....ff'', ''(42)'']"
    by (simp add: int_str_def pad_str_def Let_def sample_env_def num four)
  have "\<forall>x \<in> set ?xs. readable sample_env x" by simp
  moreover have "pos fresh_rbuf + length (concat (map (shown sample_env) ?xs)) + 32 \<le> kScratchSize"
    unfolding s by (simp add: kScratchSize_def)
  ultimately show ?thesis
    using arguments_independent [OF fresh_rok(1), of ?xs sample_env] unfolding s by metis
qed

text \<open>
  The renderers of numbers write without looking at the room left: after an argument that is
  padded to the whole buffer, the next number is written past its end.
\<close>

theorem unchecked_write:
  assumes "rok env b" "pos b = 0"
  shows "render_seq (elog_render env) [VPadLeft (VInt x) 4096 c, VInt y] b = None"
proof -
  let ?s = "int_str (sint x)"
  have len: "length ?s \<le> 21"
  proof -
    have "length (radix_str 10 (nat \<bar>sint x\<bar>)) \<le> 10"
      using sint_ge [of x] sint_lt [of x] by (intro length_radix_str) (simp_all add: nat_less_iff)
    then show ?thesis by (auto simp: int_str_def)
  qed
  have d: "delivers env ?s b (elog_render env (VInt x) b)"
    using renders_val [of env "VInt x"] assms len by (simp add: renders_to_def)
  have pl: "length (pad_str False 4096 c ?s) = 4096" using len by (simp add: pad_str_def Let_def)
  obtain v b1 where 1: "elog_render env (VPadLeft (VInt x) 4096 c) b = Some (v, b1)"
    "yields env (pad_str False 4096 c ?s) b v b1"
    using delivers_padded [OF d assms(1), of False 4096 c] assms(2) pl by (auto simp: delivers_def)
  obtain u b0 where u: "elog_render env (VInt x) b = Some (u, b0)" "iov_len u = length ?s"
    using d length_ext_bytes by (fastforce simp: delivers_def yields_def)
  have "sint (4096 :: u32) = 4096" by simp
  then have "\<exists>a. iov_base v = Scratch a"
    using 1(1) len u
    by (auto simp: render_padded_def Let_def bind_eq_Some_conv scratch_iov_def split: if_splits)
  then have "appends env (pad_str False 4096 c ?s) b b1"
    using 1(2) by (auto simp: yields_def ext_ok_def)
  then have "pos b1 = 4096" "length (mem b1) = 4096"
    using appends_pos pl assms(2) appends_rok [OF _ assms(1)] by fastforce+
  moreover have "int_str (sint y) \<noteq> []" by (simp add: int_str_def)
  ultimately have "elog_render env (VInt y) b1 = None"
    by (simp add: render_signed_def put_iov_def put_str_eq int_casts)
  then show ?thesis by (simp add: 1(1) del: elog_render.simps)
qed

theorem unchecked_write_witness:
  "render_seq (elog_render sample_env) [VPadLeft (VInt 1) 4096 CHR '' '', VInt 5] fresh_rbuf = None"
  by (rule unchecked_write [of sample_env fresh_rbuf 1 "CHR '' ''" 5]) simp_all











text \<open>
  A time stamp that does not fit is cut by \<open>snprintf\<close>, but the cursor still advances by its full
  length: the renderer returns an iovec that reaches past the scratch buffer.
\<close>

theorem time_point_overrun:
  assumes "rok env b" "pos b \<le> kScratchSize" "length (time_text env t) \<le> INT_MAX"
    "pos b + length (time_text env t) > kScratchSize"
  shows "\<exists>v b'. render_time env t b = Some (v, b') \<and> pos b' > kScratchSize \<and>
    v = Iov (Scratch (pos b)) (length (time_text env t))"
proof -
  let ?s = "time_text env t" and ?z = "size_sub kScratchSize (pos b)"
  have z: "?z = 4096 - pos b" using assms(2) by (simp add: size_sub_def kScratchSize_def)
  have "\<exists>b1. c_snprintf ?s ?z b = Some (int (length ?s), b1)"
    using assms by (auto simp: c_snprintf_def size_sub_def Let_def kScratchSize_def)
  then obtain b1 where "c_snprintf ?s ?z b = Some (int (length ?s), b1)" by blast
  then show ?thesis using assms(4) by (simp add: render_time_def Let_def)
qed

lemma zero_pad_length:
  assumes "0 \<le> i" "i < 10 ^ w" "0 < w"
  shows "length (zero_pad w i) = w"
proof -
  have "nat i < 10 ^ w" using assms by (simp add: nat_less_iff)
  then have "length (radix_str 10 (nat i)) \<le> w" using assms by (intro length_radix_str) auto
  with assms(1) show ?thesis by (simp add: zero_pad_def Let_def)
qed

theorem time_point_overrun_witness:
  "\<exists>v b'. render_time sample_env 0 (fresh_rbuf\<lparr>pos := 4090\<rparr>) = Some (v, b') \<and> pos b' > kScratchSize"
proof -
  let ?b = "fresh_rbuf\<lparr>pos := 4090\<rparr>"
  have t: "length (time_text sample_env 0) = 23"
    by (simp add: time_text_def Let_def sample_env_def zero_pad_length signed_divide_int_def signed_modulo_int_def)
  have "rok sample_env ?b" using fresh_rok(1) [of sample_env] by (simp add: rok_def rbuf_ok_def)
  then show ?thesis
    using time_point_overrun [of sample_env ?b 0] t by (auto simp: kScratchSize_def INT_MAX_def)
qed

end
