(* ===== verification/Elog_Posix.thy ===== *)
theory Elog_Posix
  imports Elog_Prelude
begin

text \<open>
  The system calls the sinks make. Files are inodes with contents, names are a map from paths to
  inodes, an open file description has an offset and the \<open>O_APPEND\<close> flag. What the kernel may decide
  is given by schedules in the state, consumed call by call: a \<open>writev\<close> may be interrupted, fail, or
  accept fewer bytes than offered, \<open>open\<close>, \<open>rename\<close>, \<open>unlink\<close> and a non-throwing \<open>new\<close> may fail; with
  an empty schedule calls succeed. A \<open>writev\<close> of more than \<open>IOV_MAX\<close> vectors fails. An \<open>iovec\<close> array
  is the list of the byte blocks it points to.
\<close>

type_synonym iovecs = "byte list list"

datatype fault = WIntr | WErr | WShort nat

record node =
  contents :: "byte list"
  regular :: bool

record ofd =
  inode :: nat
  offset :: nat
  o_append :: bool

record os =
  names :: "string \<Rightarrow> nat option"
  nodes :: "nat \<Rightarrow> node"
  next_node :: nat
  fds :: "int \<Rightarrow> ofd option"
  next_fd :: nat
  write_faults :: "fault list"
  open_faults :: "bool list"
  rename_faults :: "bool list"
  unlink_faults :: "bool list"
  alloc_faults :: "bool list"
  synced :: "nat set" \<comment> \<open>inodes \<open>fsync\<close> was called on since their last write\<close>

definition IOV_MAX :: nat where
  "IOV_MAX = 1024"

text \<open>Take the next entry of a schedule.\<close>

definition next_fails :: "bool list \<Rightarrow> bool" where
  "next_fails fs = (case fs of [] \<Rightarrow> False | f # _ \<Rightarrow> f)"

section \<open>\<open>writev\<close>\<close>

datatype wres = Interrupted | Failed | Wrote nat

text \<open>Writing at an offset; a gap is filled with zeros.\<close>

definition write_at :: "nat \<Rightarrow> byte list \<Rightarrow> byte list \<Rightarrow> byte list" where
  "write_at k bs xs = take k (xs @ replicate (k - length xs) (CHR 0x00)) @ bs @ drop (k + length bs) xs"

definition put_bytes :: "int \<Rightarrow> ofd \<Rightarrow> byte list \<Rightarrow> os \<Rightarrow> os" where
  "put_bytes fd d bs s =
     (let nd = nodes s (inode d);
          k = (if o_append d then length (contents nd) else offset d)
      in s\<lparr>nodes := (nodes s)(inode d := nd\<lparr>contents := write_at k bs (contents nd)\<rparr>),
           fds := (fds s)(fd \<mapsto> d\<lparr>offset := k + length bs\<rparr>),
           synced := synced s - {inode d}\<rparr>)"

definition sys_writev :: "int \<Rightarrow> iovecs \<Rightarrow> os \<Rightarrow> wres \<times> os" where
  "sys_writev fd p s =
     (case fds s fd of
        None \<Rightarrow> (Failed, s)
      | Some d \<Rightarrow>
          if length p > IOV_MAX then (Failed, s)
          else case write_faults s of
              [] \<Rightarrow> (Wrote (length (concat p)), put_bytes fd d (concat p) s)
            | WIntr # r \<Rightarrow> (Interrupted, s\<lparr>write_faults := r\<rparr>)
            | WErr # r \<Rightarrow> (Failed, s\<lparr>write_faults := r\<rparr>)
            | WShort k # r \<Rightarrow>
                let bs = take k (concat p)
                in (Wrote (length bs), put_bytes fd d bs (s\<lparr>write_faults := r\<rparr>)))"

section \<open>Names\<close>

record oflags =
  f_append :: bool
  f_trunc :: bool

definition sys_open :: "string \<Rightarrow> oflags \<Rightarrow> os \<Rightarrow> int \<times> os" where
  "sys_open path f s =
     (let s1 = s\<lparr>open_faults := tl (open_faults s)\<rparr>
      in if next_fails (open_faults s) then (- 1, s1)
         else
           let (i, s2) =
                 (case names s1 path of
                    Some i \<Rightarrow>
                      (i, if f_trunc f
                          then s1\<lparr>nodes := (nodes s1)(i := (nodes s1 i)\<lparr>contents := []\<rparr>)\<rparr> else s1)
                  | None \<Rightarrow>
                      (next_node s1,
                       s1\<lparr>names := (names s1)(path \<mapsto> next_node s1),
                          nodes := (nodes s1)(next_node s1 := \<lparr>contents = [], regular = True\<rparr>),
                          next_node := next_node s1 + 1\<rparr>));
               fd = int (next_fd s2)
           in (fd, s2\<lparr>fds := (fds s2)(fd \<mapsto> \<lparr>inode = i, offset = 0, o_append = f_append f\<rparr>),
                      next_fd := next_fd s2 + 1\<rparr>))"

definition sys_close :: "int \<Rightarrow> os \<Rightarrow> os" where
  "sys_close fd s = s\<lparr>fds := (fds s)(fd := None)\<rparr>"

definition sys_fsync :: "int \<Rightarrow> os \<Rightarrow> os" where
  "sys_fsync fd s =
     (case fds s fd of None \<Rightarrow> s | Some d \<Rightarrow> s\<lparr>synced := insert (inode d) (synced s)\<rparr>)"

definition sys_rename :: "string \<Rightarrow> string \<Rightarrow> os \<Rightarrow> os" where
  "sys_rename src dst s =
     (let s1 = s\<lparr>rename_faults := tl (rename_faults s)\<rparr>
      in if next_fails (rename_faults s) then s1
         else case names s1 src of
             None \<Rightarrow> s1
           | Some i \<Rightarrow>
               if names s1 dst = Some i then s1
               else s1\<lparr>names := (names s1)(src := None, dst \<mapsto> i)\<rparr>)"

definition sys_unlink :: "string \<Rightarrow> os \<Rightarrow> os" where
  "sys_unlink path s =
     (let s1 = s\<lparr>unlink_faults := tl (unlink_faults s)\<rparr>
      in if next_fails (unlink_faults s) then s1
         else s1\<lparr>names := (names s1)(path := None)\<rparr>)"

text \<open>\<open>stat\<close>: the node a path names.\<close>

definition sys_stat :: "string \<Rightarrow> os \<Rightarrow> node option" where
  "sys_stat path s = (case names s path of None \<Rightarrow> None | Some i \<Rightarrow> Some (nodes s i))"

definition sys_alloc :: "os \<Rightarrow> bool \<times> os" where
  "sys_alloc s = (\<not> next_fails (alloc_faults s), s\<lparr>alloc_faults := tl (alloc_faults s)\<rparr>)"

text \<open>What a path reads as.\<close>

definition file_at :: "os \<Rightarrow> string \<Rightarrow> byte list option" where
  "file_at s path = (case names s path of None \<Rightarrow> None | Some i \<Rightarrow> Some (contents (nodes s i)))"

section \<open>Well-formed states\<close>

text \<open>Names and descriptors refer to inodes that exist; the next numbers are free.\<close>

definition os_ok :: "os \<Rightarrow> bool" where
  "os_ok s \<longleftrightarrow>
     (\<forall>p i. names s p = Some i \<longrightarrow> i < next_node s) \<and>
     (\<forall>fd d. fds s fd = Some d \<longrightarrow> 0 \<le> fd \<and> fd < int (next_fd s) \<and> inode d < next_node s)"

definition no_faults :: "os \<Rightarrow> bool" where
  "no_faults s \<longleftrightarrow>
     write_faults s = [] \<and> open_faults s = [] \<and> rename_faults s = [] \<and> unlink_faults s = [] \<and>
     alloc_faults s = []"

lemma os_ok_put_bytes: "os_ok s \<Longrightarrow> fds s fd = Some d \<Longrightarrow> os_ok (put_bytes fd d bs s)"
  by (auto simp: os_ok_def put_bytes_def Let_def)

lemma put_bytes_sel [simp]:
  "names (put_bytes fd d bs s) = names s" "next_node (put_bytes fd d bs s) = next_node s"
  "next_fd (put_bytes fd d bs s) = next_fd s" "write_faults (put_bytes fd d bs s) = write_faults s"
  "open_faults (put_bytes fd d bs s) = open_faults s"
  "rename_faults (put_bytes fd d bs s) = rename_faults s"
  "unlink_faults (put_bytes fd d bs s) = unlink_faults s"
  "alloc_faults (put_bytes fd d bs s) = alloc_faults s"
  by (simp_all add: put_bytes_def Let_def)

lemma write_at_end: "write_at (length xs) bs xs = xs @ bs"
  by (simp add: write_at_def)

lemma os_ok_writev: "os_ok s \<Longrightarrow> os_ok (snd (sys_writev fd p s))"
  by (auto simp: sys_writev_def Let_def split: option.splits list.splits fault.splits
      intro!: os_ok_put_bytes)
    (auto simp: os_ok_def)

lemma os_ok_open: "os_ok s \<Longrightarrow> os_ok (snd (sys_open path f s))"
  by (auto simp: sys_open_def os_ok_def Let_def less_SucI split: option.splits if_splits) fastforce+

lemma os_ok_close: "os_ok s \<Longrightarrow> os_ok (sys_close fd s)"
  by (auto simp: sys_close_def os_ok_def split: if_splits)

lemma os_ok_rename: "os_ok s \<Longrightarrow> os_ok (sys_rename src dst s)"
  by (auto simp: sys_rename_def os_ok_def Let_def split: option.splits if_splits)

lemma os_ok_unlink: "os_ok s \<Longrightarrow> os_ok (sys_unlink p s)"
  by (auto simp: sys_unlink_def os_ok_def Let_def split: if_splits)

lemma os_ok_fsync: "os_ok s \<Longrightarrow> os_ok (sys_fsync fd s)"
  by (auto simp: sys_fsync_def os_ok_def split: option.splits)

lemma no_faults_ops:
  assumes "no_faults s"
  shows "no_faults (put_bytes fd d bs s)" "no_faults (snd (sys_writev fd p s))"
    "no_faults (snd (sys_open path f s))" "no_faults (sys_close fd s)" "no_faults (sys_fsync fd s)"
    "no_faults (sys_rename src dst s)" "no_faults (sys_unlink path s)" "no_faults (snd (sys_alloc s))"
  using assms
  by (auto simp: no_faults_def put_bytes_def sys_writev_def sys_open_def sys_close_def sys_fsync_def
      sys_rename_def sys_unlink_def sys_alloc_def Let_def split: option.splits list.splits)

end
