(* ===== verification/Elog_Sink.thy ===== *)
theory Elog_Sink
  imports Elog_Posix Elog_Level
begin

text \<open>
  \<open>src/sink.cpp\<close> and the interface of \<open>include/elog/sink.hpp\<close>: \<open>writev_all\<close>, which repeats a partial
  or interrupted \<open>writev\<close>, and the sink on a file descriptor with its coloured layout. The locale
  \<open>sink\<close> is the contract the logger relies on: what a sink holds (\<open>held\<close>: on disk and in its own
  buffer) grows by the payload of each line; a sink may let go of old bytes only from the front.
\<close>

section \<open>\<open>writev_all\<close>\<close>

text \<open>
  The inner \<open>while\<close>: skip the vectors \<open>writev\<close> has consumed, advance into the next one. The argument
  is the rest of the array, from \<open>idx\<close>.
\<close>

fun advance :: "nat \<Rightarrow> iovecs \<Rightarrow> iovecs" where
  "advance adv [] = []"
| "advance adv (x # xs) =
     (if adv \<ge> length x then advance (adv - length x) xs
      else if adv > 0 then drop adv x # xs else x # xs)"

lemma concat_advance: "adv \<le> length (concat p) \<Longrightarrow> concat (advance adv p) = drop adv (concat p)"
  by (induction adv p rule: advance.induct) auto

lemma advance_all: "advance (length (concat p)) p = []"
  by (induction p) auto

lemma length_advance: "length (advance adv p) \<le> length p"
  by (induction adv p rule: advance.induct) (auto intro: le_SucI)

lemma sys_writev_progress:
  assumes "sys_writev fd p s = (r, s')"
  shows "r = Failed \<or> (write_faults s = [] \<and> r = Wrote (length (concat p)) \<and> write_faults s' = []) \<or>
    length (write_faults s') < length (write_faults s)"
  using assms by (auto simp: sys_writev_def Let_def split: option.splits if_splits list.splits fault.splits)

function writev_loop :: "int \<Rightarrow> iovecs \<Rightarrow> os \<Rightarrow> os" where
  "writev_loop fd p s =
     (if p = [] then s
      else case sys_writev fd p s of
          (Interrupted, s') \<Rightarrow> writev_loop fd p s'
        | (Failed, s') \<Rightarrow> s'
        | (Wrote w, s') \<Rightarrow> writev_loop fd (advance w p) s')"
  by pat_completeness auto
termination
proof (relation "measure (\<lambda>(fd, p, s). length (write_faults s) + (if p = [] then 0 else 1))")
  fix fd p s r s'
  assume p: "p \<noteq> []" and w: "(r, s') = sys_writev fd p s"
  {
    assume "r = Interrupted"
    then show "((fd, p, s'), fd, p, s) \<in> measure (\<lambda>(fd, p, s). length (write_faults s) + (if p = [] then 0 else 1))"
      using sys_writev_progress [of fd p s r s'] p w by auto
  next
    fix k assume "r = Wrote k"
    then show "((fd, advance k p, s'), fd, p, s) \<in> measure (\<lambda>(fd, p, s). length (write_faults s) + (if p = [] then 0 else 1))"
      using sys_writev_progress [of fd p s r s'] p w advance_all [of p] by auto
  }
qed auto

declare writev_loop.simps [simp del]

definition writev_all :: "int \<Rightarrow> iovecs \<Rightarrow> os \<Rightarrow> os" where
  "writev_all fd iov s =
     (if length iov \<le> 64 then writev_loop fd iov s
      else let (ok, s) = sys_alloc s in if \<not> ok then s else writev_loop fd iov s)"

section \<open>What a sequence of partial writes leaves in the file\<close>

text \<open>A descriptor whose next write lands at the end of its file.\<close>

definition at_end :: "os \<Rightarrow> ofd \<Rightarrow> bool" where
  "at_end s d \<longleftrightarrow> o_append d \<or> offset d = length (contents (nodes s (inode d)))"

definition fd_ok :: "int \<Rightarrow> os \<Rightarrow> bool" where
  "fd_ok fd s \<longleftrightarrow> (\<exists>d. fds s fd = Some d \<and> at_end s d)"

definition fd_contents :: "int \<Rightarrow> os \<Rightarrow> byte list" where
  "fd_contents fd s = (case fds s fd of None \<Rightarrow> [] | Some d \<Rightarrow> contents (nodes s (inode d)))"

text \<open>From \<open>s\<close> to \<open>s'\<close> the file behind \<open>fd\<close> got \<open>bs\<close> at its end, and nothing else happened.\<close>

definition appended :: "int \<Rightarrow> byte list \<Rightarrow> os \<Rightarrow> os \<Rightarrow> bool" where
  "appended fd bs s s' \<longleftrightarrow>
     (\<exists>d d'. fds s fd = Some d \<and> at_end s d \<and> fds s' = (fds s)(fd \<mapsto> d') \<and>
        inode d' = inode d \<and> o_append d' = o_append d \<and> at_end s' d' \<and>
        nodes s' = (nodes s)(inode d := (nodes s (inode d))
          \<lparr>contents := contents (nodes s (inode d)) @ bs\<rparr>)) \<and>
     names s' = names s \<and> next_node s' = next_node s \<and> next_fd s' = next_fd s \<and>
     open_faults s' = open_faults s \<and> rename_faults s' = rename_faults s \<and>
     unlink_faults s' = unlink_faults s"

lemma appended_ok: "appended fd bs s s' \<Longrightarrow> fd_ok fd s'"
  by (auto simp: appended_def fd_ok_def)

lemma appended_contents: "appended fd bs s s' \<Longrightarrow> fd_contents fd s' = fd_contents fd s @ bs"
  by (auto simp: appended_def fd_contents_def)

lemma appended_names: "appended fd bs s s' \<Longrightarrow> names s' = names s"
  by (simp add: appended_def)

lemma appended_other:
  "appended fd bs s s' \<Longrightarrow> fds s fd = Some d \<Longrightarrow> i \<noteq> inode d \<Longrightarrow> nodes s' i = nodes s i"
  by (auto simp: appended_def)

lemma appended_os_ok: "appended fd bs s s' \<Longrightarrow> os_ok s \<Longrightarrow> os_ok s'"
  by (auto simp: appended_def os_ok_def split: if_splits)

lemma appended_refl: "fd_ok fd s \<Longrightarrow> appended fd [] s s"
proof -
  assume "fd_ok fd s"
  then obtain d where d: "fds s fd = Some d" "at_end s d" by (auto simp: fd_ok_def)
  then have "fds s = (fds s)(fd \<mapsto> d)" by (simp add: fun_upd_idem)
  with d show ?thesis unfolding appended_def by (intro conjI exI [of _ d]) simp_all
qed

lemma appended_trans:
  assumes "appended fd as s s'" "appended fd bs s' s''"
  shows "appended fd (as @ bs) s s''"
  using assms by (auto simp: appended_def)

lemma appended_put:
  assumes "fds s fd = Some d" "at_end s d"
  shows "appended fd bs s (put_bytes fd d bs s)"
  using assms by (auto simp: appended_def put_bytes_def at_end_def write_at_end Let_def)

lemma appended_faults_first:
  "appended fd bs (s\<lparr>write_faults := f\<rparr>) s' \<longleftrightarrow> appended fd bs s s'"
  by (simp add: appended_def at_end_def)

lemma appended_faults_last:
  "appended fd bs s (s'\<lparr>write_faults := f\<rparr>) \<longleftrightarrow> appended fd bs s s'"
  by (simp add: appended_def at_end_def)

lemma sys_writev_appended:
  assumes "sys_writev fd p s = (r, s')" "fd_ok fd s" "length p \<le> IOV_MAX"
  shows "(\<exists>w. r = Wrote w \<and> w \<le> length (concat p) \<and> appended fd (take w (concat p)) s s') \<or>
    r \<noteq> Failed \<and> r = Interrupted \<and> appended fd [] s s' \<or>
    r = Failed \<and> appended fd [] s s' \<and> WErr \<in> set (write_faults s)"
proof -
  obtain d where d: "fds s fd = Some d" "at_end s d" using assms(2) by (auto simp: fd_ok_def)
  have d': "fds (s\<lparr>write_faults := f\<rparr>) fd = Some d" "at_end (s\<lparr>write_faults := f\<rparr>) d" for f
    using d by (simp_all add: at_end_def)
  have r: "appended fd [] s (s\<lparr>write_faults := f\<rparr>)" for f
    using appended_refl [OF assms(2)] by (simp add: appended_faults_last)
  have a: "appended fd bs s (put_bytes fd d bs (s\<lparr>write_faults := f\<rparr>))" for bs f
    using appended_put [OF d', of bs f] by (simp add: appended_faults_first)
  have t: "take (min (length xs) k) xs = take k xs" for xs :: "byte list" and k by (simp add: min_def)
  show ?thesis
    using assms(1,3) d r appended_put [OF d, of "concat p"] a
    by (auto simp: sys_writev_def Let_def t split: list.splits fault.splits)
qed

lemma sys_writev_faults:
  "sys_writev fd p s = (r, s') \<Longrightarrow> set (write_faults s') \<subseteq> set (write_faults s) \<and> alloc_faults s' = alloc_faults s"
  by (auto simp: sys_writev_def Let_def split: option.splits if_splits list.splits fault.splits)

text \<open>
  However \<open>writev\<close> splits the work, a prefix of the line is appended, each byte once and in order;
  all of it unless a call fails.
\<close>

lemma writev_loop_appends:
  "fd_ok fd s \<Longrightarrow> length p \<le> IOV_MAX \<Longrightarrow>
     \<exists>m. appended fd (take m (concat p)) s (writev_loop fd p s) \<and>
       (WErr \<notin> set (write_faults s) \<longrightarrow> length (concat p) \<le> m) \<and>
       set (write_faults (writev_loop fd p s)) \<subseteq> set (write_faults s) \<and>
       alloc_faults (writev_loop fd p s) = alloc_faults s"
proof (induction fd p s rule: writev_loop.induct)
  case (1 fd p s)
  show ?case
  proof (cases "p = []")
    case True
    then show ?thesis using appended_refl [OF 1(3)] by (simp add: writev_loop.simps)
  next
    case False
    obtain r s' where w: "sys_writev fd p s = (r, s')" by fastforce
    note app = sys_writev_appended [OF w 1(3,4)] and fl = sys_writev_faults [OF w]
    show ?thesis
    proof (cases r)
      case Interrupted
      then have a: "appended fd [] s s'" using app by auto
      obtain m where m: "appended fd (take m (concat p)) s' (writev_loop fd p s')"
        "WErr \<notin> set (write_faults s') \<longrightarrow> length (concat p) \<le> m"
        "set (write_faults (writev_loop fd p s')) \<subseteq> set (write_faults s')"
        "alloc_faults (writev_loop fd p s') = alloc_faults s'"
        using 1(1) [OF False w [symmetric] Interrupted appended_ok [OF a] 1(4)] by blast
      have "writev_loop fd p s = writev_loop fd p s'"
        using False w Interrupted by (subst writev_loop.simps) simp
      then show ?thesis
        using appended_trans [OF a m(1)] m fl by (intro exI [of _ m]) auto
    next
      case Failed
      then have "writev_loop fd p s = s'" using False w by (subst writev_loop.simps) simp
      then show ?thesis using app Failed fl by (intro exI [of _ 0]) auto
    next
      case (Wrote w')
      then have a: "appended fd (take w' (concat p)) s s'" and le: "w' \<le> length (concat p)"
        using app by auto
      have "length (advance w' p) \<le> IOV_MAX" using length_advance [of w' p] 1(4) by linarith
      then obtain m where m: "appended fd (take m (concat (advance w' p))) s' (writev_loop fd (advance w' p) s')"
        "WErr \<notin> set (write_faults s') \<longrightarrow> length (concat (advance w' p)) \<le> m"
        "set (write_faults (writev_loop fd (advance w' p) s')) \<subseteq> set (write_faults s')"
        "alloc_faults (writev_loop fd (advance w' p) s') = alloc_faults s'"
        using 1(2) [OF False w [symmetric] Wrote appended_ok [OF a]] by blast
      have "writev_loop fd p s = writev_loop fd (advance w' p) s'"
        using False w Wrote by (subst writev_loop.simps) simp
      moreover have "take w' (concat p) @ take m (drop w' (concat p)) = take (w' + m) (concat p)"
        by (simp add: take_add)
      ultimately show ?thesis
        using appended_trans [OF a m(1)] m fl concat_advance [OF le] le
        by (intro exI [of _ "w' + m"]) auto
    qed
  qed
qed

text \<open>The kernel only interrupts or shortens calls, and memory is available.\<close>

definition benign :: "os \<Rightarrow> bool" where
  "benign s \<longleftrightarrow> WErr \<notin> set (write_faults s) \<and> alloc_faults s = []"

lemma writev_loop_whole:
  assumes "fd_ok fd s" "length p \<le> IOV_MAX" "benign s"
  shows "appended fd (concat p) s (writev_loop fd p s) \<and> benign (writev_loop fd p s)"
  using writev_loop_appends [OF assms(1,2)] assms(3) by (auto simp: benign_def)

lemma benign_alloc [simp]: "benign s \<Longrightarrow> sys_alloc s = (True, s)"
  by (simp add: sys_alloc_def benign_def next_fails_def)

lemma writev_all_whole:
  assumes "fd_ok fd s" "length p \<le> IOV_MAX" "benign s"
  shows "appended fd (concat p) s (writev_all fd p s) \<and> benign (writev_all fd p s)"
  using writev_loop_whole [OF assms] assms(3) by (simp add: writev_all_def)

section \<open>The sink on a file descriptor\<close>

record fd_sink =
  fs_fd :: int
  fs_owns :: bool
  fs_colored :: bool

text \<open>\<open>[color][iov[0..n-2]][reset][iov[n-1]]\<close>\<close>

definition colored_layout :: "Level \<Rightarrow> iovecs \<Rightarrow> iovecs" where
  "colored_layout lvl iov = [level_color lvl] @ butlast iov @ [level_color_reset] @ [last iov]"

definition fd_write :: "fd_sink \<Rightarrow> Level \<Rightarrow> iovecs \<Rightarrow> os \<Rightarrow> os" where
  "fd_write k lvl iov s =
     (if fs_fd k < 0 \<or> iov = [] then s
      else if \<not> fs_colored k then writev_all (fs_fd k) iov s
      else let total = length iov + 2
           in if total \<le> 80 then writev_all (fs_fd k) (colored_layout lvl iov) s
              else let (ok, s) = sys_alloc s
                   in if \<not> ok then writev_all (fs_fd k) iov s
                      else writev_all (fs_fd k) (colored_layout lvl iov) s)"

definition fd_flush :: "fd_sink \<Rightarrow> os \<Rightarrow> os" where
  "fd_flush k s = (if fs_fd k \<ge> 0 then sys_fsync (fs_fd k) s else s)"

definition fd_destroy :: "fd_sink \<Rightarrow> os \<Rightarrow> os" where
  "fd_destroy k s = (if fs_owns k \<and> fs_fd k \<ge> 0 then sys_close (fs_fd k) s else s)"

definition make_stderr_sink :: "bool \<Rightarrow> fd_sink" where
  "make_stderr_sink colored = \<lparr>fs_fd = 2, fs_owns = False, fs_colored = colored\<rparr>"

definition make_stdout_sink :: "bool \<Rightarrow> fd_sink" where
  "make_stdout_sink colored = \<lparr>fs_fd = 1, fs_owns = False, fs_colored = colored\<rparr>"

definition make_file_sink :: "string \<Rightarrow> os \<Rightarrow> fd_sink option \<times> os" where
  "make_file_sink path s =
     (let (fd, s) = sys_open path \<lparr>f_append = True, f_trunc = False\<rparr> s
      in if fd < 0 then (None, s) else (Some \<lparr>fs_fd = fd, fs_owns = True, fs_colored = False\<rparr>, s))"

definition fd_payload :: "fd_sink \<Rightarrow> Level \<Rightarrow> iovecs \<Rightarrow> byte list" where
  "fd_payload k lvl iov =
     (if iov = [] then []
      else if fs_colored k
      then level_color lvl @ concat (butlast iov) @ level_color_reset @ last iov
      else concat iov)"

lemma concat_colored_layout: "concat (colored_layout lvl iov) =
    level_color lvl @ concat (butlast iov) @ level_color_reset @ last iov"
  by (simp add: colored_layout_def)

lemma length_colored_layout: "iov \<noteq> [] \<Longrightarrow> length (colored_layout lvl iov) = length iov + 2"
  by (simp add: colored_layout_def)

lemma fd_write_appends:
  assumes "0 \<le> fs_fd k" "fd_ok (fs_fd k) s" "length iov + 2 \<le> IOV_MAX" "benign s"
  shows "appended (fs_fd k) (fd_payload k lvl iov) s (fd_write k lvl iov s) \<and> benign (fd_write k lvl iov s)"
proof (cases "iov = []")
  case True
  then show ?thesis
    using assms appended_refl by (simp add: fd_write_def fd_payload_def)
next
  case False
  have "length (colored_layout lvl iov) \<le> IOV_MAX"
    using assms(3) by (simp add: length_colored_layout [OF False])
  then have "appended (fs_fd k) (concat (colored_layout lvl iov)) s (writev_all (fs_fd k) (colored_layout lvl iov) s) \<and>
      benign (writev_all (fs_fd k) (colored_layout lvl iov) s)"
    using assms(2,4) by (intro writev_all_whole)
  moreover have "appended (fs_fd k) (concat iov) s (writev_all (fs_fd k) iov s) \<and>
      benign (writev_all (fs_fd k) iov s)"
    using assms by (intro writev_all_whole) auto
  ultimately show ?thesis
    using False assms(1,4) by (auto simp: fd_write_def fd_payload_def concat_colored_layout)
qed

section \<open>The contract of a sink\<close>

text \<open>
  \<open>'s\<close> is the sink together with the system state. \<open>held\<close> are the bytes the sink still vouches for,
  \<open>payload\<close> what it makes of one line, \<open>fits\<close> the lines it can take.
\<close>

locale sink =
  fixes put :: "Level \<Rightarrow> iovecs \<Rightarrow> 's \<Rightarrow> 's"
    and flush :: "'s \<Rightarrow> 's"
    and held :: "'s \<Rightarrow> byte list"
    and payload :: "Level \<Rightarrow> iovecs \<Rightarrow> byte list"
    and fits :: "iovecs \<Rightarrow> bool"
    and inv :: "'s \<Rightarrow> bool"
  assumes inv_write: "inv s \<Longrightarrow> fits iov \<Longrightarrow> inv (put lvl iov s)"
    and inv_flush: "inv s \<Longrightarrow> inv (flush s)"
    and held_write: "inv s \<Longrightarrow> fits iov \<Longrightarrow>
      \<exists>k. held (put lvl iov s) = drop k (held s @ payload lvl iov)"
    and held_flush: "inv s \<Longrightarrow> held (flush s) = held s"
begin

text \<open>Whatever a sink still holds is the most recent part of what it was given, in order.\<close>

lemma held_lines:
  "inv s \<Longrightarrow> \<forall>(lvl, iov) \<in> set ls. fits iov \<Longrightarrow>
     inv (fold (\<lambda>(lvl, iov). put lvl iov) ls s) \<and>
     (\<exists>k. held (fold (\<lambda>(lvl, iov). put lvl iov) ls s) =
       drop k (held s @ concat (map (\<lambda>(lvl, iov). payload lvl iov) ls)))"
proof (induction ls arbitrary: s)
  case Nil
  then show ?case by (auto intro: exI [of _ 0])
next
  case (Cons l ls)
  let ?run = "fold (\<lambda>(lvl, iov). put lvl iov) ls" and ?ps = "concat (map (\<lambda>(lvl, iov). payload lvl iov) ls)"
  obtain lvl iov where l: "l = (lvl, iov)" by (cases l)
  have f: "fits iov" "\<forall>(lvl, iov) \<in> set ls. fits iov" using Cons.prems(2) l by auto
  have i: "inv (put lvl iov s)" by (rule inv_write [OF Cons.prems(1) f(1)])
  obtain k where k: "held (put lvl iov s) = drop k (held s @ payload lvl iov)"
    using held_write [OF Cons.prems(1) f(1)] by blast
  obtain m where m: "inv (?run (put lvl iov s))"
    "held (?run (put lvl iov s)) = drop m (held (put lvl iov s) @ ?ps)"
    using Cons.IH [OF i f(2)] by blast
  have "\<exists>j. drop m (drop k xs @ ys) = drop j (xs @ ys)" for xs ys :: "byte list"
  proof (cases "k \<le> length xs")
    case True
    then have "drop k xs @ ys = drop k (xs @ ys)" by simp
    then show ?thesis by (metis drop_drop)
  next
    case False
    then have "drop k xs @ ys = drop (length xs) (xs @ ys)" by simp
    then show ?thesis by (metis drop_drop)
  qed
  then obtain j where "held (?run (put lvl iov s)) = drop j ((held s @ payload lvl iov) @ ?ps)"
    using m(2) k by metis
  with m(1) show ?case by (auto simp: l)
qed

end

locale lossless_sink = sink +
  assumes keeps: "inv s \<Longrightarrow> fits iov \<Longrightarrow> held (put lvl iov s) = held s @ payload lvl iov"
begin

lemma kept_lines:
  "inv s \<Longrightarrow> \<forall>(lvl, iov) \<in> set ls. fits iov \<Longrightarrow>
     held (fold (\<lambda>(lvl, iov). put lvl iov) ls s) = held s @ concat (map (\<lambda>(lvl, iov). payload lvl iov) ls)"
proof (induction ls arbitrary: s)
  case (Cons l ls)
  obtain lvl iov where l: "l = (lvl, iov)" by (cases l)
  have f: "fits iov" "\<forall>(lvl, iov) \<in> set ls. fits iov" using Cons.prems(2) l by auto
  show ?case
    using Cons.IH [OF inv_write [OF Cons.prems(1) f(1)] f(2)] keeps [OF Cons.prems(1) f(1)]
    by (simp add: l)
qed simp

end

definition fd_inv :: "fd_sink \<Rightarrow> os \<Rightarrow> bool" where
  "fd_inv k s \<longleftrightarrow> 0 \<le> fs_fd k \<and> fd_ok (fs_fd k) s \<and> benign s"

definition fd_fits :: "iovecs \<Rightarrow> bool" where
  "fd_fits iov \<longleftrightarrow> length iov + 2 \<le> IOV_MAX"

lemma fd_ok_fsync: "fd_ok fd (sys_fsync fd' s) = fd_ok fd s"
  by (auto simp: fd_ok_def sys_fsync_def at_end_def split: option.splits)

lemma fd_contents_fsync: "fd_contents fd (sys_fsync fd' s) = fd_contents fd s"
  by (auto simp: fd_contents_def sys_fsync_def split: option.splits)

lemma benign_fsync: "benign (sys_fsync fd s) = benign s"
  by (auto simp: benign_def sys_fsync_def split: option.splits)

interpretation fd_sink: lossless_sink "fd_write k" "fd_flush k" "fd_contents (fs_fd k)" "fd_payload k"
  fd_fits "fd_inv k" for k
proof
  fix s iov lvl
  {
    assume i: "fd_inv k s" "fd_fits iov"
    then have a: "appended (fs_fd k) (fd_payload k lvl iov) s (fd_write k lvl iov s) \<and> benign (fd_write k lvl iov s)"
      by (intro fd_write_appends) (auto simp: fd_inv_def fd_fits_def)
    with i show "fd_inv k (fd_write k lvl iov s)" using appended_ok [OF conjunct1 [OF a]] by (simp add: fd_inv_def)
    from a show e: "fd_contents (fs_fd k) (fd_write k lvl iov s) = fd_contents (fs_fd k) s @ fd_payload k lvl iov"
      using appended_contents by blast
    then show "\<exists>j. fd_contents (fs_fd k) (fd_write k lvl iov s) = drop j (fd_contents (fs_fd k) s @ fd_payload k lvl iov)"
      by (metis drop0)
  }
  assume "fd_inv k s"
  then show "fd_inv k (fd_flush k s)"
    by (simp add: fd_inv_def fd_flush_def fd_ok_fsync benign_fsync)
  show "fd_contents (fs_fd k) (fd_flush k s) = fd_contents (fs_fd k) s"
    by (simp add: fd_flush_def fd_contents_fsync)
qed

section \<open>Properties\<close>

text \<open>
  C22: Whatever the kernel does with the individual \<open>writev\<close> calls (interruptions, partial writes, a
  failure in the middle), \<open>writev_all\<close> appends a prefix of the line to the file, every byte at most
  once and in order, and touches nothing else; the whole line if no call fails.
\<close>

theorem writev_all_prefix:
  assumes "fd_ok fd s" "length iov \<le> IOV_MAX"
  shows "\<exists>m \<le> length (concat iov). appended fd (take m (concat iov)) s (writev_all fd iov s) \<and>
    (benign s \<longrightarrow> m = length (concat iov))"
proof -
  have run: "\<exists>m \<le> length (concat iov). appended fd (take m (concat iov)) t (writev_loop fd iov t) \<and>
      (benign t \<longrightarrow> m = length (concat iov))" if "fd_ok fd t" for t
  proof -
    from writev_loop_appends [OF that assms(2)] obtain m where
      m: "appended fd (take m (concat iov)) t (writev_loop fd iov t)"
        "WErr \<notin> set (write_faults t) \<longrightarrow> length (concat iov) \<le> m" by auto
    then show ?thesis
      by (intro exI [of _ "min m (length (concat iov))"]) (auto simp: min_def benign_def)
  qed
  let ?s = "s\<lparr>alloc_faults := tl (alloc_faults s)\<rparr>"
  have ok: "fd_ok fd ?s" using assms(1) by (simp add: fd_ok_def at_end_def)
  have same: "appended fd bs ?s s' = appended fd bs s s'" for bs s' by (simp add: appended_def at_end_def)
  consider "length iov \<le> 64" | "64 < length iov" "next_fails (alloc_faults s)"
    | "64 < length iov" "\<not> next_fails (alloc_faults s)" by linarith
  then show ?thesis
  proof cases
    case 1
    then show ?thesis using run [OF assms(1)] by (simp add: writev_all_def)
  next
    case 2
    then have "writev_all fd iov s = ?s" "\<not> benign s"
      by (auto simp: writev_all_def sys_alloc_def benign_def next_fails_def)
    then show ?thesis using appended_refl [OF ok] same by (intro exI [of _ 0]) simp
  next
    case 3
    then have "writev_all fd iov s = writev_loop fd iov ?s" by (simp add: writev_all_def sys_alloc_def)
    moreover have "benign s \<Longrightarrow> benign ?s" by (simp add: benign_def)
    ultimately show ?thesis using run [OF ok] by (auto simp: same)
  qed
qed

definition disk0 :: os where
  "disk0 = \<lparr>names = [''log'' \<mapsto> 0], nodes = (\<lambda>_. \<lparr>contents = ''old'', regular = True\<rparr>), next_node = 1,
     fds = [3 \<mapsto> \<lparr>inode = 0, offset = 0, o_append = True\<rparr>], next_fd = 4, write_faults = [],
     open_faults = [], rename_faults = [], unlink_faults = [], alloc_faults = [], synced = {}\<rparr>"

lemma disk0_ok [simp]: "fd_ok 3 disk0" "benign disk0" "fd_contents 3 disk0 = ''old''"
  "fd_ok 3 (disk0\<lparr>write_faults := f\<rparr>)" "fd_contents 3 (disk0\<lparr>write_faults := f\<rparr>) = ''old''"
  by (auto simp: disk0_def fd_ok_def at_end_def benign_def fd_contents_def)

theorem writev_all_prefix_witness:
  "fd_contents 3 (writev_all 3 [''abc'', [], ''de''] (disk0\<lparr>write_faults := [WShort 1, WIntr, WShort 0, WShort 3]\<rparr>)) =
     ''oldabcde''"
proof -
  let ?s = "disk0\<lparr>write_faults := [WShort 1, WIntr, WShort 0, WShort 3]\<rparr>"
  have "benign ?s" by (simp add: benign_def disk0_def)
  then obtain m where m: "appended 3 (take m (concat [''abc'', [], ''de''])) ?s (writev_all 3 [''abc'', [], ''de''] ?s)"
    "m = length (concat [''abc'', [], ''de''])"
    using writev_all_prefix [of 3 ?s "[''abc'', [], ''de'']"] by (auto simp: IOV_MAX_def)
  then show ?thesis using appended_contents [OF m(1)] by simp
qed

text \<open>
  A line of more than 1024 vectors is lost without a trace: \<open>writev\<close> rejects it, and \<open>writev_all\<close>
  gives up on the first error.
\<close>

theorem too_many_vectors_lost:
  assumes "IOV_MAX < length iov"
  shows "fd_contents fd (writev_all fd iov s) = fd_contents fd s \<and> nodes (writev_all fd iov s) = nodes s"
proof -
  have "fst (sys_writev fd iov s) = Failed \<and> nodes (snd (sys_writev fd iov s)) = nodes s \<and>
      fds (snd (sys_writev fd iov s)) = fds s" for s
    using assms by (simp add: sys_writev_def split: option.split)
  then have "nodes (writev_loop fd iov s) = nodes s \<and> fds (writev_loop fd iov s) = fds s" for s
    using assms by (subst (1 2) writev_loop.simps) (auto split: prod.splits wres.splits simp: prod_eq_iff)
  then show ?thesis
    by (auto simp: writev_all_def sys_alloc_def fd_contents_def split: option.split)
qed

theorem too_many_vectors_lost_witness:
  "fd_contents 3 (writev_all 3 (replicate 1025 ''x'') disk0) = ''old''"
  using too_many_vectors_lost [of "replicate 1025 ''x''" 3 disk0] by (simp add: IOV_MAX_def)

text \<open>
  C5: The descriptor sinks lose nothing: after any sequence of lines of at most 1022 vectors, through
  any interruptions and partial writes, the file holds its old contents followed by the lines in
  order; on a coloured sink each line is wrapped in its level's colour with the reset before the
  last vector (the newline).
\<close>

theorem fd_sink_lossless:
  assumes "0 \<le> fs_fd k" "fd_ok (fs_fd k) s" "benign s" "\<forall>(lvl, iov) \<in> set ls. length iov + 2 \<le> IOV_MAX"
  shows "fd_contents (fs_fd k) (fold (\<lambda>(lvl, iov). fd_write k lvl iov) ls s) =
    fd_contents (fs_fd k) s @ concat (map (\<lambda>(lvl, iov).
      if iov = [] then []
      else if fs_colored k then level_color lvl @ concat (butlast iov) @ level_color_reset @ last iov
      else concat iov) ls)"
  using fd_sink.kept_lines [of k s ls] assms by (simp add: fd_inv_def fd_fits_def fd_payload_def)

theorem fd_sink_lossless_witness:
  "fd_contents 3 (fold (\<lambda>(lvl, iov). fd_write \<lparr>fs_fd = 3, fs_owns = True, fs_colored = True\<rparr> lvl iov)
       [(WARN, [''a'', ''b'', ''!'']), (OFF, [''c''])] disk0) =
     ''old'' @ level_color WARN @ ''ab'' @ level_color_reset @ ''!'' @ level_color_reset @ ''c''"
  using fd_sink_lossless [of "\<lparr>fs_fd = 3, fs_owns = True, fs_colored = True\<rparr>" disk0
      "[(WARN, [''a'', ''b'', ''!'']), (OFF, [''c''])]"]
  by (simp add: IOV_MAX_def)

end
