(* ===== verification/Elog_Buffered.thy ===== *)
theory Elog_Buffered
  imports Elog_Sink
begin

text \<open>
  The buffered file sink, \<open>src/buffered_file_sink.cpp\<close>, and the two helpers of
  \<open>include/elog/sink_async.hpp\<close> for wrapping a sink. The buffer is the list of its \<open>cap\<close> bytes;
  copying past its end is \<open>None\<close>. The mutex makes each operation atomic, so an operation is one
  function on the state. (An allocation failure of the \<open>std::vector\<close> in this file's \<open>writev_all\<close> ends
  the program, and is not modelled.)
\<close>

section \<open>Flattening an iovec array\<close>

definition iov_total_bytes :: "iovecs \<Rightarrow> nat" where
  "iov_total_bytes iov = foldl (\<lambda>total x. total + length x) 0 iov"

lemma iov_total_bytes_concat [simp]: "iov_total_bytes iov = length (concat iov)"
proof -
  have "foldl (\<lambda>total x. total + length x) n iov = n + length (concat iov)" for n
    by (induction iov arbitrary: n) auto
  then show ?thesis by (simp add: iov_total_bytes_def)
qed

text \<open>\<open>out[pos++] = src[k]\<close> for every byte of every vector.\<close>

fun serialize_bytes :: "byte list \<Rightarrow> nat \<Rightarrow> byte list \<Rightarrow> (nat \<times> byte list) option" where
  "serialize_bytes [] p out = Some (p, out)"
| "serialize_bytes (c # cs) p out =
     (if p < length out then serialize_bytes cs (p + 1) (out[p := c]) else None)"

fun iov_serialize_from :: "iovecs \<Rightarrow> nat \<Rightarrow> byte list \<Rightarrow> (nat \<times> byte list) option" where
  "iov_serialize_from [] p out = Some (p, out)"
| "iov_serialize_from (x # xs) p out =
     (case serialize_bytes x p out of None \<Rightarrow> None | Some (p, out) \<Rightarrow> iov_serialize_from xs p out)"

definition iov_serialize :: "iovecs \<Rightarrow> byte list \<Rightarrow> (nat \<times> byte list) option" where
  "iov_serialize iov out = iov_serialize_from iov 0 out"

lemma serialize_bytes_fits:
  "p + length cs \<le> length out \<Longrightarrow> serialize_bytes cs p out = Some (p + length cs, overwrite p cs out)"
proof (induction cs p out rule: serialize_bytes.induct)
  case (2 c cs p out)
  then have "serialize_bytes cs (p + 1) (out[p := c]) = Some (p + 1 + length cs, overwrite (p + 1) cs (out[p := c]))"
    by simp
  moreover have "overwrite (p + 1) cs (overwrite p [c] out) = overwrite p ([c] @ cs) out"
    using overwrite_overwrite [of p "[c]" out cs] 2(2) by simp
  ultimately show ?case using 2(2) by (simp add: overwrite_single)
qed simp

lemma iov_serialize_fits:
  "p + length (concat iov) \<le> length out \<Longrightarrow>
     iov_serialize_from iov p out = Some (p + length (concat iov), overwrite p (concat iov) out)"
proof (induction iov arbitrary: p out)
  case (Cons x xs)
  then have "serialize_bytes x p out = Some (p + length x, overwrite p x out)"
    by (simp add: serialize_bytes_fits)
  moreover have "iov_serialize_from xs (p + length x) (overwrite p x out) =
      Some (p + length x + length (concat xs), overwrite (p + length x) (concat xs) (overwrite p x out))"
    using Cons.prems by (intro Cons.IH) simp
  ultimately show ?case
    using overwrite_overwrite [of p x out "concat xs"] Cons.prems by (simp add: add.assoc)
qed simp

section \<open>The buffered sink\<close>

record buffered =
  bf_fd :: int
  bf_cap :: nat
  bf_buf :: "byte list"
  bf_pos :: nat
  bf_threshold :: Level

definition buf_writev_all :: "int \<Rightarrow> iovecs \<Rightarrow> os \<Rightarrow> os" where
  "buf_writev_all fd iov s = writev_loop fd iov s"

definition buf_flush_locked :: "buffered \<Rightarrow> os \<Rightarrow> buffered \<times> os" where
  "buf_flush_locked k s =
     (if bf_pos k = 0 then (k, s)
      else (k\<lparr>bf_pos := 0\<rparr>, buf_writev_all (bf_fd k) [take (bf_pos k) (bf_buf k)] s))"

text \<open>The \<open>memcpy\<close> loop from \<open>buf_.get() + pos_\<close>.\<close>

fun copy_iovs :: "iovecs \<Rightarrow> nat \<Rightarrow> byte list \<Rightarrow> byte list option" where
  "copy_iovs [] dst buf = Some buf"
| "copy_iovs (x # xs) dst buf =
     (if dst + length x \<le> length buf then copy_iovs xs (dst + length x) (overwrite dst x buf) else None)"

definition buf_write :: "Level \<Rightarrow> iovecs \<Rightarrow> buffered \<times> os \<Rightarrow> (buffered \<times> os) option" where
  "buf_write lvl iov = (\<lambda>(k, s).
     let total = foldl (\<lambda>total x. total + length x) 0 iov
     in if total > bf_cap k then
          (let (k, s) = buf_flush_locked k s in Some (k, buf_writev_all (bf_fd k) iov s))
        else
          let (k, s) = (if bf_pos k + total > bf_cap k then buf_flush_locked k s else (k, s))
          in case copy_iovs iov (bf_pos k) (bf_buf k) of
              None \<Rightarrow> None
            | Some buf \<Rightarrow>
                let k = k\<lparr>bf_buf := buf, bf_pos := bf_pos k + total\<rparr>
                in Some (if lvl \<ge> bf_threshold k then buf_flush_locked k s else (k, s)))"

definition buf_flush :: "buffered \<times> os \<Rightarrow> buffered \<times> os" where
  "buf_flush = (\<lambda>(k, s). buf_flush_locked k s)"

definition buf_destroy :: "buffered \<times> os \<Rightarrow> os" where
  "buf_destroy ks =
     (let (k, s) = buf_flush ks in if bf_fd k \<ge> 0 then sys_close (bf_fd k) s else s)"

text \<open>\<open>junk\<close> is what \<open>new char[cap]\<close> holds.\<close>

definition make_buffered_file_sink ::
    "string \<Rightarrow> nat \<Rightarrow> Level \<Rightarrow> byte list \<Rightarrow> os \<Rightarrow> buffered option \<times> os" where
  "make_buffered_file_sink path buffer_bytes threshold junk s =
     (let (fd, s) = sys_open path \<lparr>f_append = True, f_trunc = False\<rparr> s
      in if fd < 0 then (None, s)
         else (Some \<lparr>bf_fd = fd, bf_cap = buffer_bytes, bf_buf = take buffer_bytes junk, bf_pos = 0,
                     bf_threshold = threshold\<rparr>, s))"

section \<open>Correctness\<close>

definition buf_inv :: "buffered \<times> os \<Rightarrow> bool" where
  "buf_inv = (\<lambda>(k, s). fd_ok (bf_fd k) s \<and> benign s \<and> length (bf_buf k) = bf_cap k \<and> bf_pos k \<le> bf_cap k)"

definition buf_held :: "buffered \<times> os \<Rightarrow> byte list" where
  "buf_held = (\<lambda>(k, s). fd_contents (bf_fd k) s @ take (bf_pos k) (bf_buf k))"

lemma copy_iovs_fits:
  "dst + length (concat iov) \<le> length buf \<Longrightarrow> copy_iovs iov dst buf = Some (overwrite dst (concat iov) buf)"
proof (induction iov arbitrary: dst buf)
  case (Cons x xs)
  then have "copy_iovs xs (dst + length x) (overwrite dst x buf) =
      Some (overwrite (dst + length x) (concat xs) (overwrite dst x buf))"
    by (intro Cons.IH) simp
  then show ?case using Cons.prems overwrite_overwrite [of dst x buf "concat xs"] by simp
qed simp

lemma buf_flush_locked_ok:
  assumes "buf_inv (k, s)"
  shows "buf_inv (buf_flush_locked k s) \<and> buf_held (buf_flush_locked k s) = buf_held (k, s) \<and>
    bf_pos (fst (buf_flush_locked k s)) = 0 \<and> bf_cap (fst (buf_flush_locked k s)) = bf_cap k \<and>
    bf_fd (fst (buf_flush_locked k s)) = bf_fd k \<and>
    bf_threshold (fst (buf_flush_locked k s)) = bf_threshold k \<and>
    length (bf_buf (fst (buf_flush_locked k s))) = length (bf_buf k)"
proof (cases "bf_pos k = 0")
  case True
  then show ?thesis using assms by (simp add: buf_flush_locked_def)
next
  case False
  let ?p = "[take (bf_pos k) (bf_buf k)]"
  have "appended (bf_fd k) (concat ?p) s (writev_loop (bf_fd k) ?p s) \<and> benign (writev_loop (bf_fd k) ?p s)"
    using assms by (intro writev_loop_whole) (auto simp: buf_inv_def IOV_MAX_def)
  moreover from this have "fd_ok (bf_fd k) (writev_loop (bf_fd k) ?p s)" using appended_ok by blast
  ultimately show ?thesis
    using False assms appended_contents
    by (fastforce simp: buf_flush_locked_def buf_inv_def buf_held_def buf_writev_all_def)
qed

text \<open>
  A line is kept, on disk or in the buffer; the copy stays inside the buffer; and from the threshold
  level on nothing stays behind in it.
\<close>

lemma buf_write_ok:
  assumes inv: "buf_inv (k, s)" and n: "length iov \<le> IOV_MAX"
  shows "\<exists>k' s'. buf_write lvl iov (k, s) = Some (k', s') \<and> buf_inv (k', s') \<and>
    buf_held (k', s') = buf_held (k, s) @ concat iov \<and> bf_fd k' = bf_fd k \<and>
    (bf_threshold k \<le> lvl \<longrightarrow> bf_pos k' = 0)"
proof -
  have total: "foldl (\<lambda>total x. total + length x) 0 iov = length (concat iov)"
    using iov_total_bytes_concat [of iov] by (simp only: iov_total_bytes_def)
  show ?thesis
  proof (cases "length (concat iov) > bf_cap k")
    case True
    obtain k1 s1 where f: "buf_flush_locked k s = (k1, s1)" by fastforce
    note ok = buf_flush_locked_ok [OF inv, unfolded f fst_conv]
    have "appended (bf_fd k1) (concat iov) s1 (writev_loop (bf_fd k1) iov s1) \<and>
        benign (writev_loop (bf_fd k1) iov s1)"
      using ok n by (intro writev_loop_whole) (auto simp: buf_inv_def)
    moreover from this have "fd_ok (bf_fd k1) (writev_loop (bf_fd k1) iov s1)" using appended_ok by blast
    moreover from calculation have
      "fd_contents (bf_fd k1) (writev_loop (bf_fd k1) iov s1) = fd_contents (bf_fd k1) s1 @ concat iov"
      using appended_contents by blast
    ultimately show ?thesis
      using True ok by (auto simp: buf_write_def total f buf_inv_def buf_held_def buf_writev_all_def)
  next
    case False
    obtain k1 s1 where k1: "(if bf_pos k + length (concat iov) > bf_cap k then buf_flush_locked k s else (k, s)) = (k1, s1)"
      by fastforce
    have ok: "buf_inv (k1, s1)" "buf_held (k1, s1) = buf_held (k, s)" "bf_cap k1 = bf_cap k"
      "bf_fd k1 = bf_fd k" "bf_threshold k1 = bf_threshold k"
      "bf_pos k1 + length (concat iov) \<le> bf_cap k1"
      using k1 buf_flush_locked_ok [OF inv] False inv by (auto split: if_splits)
    let ?buf = "overwrite (bf_pos k1) (concat iov) (bf_buf k1)"
    let ?k2 = "k1\<lparr>bf_buf := ?buf, bf_pos := bf_pos k1 + length (concat iov)\<rparr>"
    have fit: "bf_pos k1 + length (concat iov) \<le> length (bf_buf k1)" using ok by (simp add: buf_inv_def)
    then have copy: "copy_iovs iov (bf_pos k1) (bf_buf k1) = Some ?buf" by (rule copy_iovs_fits)
    have "take (bf_pos k1 + length (concat iov)) ?buf = take (bf_pos k1) (bf_buf k1) @ concat iov"
      using fit by (simp add: overwrite_def)
    then have ok2: "buf_inv (?k2, s1)" "buf_held (?k2, s1) = buf_held (k, s) @ concat iov"
      using ok fit by (auto simp: buf_inv_def buf_held_def)
    have w: "buf_write lvl iov (k, s) =
        Some (if lvl \<ge> bf_threshold k then buf_flush_locked ?k2 s1 else (?k2, s1))"
      using False k1 copy ok by (simp add: buf_write_def total)
    show ?thesis
    proof (cases "bf_threshold k \<le> lvl")
      case True
      obtain k3 s3 where f: "buf_flush_locked ?k2 s1 = (k3, s3)" by fastforce
      note ok3 = buf_flush_locked_ok [OF ok2(1), unfolded f fst_conv]
      show ?thesis using w True f ok3 ok2 ok by (intro exI [of _ k3] exI [of _ s3]) simp
    next
      case False
      then show ?thesis using w ok2 ok by auto
    qed
  qed
qed

definition buf_step :: "Level \<Rightarrow> iovecs \<Rightarrow> buffered \<times> os \<Rightarrow> buffered \<times> os" where
  "buf_step lvl iov ks = the (buf_write lvl iov ks)"

interpretation buffered_sink: lossless_sink buf_step buf_flush buf_held "\<lambda>lvl iov. concat iov"
  "\<lambda>iov. length iov \<le> IOV_MAX" buf_inv
proof
  fix ks :: "buffered \<times> os" and iov :: iovecs and lvl
  obtain k s where ks: "ks = (k, s)" by fastforce
  {
    assume a: "buf_inv ks" "length iov \<le> IOV_MAX"
    obtain k' s' where w: "buf_write lvl iov ks = Some (k', s')" "buf_inv (k', s')"
      "buf_held (k', s') = buf_held ks @ concat iov"
      using buf_write_ok [of k s iov lvl] a ks by blast
    then show "buf_inv (buf_step lvl iov ks)" "buf_held (buf_step lvl iov ks) = buf_held ks @ concat iov"
      by (simp_all add: buf_step_def)
    then show "\<exists>j. buf_held (buf_step lvl iov ks) = drop j (buf_held ks @ concat iov)" by (metis drop0)
  }
  assume "buf_inv ks"
  then show "buf_inv (buf_flush ks)" "buf_held (buf_flush ks) = buf_held ks"
    using buf_flush_locked_ok ks by (auto simp: buf_flush_def)
qed

section \<open>Properties\<close>

text \<open>A sequence of calls of \<open>write\<close>.\<close>

fun buf_writes :: "(Level \<times> iovecs) list \<Rightarrow> buffered \<times> os \<Rightarrow> (buffered \<times> os) option" where
  "buf_writes [] ks = Some ks"
| "buf_writes ((lvl, iov) # ls) ks =
     (case buf_write lvl iov ks of None \<Rightarrow> None | Some ks' \<Rightarrow> buf_writes ls ks')"

lemma buf_writes_fold:
  "buf_inv ks \<Longrightarrow> \<forall>(lvl, iov) \<in> set ls. length iov \<le> IOV_MAX \<Longrightarrow>
     buf_writes ls ks = Some (fold (\<lambda>(lvl, iov). buf_step lvl iov) ls ks)"
proof (induction ls arbitrary: ks)
  case (Cons l ls)
  obtain lvl iov k s where l: "l = (lvl, iov)" "ks = (k, s)" by (cases l, cases ks)
  have n: "length iov \<le> IOV_MAX" using Cons.prems(2) l by simp
  obtain ks' where "buf_write lvl iov ks = Some ks'" "buf_inv ks'"
    using buf_write_ok [of k s iov lvl] Cons.prems(1) n l(2) by blast
  then show ?case using Cons by (simp add: l(1) buf_step_def)
qed simp

text \<open>
  C6: Whatever lines of up to 1024 vectors are written, and however the kernel interrupts or splits
  the \<open>writev\<close> calls, the buffered sink never copies past its buffer, and the file followed by the
  unflushed part of the buffer is the old file followed by every line in order. What a crash can lose
  is at most the buffer size; after a line at or above the threshold, or a flush, it is nothing.
\<close>

theorem buffered_sink_lossless:
  assumes "buf_inv (k, s)" "bf_pos k = 0" "\<forall>(lvl, iov) \<in> set ls. length iov \<le> IOV_MAX"
  shows "\<exists>k' s'. buf_writes ls (k, s) = Some (k', s') \<and>
    fd_contents (bf_fd k') s' @ take (bf_pos k') (bf_buf k') =
      fd_contents (bf_fd k) s @ concat (map (\<lambda>(lvl, iov). concat iov) ls) \<and>
    bf_pos k' \<le> bf_cap k' \<and>
    (\<forall>lvl iov. length iov \<le> IOV_MAX \<and> bf_threshold k' \<le> lvl \<longrightarrow>
       (\<exists>k2 s2. buf_write lvl iov (k', s') = Some (k2, s2) \<and>
          fd_contents (bf_fd k2) s2 =
            fd_contents (bf_fd k) s @ concat (map (\<lambda>(lvl, iov). concat iov) ls) @ concat iov)) \<and>
    (let (k2, s2) = buf_flush (k', s') in fd_contents (bf_fd k2) s2 =
            fd_contents (bf_fd k) s @ concat (map (\<lambda>(lvl, iov). concat iov) ls))"
proof -
  obtain k' s' where r: "fold (\<lambda>(lvl, iov). buf_step lvl iov) ls (k, s) = (k', s')" by fastforce
  have w: "buf_writes ls (k, s) = Some (k', s')" using buf_writes_fold [OF assms(1,3)] r by simp
  have inv: "buf_inv (k', s')" using buffered_sink.held_lines [OF assms(1,3)] r by simp
  have h: "buf_held (k', s') = fd_contents (bf_fd k) s @ concat (map (\<lambda>(lvl, iov). concat iov) ls)"
    using buffered_sink.kept_lines [OF assms(1,3)] assms(2) r by (simp add: buf_held_def)
  obtain k2 s2 where f: "buf_flush_locked k' s' = (k2, s2)" by fastforce
  have fl: "buf_held (k2, s2) = buf_held (k', s')" "bf_pos k2 = 0"
    using buf_flush_locked_ok [OF inv] f by simp_all
  have crit: "\<exists>k2 s2. buf_write lvl iov (k', s') = Some (k2, s2) \<and>
      fd_contents (bf_fd k2) s2 = buf_held (k', s') @ concat iov"
    if "length iov \<le> IOV_MAX" "bf_threshold k' \<le> lvl" for lvl iov
    using buf_write_ok [OF inv that(1), of lvl] that(2) by (fastforce simp: buf_held_def)
  show ?thesis
    using w inv h f fl crit by (auto simp: buf_held_def buf_inv_def buf_flush_def)
qed

theorem buffered_sink_lossless_witness:
  "\<exists>k' s'. buf_writes [(INFO, [''ab'', ''c'']), (INFO, [''de'']), (DEBUG, [''too long''])]
       (\<lparr>bf_fd = 3, bf_cap = 4, bf_buf = ''????'', bf_pos = 0, bf_threshold = WARN\<rparr>,
        disk0\<lparr>write_faults := [WIntr, WShort 2]\<rparr>) = Some (k', s') \<and>
     fd_contents (bf_fd k') s' @ take (bf_pos k') (bf_buf k') = ''oldabcdetoo long''"
proof -
  let ?k = "\<lparr>bf_fd = 3, bf_cap = 4, bf_buf = ''????'', bf_pos = 0, bf_threshold = WARN\<rparr>"
  let ?s = "disk0\<lparr>write_faults := [WIntr, WShort 2]\<rparr>"
  let ?ls = "[(INFO, [''ab'', ''c'']), (INFO, [''de'']), (DEBUG, [''too long''])]"
  have "buf_inv (?k, ?s)" by (simp add: buf_inv_def benign_def) (simp add: disk0_def)
  moreover have "\<forall>(lvl, iov) \<in> set ?ls. length iov \<le> IOV_MAX" by (simp add: IOV_MAX_def)
  ultimately obtain k' s' where "buf_writes ?ls (?k, ?s) = Some (k', s')"
    "fd_contents (bf_fd k') s' @ take (bf_pos k') (bf_buf k') =
      fd_contents (bf_fd ?k) ?s @ concat (map (\<lambda>(lvl, iov). concat iov) ?ls)"
    using buffered_sink_lossless [of ?k ?s ?ls] by auto
  then show ?thesis by (intro exI [of _ k'] exI [of _ s']) simp
qed

text \<open>
  Serializing a line into a buffer of \<open>iov_total_bytes\<close> bytes (what an asynchronous wrapper
  does) writes inside the buffer and gives exactly the concatenation of the vectors.
\<close>

theorem iov_serialize_exact:
  assumes "length out = iov_total_bytes iov"
  shows "iov_serialize iov out = Some (iov_total_bytes iov, concat iov)"
  using iov_serialize_fits [of 0 iov out] assms by (simp add: iov_serialize_def overwrite_def)

theorem iov_serialize_exact_witness:
  "iov_serialize [''ab'', [], ''c''] ''xyz'' = Some (3, ''abc'')"
  using iov_serialize_exact [of "''xyz''" "[''ab'', [], ''c'']"] by simp

end
