(* ===== verification/Elog_Rotating.thy ===== *)
theory Elog_Rotating
  imports Elog_Sink
begin

text \<open>
  The rotating file sink, \<open>src/rotating_sink.cpp\<close>: path arithmetic, the size count, the rename chain
  and the reopening. The mutex makes each operation atomic. The specification is the chain of files
  \<open>[path, path.1, ..., path.(max_files-1)]\<close> as a list of contents: a write extends the first, and a
  rotation pushes an empty one in front and drops the last.
\<close>

section \<open>The code\<close>

definition rot_writev_all :: "int \<Rightarrow> iovecs \<Rightarrow> os \<Rightarrow> os" where
  "rot_writev_all fd iov s =
     (if length iov \<le> 64 then writev_loop fd iov s
      else let (ok, s) = sys_alloc s in if \<not> ok then s else writev_loop fd iov s)"

definition kSuffix :: string where
  "kSuffix = ''.log''"

definition indexed_path :: "string \<Rightarrow> nat \<Rightarrow> string" where
  "indexed_path path n =
     (let buf = radix_str 10 n; k = length kSuffix
      in if length path \<ge> k \<and> drop (length path - k) path = kSuffix
         then take (length path - k) path @ ''.'' @ buf @ kSuffix
         else path @ ''.'' @ buf)"

definition file_size_or_zero :: "string \<Rightarrow> os \<Rightarrow> nat" where
  "file_size_or_zero path s =
     (case sys_stat path s of
        None \<Rightarrow> 0
      | Some nd \<Rightarrow> if \<not> regular nd then 0 else length (contents nd))"

record rotating =
  rt_path :: string
  rt_max_bytes :: nat
  rt_max_files :: nat
  rt_fd :: int
  rt_bytes :: nat

text \<open>The constructor; \<open>path\<close> may be null.\<close>

definition rot_new :: "string option \<Rightarrow> nat \<Rightarrow> nat \<Rightarrow> os \<Rightarrow> rotating \<times> os" where
  "rot_new path max_bytes max_files s =
     (let p = (case path of None \<Rightarrow> [] | Some p \<Rightarrow> p);
          (fd, s) = sys_open p \<lparr>f_append = True, f_trunc = False\<rparr> s
      in (\<lparr>rt_path = p, rt_max_bytes = (if max_bytes \<noteq> 0 then max_bytes else 1),
           rt_max_files = (if max_files \<noteq> 0 then max_files else 1), rt_fd = fd,
           rt_bytes = (if fd \<ge> 0 then file_size_or_zero p s else 0)\<rparr>, s))"

text \<open>\<open>for (i = max_files - 1; i >= 2; --i) rename(indexed(i - 1), indexed(i))\<close>\<close>

fun rot_shift :: "string \<Rightarrow> nat \<Rightarrow> os \<Rightarrow> os" where
  "rot_shift path i s =
     (if i \<ge> 2
      then rot_shift path (i - 1) (sys_rename (indexed_path path (i - 1)) (indexed_path path i) s)
      else s)"

declare rot_shift.simps [simp del]

definition rotate_locked :: "rotating \<Rightarrow> os \<Rightarrow> rotating \<times> os" where
  "rotate_locked k s =
     (let (k, s) = (if rt_fd k \<ge> 0 then (k\<lparr>rt_fd := - 1\<rparr>, sys_close (rt_fd k) s) else (k, s));
          s = (if rt_max_files k \<ge> 2 then
                 (let s = sys_unlink (indexed_path (rt_path k) (rt_max_files k - 1)) s;
                      s = rot_shift (rt_path k) (rt_max_files k - 1) s
                  in sys_rename (rt_path k) (indexed_path (rt_path k) 1) s)
               else sys_unlink (rt_path k) s);
          (fd, s) = sys_open (rt_path k) \<lparr>f_append = False, f_trunc = True\<rparr> s
      in (k\<lparr>rt_fd := fd, rt_bytes := 0\<rparr>, s))"

definition rot_write :: "Level \<Rightarrow> iovecs \<Rightarrow> rotating \<times> os \<Rightarrow> rotating \<times> os" where
  "rot_write lvl iov = (\<lambda>(k, s).
     if iov = [] \<or> rt_path k = [] then (k, s)
     else
       let total = foldl (\<lambda>total x. total + length x) 0 iov
       in if rt_fd k < 0 then (k, s)
          else
            let now = rt_bytes k + total;
                k = k\<lparr>rt_bytes := now\<rparr>;
                s = rot_writev_all (rt_fd k) iov s
            in if now \<ge> rt_max_bytes k then rotate_locked k s else (k, s))"

definition rot_flush :: "rotating \<times> os \<Rightarrow> rotating \<times> os" where
  "rot_flush = (\<lambda>(k, s). (k, if rt_fd k \<ge> 0 then sys_fsync (rt_fd k) s else s))"

definition rot_destroy :: "rotating \<times> os \<Rightarrow> os" where
  "rot_destroy = (\<lambda>(k, s). if rt_fd k \<ge> 0 then sys_close (rt_fd k) s else s)"

definition make_rotating_file_sink ::
    "string option \<Rightarrow> nat \<Rightarrow> nat \<Rightarrow> os \<Rightarrow> rotating option \<times> os" where
  "make_rotating_file_sink path max_bytes max_files s =
     (if path = None \<or> path = Some [] then (None, s)
      else let max_bytes = (if max_bytes = 0 then 1 else max_bytes);
               max_files = (if max_files = 0 then 1 else max_files);
               (k, s) = rot_new path max_bytes max_files s
           in (Some k, s))"

section \<open>Names\<close>

lemma indexed_path_inject: "indexed_path p m = indexed_path p n \<longleftrightarrow> m = n"
  by (simp add: indexed_path_def Let_def radix_str_inject)

lemma indexed_path_other: "indexed_path p n \<noteq> p"
proof
  assume e: "indexed_path p n = p"
  have "length (indexed_path p n) > length p" by (auto simp: indexed_path_def Let_def kSuffix_def)
  with e show False by simp
qed

text \<open>What an operation on names leaves alone.\<close>

definition same_files :: "os \<Rightarrow> os \<Rightarrow> bool" where
  "same_files s s' \<longleftrightarrow>
     nodes s' = nodes s \<and> fds s' = fds s \<and> next_node s' = next_node s \<and> next_fd s' = next_fd s \<and>
     write_faults s' = write_faults s \<and> alloc_faults s' = alloc_faults s \<and>
     open_faults s' = open_faults s"

text \<open>No name operation or \<open>open\<close> fails; \<open>writev\<close> may still be interrupted and cut short.\<close>

definition calm :: "os \<Rightarrow> bool" where
  "calm s \<longleftrightarrow> benign s \<and> open_faults s = [] \<and> rename_faults s = [] \<and> unlink_faults s = []"

lemma rename_calm:
  assumes "calm s" "names s dst = None" "src \<noteq> dst"
  shows "calm (sys_rename src dst s) \<and> same_files s (sys_rename src dst s) \<and>
    names (sys_rename src dst s) = (names s)(src := None, dst := names s src)"
proof (cases "names s src")
  case None
  then have "(names s)(src := None, dst := None) = names s" using assms(2) by (auto simp: fun_eq_iff)
  then show ?thesis
    using None assms by (simp add: sys_rename_def calm_def benign_def next_fails_def same_files_def)
next
  case (Some i)
  then show ?thesis
    using assms by (simp add: sys_rename_def calm_def benign_def next_fails_def same_files_def Let_def)
qed

lemma unlink_calm:
  assumes "calm s"
  shows "calm (sys_unlink p s) \<and> same_files s (sys_unlink p s) \<and>
    names (sys_unlink p s) = (names s)(p := None)"
  using assms by (simp add: sys_unlink_def calm_def benign_def next_fails_def same_files_def Let_def)

lemma same_files_trans: "same_files s s' \<Longrightarrow> same_files s' s'' \<Longrightarrow> same_files s s''"
  by (simp add: same_files_def)

lemma rot_shift_calm:
  assumes "calm s" "names s (indexed_path p i) = None"
  shows "calm (rot_shift p i s) \<and> same_files s (rot_shift p i s) \<and>
    (\<forall>j. 2 \<le> j \<and> j \<le> i \<longrightarrow> names (rot_shift p i s) (indexed_path p j) = names s (indexed_path p (j - 1))) \<and>
    (1 \<le> i \<longrightarrow> names (rot_shift p i s) (indexed_path p 1) = None) \<and>
    (\<forall>q. q \<notin> indexed_path p ` {1..i} \<longrightarrow> names (rot_shift p i s) q = names s q)"
  using assms
proof (induction p i s rule: rot_shift.induct)
  case (1 p i s)
  show ?case
  proof (cases "i \<ge> 2")
    case False
    then have "i = 0 \<or> i = 1" by linarith
    then show ?thesis
      using False 1(2,3) by (auto simp: rot_shift.simps [of p i] same_files_def)
  next
    case True
    let ?s1 = "sys_rename (indexed_path p (i - 1)) (indexed_path p i) s" and ?s2 = "rot_shift p i s"
    have ne: "indexed_path p (i - 1) \<noteq> indexed_path p i" using True by (simp add: indexed_path_inject)
    note r = rename_calm [OF 1(2,3) ne]
    have e: "?s2 = rot_shift p (i - 1) ?s1" using True by (simp add: rot_shift.simps [of p i])
    have none: "names ?s1 (indexed_path p (i - 1)) = None" using r ne by simp
    note IH = 1(1) [OF True _ none, folded e]
    have ih: "calm ?s2" "same_files ?s1 ?s2"
      "\<And>j. 2 \<le> j \<Longrightarrow> j \<le> i - 1 \<Longrightarrow> names ?s2 (indexed_path p j) = names ?s1 (indexed_path p (j - 1))"
      "names ?s2 (indexed_path p 1) = None"
      "\<And>q. q \<notin> indexed_path p ` {1..i - 1} \<Longrightarrow> names ?s2 q = names ?s1 q"
      using IH r True by auto
    have "names ?s2 (indexed_path p j) = names s (indexed_path p (j - 1))" if j: "2 \<le> j" "j \<le> i" for j
    proof (cases "j = i")
      case True': True
      have "indexed_path p i \<notin> indexed_path p ` {1..i - 1}" using True by (auto simp: indexed_path_inject)
      then show ?thesis using ih(5) r True' by simp
    next
      case False
      then have "names ?s2 (indexed_path p j) = names ?s1 (indexed_path p (j - 1))" using ih(3) j by simp
      also have "\<dots> = names s (indexed_path p (j - 1))"
      proof -
        have "j - 1 \<noteq> i - 1" "j - 1 \<noteq> i" using j False by linarith+
        then show ?thesis using r by (simp add: indexed_path_inject)
      qed
      finally show ?thesis .
    qed
    moreover have "names ?s2 q = names s q" if "q \<notin> indexed_path p ` {1..i}" for q
    proof -
      have "q \<notin> indexed_path p ` {1..i - 1}" "q \<noteq> indexed_path p i" "q \<noteq> indexed_path p (i - 1)"
        using that True by auto
      then show ?thesis using ih(5) [of q] r by simp
    qed
    ultimately show ?thesis using ih r same_files_trans by auto
  qed
qed

lemma rot_shift_os_ok: "os_ok s \<Longrightarrow> os_ok (rot_shift p i s)"
proof (induction p i s rule: rot_shift.induct)
  case (1 p i s)
  then show ?case using os_ok_rename by (simp add: rot_shift.simps [of p i])
qed

section \<open>The chain of files\<close>

definition slot_path :: "rotating \<Rightarrow> nat \<Rightarrow> string" where
  "slot_path k i = (if i = 0 then rt_path k else indexed_path (rt_path k) i)"

definition chain :: "rotating \<Rightarrow> os \<Rightarrow> byte list option list" where
  "chain k s = map (\<lambda>i. file_at s (slot_path k i)) [0..<rt_max_files k]"

definition chain_rotate :: "nat \<Rightarrow> byte list option list \<Rightarrow> byte list option list" where
  "chain_rotate m c = take m (Some [] # c)"

definition chain_write :: "nat \<Rightarrow> nat \<Rightarrow> byte list \<Rightarrow> byte list option list \<Rightarrow> byte list option list" where
  "chain_write max_bytes m line c =
     (let cur = (case hd c of Some bs \<Rightarrow> bs @ line | None \<Rightarrow> line)
      in if length cur \<ge> max_bytes then chain_rotate m (Some cur # tl c) else Some cur # tl c)"

lemma slot_path_upd [simp]:
  "slot_path (k\<lparr>rt_fd := f\<rparr>) i = slot_path k i" "slot_path (k\<lparr>rt_bytes := n\<rparr>) i = slot_path k i"
  by (simp_all add: slot_path_def)

lemma slot_path_inject: "slot_path k i = slot_path k j \<longleftrightarrow> i = j"
  by (auto simp: slot_path_def indexed_path_inject indexed_path_other dest: sym)

text \<open>
  The descriptor refers to the file that \<open>path\<close> names, and to no other file of the chain; its size is
  the count.
\<close>

definition rot_inv :: "rotating \<times> os \<Rightarrow> bool" where
  "rot_inv = (\<lambda>(k, s).
     rt_path k \<noteq> [] \<and> 1 \<le> rt_max_files k \<and> os_ok s \<and> calm s \<and>
     (\<exists>d. fds s (rt_fd k) = Some d \<and> at_end s d \<and> names s (rt_path k) = Some (inode d) \<and>
        (\<forall>i. 0 < i \<and> i < rt_max_files k \<longrightarrow> names s (slot_path k i) \<noteq> Some (inode d)) \<and>
        rt_bytes k = length (contents (nodes s (inode d)))))"

lemma close_calm:
  "calm s \<Longrightarrow> calm (sys_close fd s) \<and> names (sys_close fd s) = names s \<and> nodes (sys_close fd s) = nodes s \<and>
     next_node (sys_close fd s) = next_node s"
  by (simp add: sys_close_def calm_def benign_def)

lemma open_calm_fresh:
  assumes "calm s" "names s p = None"
  shows "fst (sys_open p f s) = int (next_fd s) \<and> calm (snd (sys_open p f s)) \<and>
    names (snd (sys_open p f s)) = (names s)(p \<mapsto> next_node s) \<and>
    nodes (snd (sys_open p f s)) = (nodes s)(next_node s := \<lparr>contents = [], regular = True\<rparr>) \<and>
    fds (snd (sys_open p f s)) (int (next_fd s)) =
      Some \<lparr>inode = next_node s, offset = 0, o_append = f_append f\<rparr>"
  using assms by (simp add: sys_open_def calm_def benign_def next_fails_def Let_def)

text \<open>Moving every name of the chain one place down, the last one out.\<close>

lemma rotate_names:
  assumes "calm s" "1 \<le> rt_max_files k"
  defines "s' \<equiv> (if rt_max_files k \<ge> 2 then
                 (let s = sys_unlink (indexed_path (rt_path k) (rt_max_files k - 1)) s;
                      s = rot_shift (rt_path k) (rt_max_files k - 1) s
                  in sys_rename (rt_path k) (indexed_path (rt_path k) 1) s)
               else sys_unlink (rt_path k) s)"
  shows "calm s' \<and> same_files s s' \<and> names s' (rt_path k) = None \<and>
    (\<forall>i. 0 < i \<and> i < rt_max_files k \<longrightarrow> names s' (slot_path k i) = names s (slot_path k (i - 1)))"
proof (cases "rt_max_files k \<ge> 2")
  case False
  then have "rt_max_files k = 1" using assms(2) by linarith
  then show ?thesis using unlink_calm [OF assms(1), of "rt_path k"] by (simp add: s'_def)
next
  case True
  let ?p = "rt_path k" and ?m = "rt_max_files k - 1"
  let ?s1 = "sys_unlink (indexed_path ?p ?m) s"
  let ?s2 = "rot_shift ?p ?m ?s1"
  note u = unlink_calm [OF assms(1), of "indexed_path ?p ?m"]
  have c1: "calm ?s1" and n1: "names ?s1 (indexed_path ?p ?m) = None" using u by simp_all
  note r = rot_shift_calm [OF c1 n1]
  have c2: "calm ?s2" and n2: "names ?s2 (indexed_path ?p 1) = None" using r True by auto
  note f = rename_calm [OF c2 n2 indexed_path_other [symmetric, of ?p 1]]
  have e: "s' = sys_rename ?p (indexed_path ?p 1) ?s2" using True by (simp add: s'_def Let_def)
  have "?p \<notin> indexed_path ?p ` {1..?m}" "?p \<noteq> indexed_path ?p ?m"
    using indexed_path_other by (metis imageE)+
  then have p: "names ?s2 ?p = names s ?p" using r u by simp
  have "names s' (slot_path k i) = names s (slot_path k (i - 1))" if i: "0 < i" "i < rt_max_files k" for i
  proof (cases "i = 1")
    case True
    then show ?thesis using f p indexed_path_other [of ?p 1] by (simp add: e slot_path_def)
  next
    case False
    then have "2 \<le> i" "i \<le> ?m" "i - 1 \<noteq> ?m" using i by linarith+
    then have "names ?s2 (indexed_path ?p i) = names s (indexed_path ?p (i - 1))"
      using r u by (simp add: indexed_path_inject)
    then show ?thesis
      using f False \<open>2 \<le> i\<close> indexed_path_other [of ?p] by (simp add: e slot_path_def indexed_path_inject)
  qed
  moreover have "same_files s s'" using u r f same_files_trans unfolding e by blast
  ultimately show ?thesis using f by (auto simp: e indexed_path_other dest: sym)
qed

lemma rotate_ok:
  assumes "rot_inv (k, s)"
  shows "rot_inv (rotate_locked k s) \<and>
    chain (fst (rotate_locked k s)) (snd (rotate_locked k s)) = chain_rotate (rt_max_files k) (chain k s) \<and>
    rt_path (fst (rotate_locked k s)) = rt_path k \<and> rt_max_files (fst (rotate_locked k s)) = rt_max_files k \<and>
    rt_max_bytes (fst (rotate_locked k s)) = rt_max_bytes k"
proof -
  let ?p = "rt_path k" and ?m = "rt_max_files k"
  from assms obtain d where inv: "?p \<noteq> []" "1 \<le> ?m" "os_ok s" "calm s" "fds s (rt_fd k) = Some d"
    by (auto simp: rot_inv_def)
  have fd: "rt_fd k \<ge> 0" using inv(3,5) by (auto simp: os_ok_def)
  let ?k = "k\<lparr>rt_fd := - 1\<rparr>" and ?s0 = "sys_close (rt_fd k) s"
  have c0: "calm ?s0" "names ?s0 = names s" "nodes ?s0 = nodes s" "next_node ?s0 = next_node s"
    using close_calm [OF inv(4)] by simp_all
  define s1 where "s1 = (if ?m \<ge> 2 then
                 (let s = sys_unlink (indexed_path ?p (?m - 1)) ?s0; s = rot_shift ?p (?m - 1) s
                  in sys_rename ?p (indexed_path ?p 1) s)
               else sys_unlink ?p ?s0)"
  have n: "calm s1" "same_files ?s0 s1" "names s1 ?p = None"
    "\<And>i. 0 < i \<Longrightarrow> i < ?m \<Longrightarrow> names s1 (slot_path k i) = names ?s0 (slot_path k (i - 1))"
    using rotate_names [OF c0(1) inv(2)] by (simp_all add: s1_def)
  let ?f = "\<lparr>f_append = False, f_trunc = True\<rparr>"
  define s2 where "s2 = snd (sys_open ?p ?f s1)"
  have o: "fst (sys_open ?p ?f s1) = int (next_fd s1)" "calm s2"
    "names s2 = (names s1)(?p \<mapsto> next_node s1)"
    "nodes s2 = (nodes s1)(next_node s1 := \<lparr>contents = [], regular = True\<rparr>)"
    "fds s2 (int (next_fd s1)) = Some \<lparr>inode = next_node s1, offset = 0, o_append = False\<rparr>"
    using open_calm_fresh [OF n(1,3), of ?f] by (simp_all add: s2_def)
  let ?k2 = "?k\<lparr>rt_fd := int (next_fd s1), rt_bytes := 0\<rparr>"
  have "rotate_locked k s = (let (fd, s) = sys_open ?p ?f s1 in (?k\<lparr>rt_fd := fd, rt_bytes := 0\<rparr>, s))"
    using fd by (simp add: rotate_locked_def s1_def cong: if_cong)
  then have rot: "rotate_locked k s = (?k2, s2)"
    using o(1) by (cases "sys_open ?p ?f s1") (simp add: s2_def)
  have nn: "next_node s1 = next_node s" "nodes s1 = nodes s" using n(2) c0 by (simp_all add: same_files_def)
  have old: "names s2 (slot_path k i) = names s (slot_path k (i - 1))" if "0 < i" "i < ?m" for i
    using o(3) n(4) [OF that] that slot_path_inject [of k i 0] c0(2) by (simp add: slot_path_def)
  have fresh: "names s q \<noteq> Some (next_node s)" for q using inv(3) by (auto simp: os_ok_def)
  have os2: "os_ok s2"
  proof -
    have "os_ok ?s0" by (rule os_ok_close [OF inv(3)])
    then have "os_ok s1"
      unfolding s1_def Let_def
      using n(2) by (auto intro!: os_ok_rename os_ok_unlink rot_shift_os_ok)
    then show ?thesis unfolding s2_def by (rule os_ok_open)
  qed
  have "names s2 (slot_path k i) \<noteq> Some (next_node s)" if "0 < i" "i < ?m" for i
    using old [OF that] fresh by simp
  then have "rot_inv (?k2, s2)"
    unfolding rot_inv_def using inv(1,2) os2 o(2-5) nn by (simp add: at_end_def)
  moreover have "chain ?k2 s2 = chain_rotate ?m (chain k s)"
  proof (rule nth_equalityI)
    show "length (chain ?k2 s2) = length (chain_rotate ?m (chain k s))"
      using inv(2) by (simp add: chain_def chain_rotate_def)
    fix i assume "i < length (chain ?k2 s2)"
    then have i: "i < ?m" by (simp add: chain_def)
    show "chain ?k2 s2 ! i = chain_rotate ?m (chain k s) ! i"
    proof (cases i)
      case 0
      then show ?thesis using i o by (simp add: chain_def chain_rotate_def slot_path_def file_at_def)
    next
      case (Suc j)
      have "chain_rotate ?m (chain k s) ! i = file_at s (slot_path k j)"
        using i Suc by (simp add: chain_def chain_rotate_def)
      moreover have "file_at s2 (slot_path k i) = file_at s (slot_path k j)"
        using old [of i] i Suc fresh [of "slot_path k j"] o(4) nn
        by (auto simp: file_at_def split: option.splits)
      ultimately show ?thesis using i by (simp add: chain_def)
    qed
  qed
  ultimately show ?thesis by (simp add: rot)
qed

section \<open>A write\<close>

lemma rot_writev_all_eq: "rot_writev_all fd iov s = writev_all fd iov s"
  by (simp add: rot_writev_all_def writev_all_def)

lemma chain_Cons:
  assumes "1 \<le> rt_max_files k"
  shows "chain k s = file_at s (rt_path k) # map (\<lambda>i. file_at s (slot_path k i)) [1..<rt_max_files k]"
  using assms by (simp add: chain_def upt_conv_Cons slot_path_def)

lemma rot_append_ok:
  assumes "rot_inv (k, s)" "length iov \<le> IOV_MAX"
  defines "s' \<equiv> writev_all (rt_fd k) iov s" and "k' \<equiv> k\<lparr>rt_bytes := rt_bytes k + length (concat iov)\<rparr>"
  shows "rot_inv (k', s') \<and> 
    (\<exists>cur. file_at s (rt_path k) = Some cur \<and> length cur = rt_bytes k \<and>
       chain k' s' = Some (cur @ concat iov) # tl (chain k s))"
proof -
  from assms(1) obtain d where inv: "rt_path k \<noteq> []" "1 \<le> rt_max_files k" "os_ok s" "calm s"
    "fds s (rt_fd k) = Some d" "at_end s d" "names s (rt_path k) = Some (inode d)"
    "\<And>i. 0 < i \<Longrightarrow> i < rt_max_files k \<Longrightarrow> names s (slot_path k i) \<noteq> Some (inode d)"
    "rt_bytes k = length (contents (nodes s (inode d)))"
    by (auto simp: rot_inv_def)
  have "fd_ok (rt_fd k) s" "benign s" using inv(4-6) by (auto simp: fd_ok_def calm_def)
  then have a: "appended (rt_fd k) (concat iov) s s'" "benign s'"
    using writev_all_whole [OF _ assms(2), of "rt_fd k" s] by (simp_all add: s'_def)
  then obtain d' where d': "fds s' (rt_fd k) = Some d'" "inode d' = inode d" "at_end s' d'"
    "nodes s' = (nodes s)(inode d := (nodes s (inode d))\<lparr>contents := contents (nodes s (inode d)) @ concat iov\<rparr>)"
    "names s' = names s"
    using inv(5) by (auto simp: appended_def)
  have calm: "calm s'" using a inv(4) by (auto simp: appended_def calm_def)
  have "os_ok s'" by (rule appended_os_ok [OF a(1) inv(3)])
  then have "rot_inv (k', s')"
    unfolding rot_inv_def using inv d' calm by (simp add: k'_def)
  moreover have "file_at s' (slot_path k i) = file_at s (slot_path k i)" if "0 < i" "i < rt_max_files k" for i
    using inv(8) [OF that] d' by (auto simp: file_at_def split: option.splits)
  then have "chain k' s' = Some (contents (nodes s (inode d)) @ concat iov) # tl (chain k s)"
    using inv(2,7) d' by (simp add: chain_Cons k'_def file_at_def cong: map_cong)
  ultimately show ?thesis using inv(7,9) by (auto simp: file_at_def)
qed

lemma rot_write_ok:
  assumes "rot_inv (k, s)" "length iov \<le> IOV_MAX"
  shows "\<exists>k' s'. rot_write lvl iov (k, s) = (k', s') \<and> rot_inv (k', s') \<and>
    rt_path k' = rt_path k \<and> rt_max_files k' = rt_max_files k \<and> rt_max_bytes k' = rt_max_bytes k \<and>
    chain k' s' = (if iov = [] then chain k s
                   else chain_write (rt_max_bytes k) (rt_max_files k) (concat iov) (chain k s))"
proof (cases "iov = []")
  case True
  then show ?thesis using assms by (simp add: rot_write_def)
next
  case False
  have total: "foldl (\<lambda>total x. total + length x) n iov = n + length (concat iov)" for n
    by (induction iov arbitrary: n) auto
  let ?s1 = "writev_all (rt_fd k) iov s" and ?k1 = "k\<lparr>rt_bytes := rt_bytes k + length (concat iov)\<rparr>"
  obtain cur where cur: "rot_inv (?k1, ?s1)" "file_at s (rt_path k) = Some cur" "length cur = rt_bytes k"
    "chain ?k1 ?s1 = Some (cur @ concat iov) # tl (chain k s)"
    using rot_append_ok [OF assms] by blast
  obtain d where "os_ok s" "fds s (rt_fd k) = Some d" using assms(1) by (auto simp: rot_inv_def)
  then have "0 \<le> rt_fd k" by (simp add: os_ok_def)
  then have k: "rt_path k \<noteq> []" "\<not> rt_fd k < 0" "1 \<le> rt_max_files k"
    using assms(1) by (auto simp: rot_inv_def)
  have w: "rot_write lvl iov (k, s) =
      (if rt_bytes k + length (concat iov) \<ge> rt_max_bytes k then rotate_locked ?k1 ?s1 else (?k1, ?s1))"
    using False k by (simp add: rot_write_def total rot_writev_all_eq Let_def)
  have c: "chain_write (rt_max_bytes k) (rt_max_files k) (concat iov) (chain k s) =
      (if rt_bytes k + length (concat iov) \<ge> rt_max_bytes k
       then chain_rotate (rt_max_files k) (chain ?k1 ?s1) else chain ?k1 ?s1)"
    unfolding cur(4) using cur(2,3) k(3) by (simp add: chain_write_def Let_def chain_Cons)
  show ?thesis
  proof (cases "rt_bytes k + length (concat iov) \<ge> rt_max_bytes k")
    case True
    obtain k2 s2 where "rotate_locked ?k1 ?s1 = (k2, s2)" by fastforce
    with rotate_ok [OF cur(1)] True False w c show ?thesis by simp
  next
    case ge: False
    with w c cur(1) False show ?thesis by simp
  qed
qed

text \<open>All the bytes of the chain, oldest file first.\<close>

definition chain_text :: "byte list option list \<Rightarrow> byte list" where
  "chain_text c = concat (map (case_option [] (\<lambda>bs. bs)) (rev c))"

definition rot_held :: "rotating \<times> os \<Rightarrow> byte list" where
  "rot_held = (\<lambda>(k, s). chain_text (chain k s))"

lemma chain_text_Cons: "chain_text (x # c) = chain_text c @ case_option [] (\<lambda>bs. bs) x"
  by (simp add: chain_text_def)

lemma chain_text_append: "chain_text (c @ c') = chain_text c' @ chain_text c"
  by (simp add: chain_text_def)

lemma chain_text_take: "\<exists>n. chain_text (take m c) = drop n (chain_text c)"
proof -
  have "chain_text c = chain_text (drop m c) @ chain_text (take m c)"
    using chain_text_append [of "take m c" "drop m c"] by simp
  then show ?thesis by (metis append_eq_conv_conj)
qed

lemma chain_write_text:
  assumes "c \<noteq> []"
  shows "\<exists>n. chain_text (chain_write mb m line c) = drop n (chain_text c @ line)"
proof -
  obtain x xs where c: "c = x # xs" using assms by (cases c) auto
  let ?cur = "case x of Some bs \<Rightarrow> bs @ line | None \<Rightarrow> line"
  have t: "chain_text (Some ?cur # xs) = chain_text c @ line"
    by (simp add: c chain_text_Cons split: option.split)
  have "chain_text (Some [] # Some ?cur # xs) = chain_text c @ line"
    using t by (simp add: chain_text_Cons)
  then show ?thesis
    using t chain_text_take [of m "Some [] # Some ?cur # xs"]
    by (auto simp: chain_write_def chain_rotate_def c Let_def intro: exI [of _ 0])
qed

lemma rot_flush_ok:
  assumes "rot_inv (k, s)"
  shows "rot_inv (rot_flush (k, s))" "rot_held (rot_flush (k, s)) = rot_held (k, s)"
proof -
  have "file_at (sys_fsync (rt_fd k) s) p = file_at s p" for p
    by (simp add: file_at_def sys_fsync_def split: option.split)
  then show "rot_held (rot_flush (k, s)) = rot_held (k, s)"
    by (simp add: rot_held_def rot_flush_def chain_def)
  show "rot_inv (rot_flush (k, s))"
    using assms os_ok_fsync [of s "rt_fd k"] benign_fsync [of "rt_fd k" s]
    by (auto simp: rot_inv_def rot_flush_def calm_def at_end_def sys_fsync_def split: option.splits)
qed

interpretation rotating_sink: sink rot_write rot_flush rot_held "\<lambda>lvl iov. concat iov"
  "\<lambda>iov. length iov \<le> IOV_MAX" rot_inv
proof
  fix ks :: "rotating \<times> os" and iov :: iovecs and lvl
  obtain k s where ks: "ks = (k, s)" by fastforce
  {
    assume a: "rot_inv ks" "length iov \<le> IOV_MAX"
    then have "chain k s \<noteq> []" by (auto simp: ks rot_inv_def chain_def)
    then obtain n where "chain_text (chain_write (rt_max_bytes k) (rt_max_files k) (concat iov) (chain k s)) =
        drop n (chain_text (chain k s) @ concat iov)" using chain_write_text by blast
    then show "rot_inv (rot_write lvl iov ks)"
      "\<exists>n. rot_held (rot_write lvl iov ks) = drop n (rot_held ks @ concat iov)"
      using rot_write_ok [of k s iov lvl] a
      by (auto simp: ks rot_held_def intro: exI [of _ 0] split: if_splits)
  }
  assume "rot_inv ks"
  then show "rot_inv (rot_flush ks)" "rot_held (rot_flush ks) = rot_held ks"
    using rot_flush_ok ks by auto
qed

section \<open>Properties\<close>

definition chain_writes :: "nat \<Rightarrow> nat \<Rightarrow> (Level \<times> iovecs) list \<Rightarrow> byte list option list \<Rightarrow> byte list option list" where
  "chain_writes mb m ls c = fold (\<lambda>(lvl, iov) c. if iov = [] then c else chain_write mb m (concat iov) c) ls c"

lemma chain_refines:
  assumes "rot_inv (k, s)" "\<forall>(lvl, iov) \<in> set ls. length iov \<le> IOV_MAX"
  shows "\<exists>k' s'. fold (\<lambda>(lvl, iov). rot_write lvl iov) ls (k, s) = (k', s') \<and> rot_inv (k', s') \<and>
    chain k' s' = chain_writes (rt_max_bytes k) (rt_max_files k) ls (chain k s)"
  using assms
proof (induction ls arbitrary: k s)
  case (Cons l ls)
  obtain lvl iov where l: "l = (lvl, iov)" by (cases l)
  have n: "length iov \<le> IOV_MAX" using Cons.prems(2) l by simp
  obtain k1 s1 where w: "rot_write lvl iov (k, s) = (k1, s1)" "rot_inv (k1, s1)"
    "rt_max_files k1 = rt_max_files k" "rt_max_bytes k1 = rt_max_bytes k"
    "chain k1 s1 = (if iov = [] then chain k s
       else chain_write (rt_max_bytes k) (rt_max_files k) (concat iov) (chain k s))"
    using rot_write_ok [OF Cons.prems(1) n] by blast
  have "\<exists>k' s'. fold (\<lambda>(lvl, iov). rot_write lvl iov) ls (k1, s1) = (k', s') \<and> rot_inv (k', s') \<and>
      chain k' s' = chain_writes (rt_max_bytes k1) (rt_max_files k1) ls (chain k1 s1)"
    using w(2) Cons.prems(2) by (intro Cons.IH) auto
  then show ?case using w by (simp add: l chain_writes_def)
qed (simp add: chain_writes_def)

text \<open>
  C7: The rename chain of the rotating sink refines the abstract chain of files: whatever lines are
  written, the files \<open>path\<close>, \<open>path.1\<close>, ..., \<open>path.(max_files-1)\<close> hold exactly what pushing onto a
  bounded list would give: each line is appended to the first file, and when that reaches
  \<open>max_bytes\<close> all files move down one place, the last disappears and the first is empty.
\<close>

theorem rotation_refines_chain:
  assumes "rot_inv (k, s)" "\<forall>(lvl, iov) \<in> set ls. length iov \<le> IOV_MAX"
  shows "\<exists>k' s'. fold (\<lambda>(lvl, iov). rot_write lvl iov) ls (k, s) = (k', s') \<and> rot_inv (k', s') \<and>
    chain k' s' = chain_writes (rt_max_bytes k) (rt_max_files k) ls (chain k s)"
  using assms by (rule chain_refines)

definition rot_disk :: os where
  "rot_disk = disk0\<lparr>names := [''a.log'' \<mapsto> 0, ''a.1.log'' \<mapsto> 1], next_node := 2,
     nodes := (\<lambda>i. if i = 0 then \<lparr>contents = [], regular = True\<rparr> else \<lparr>contents = ''one'', regular = True\<rparr>)\<rparr>"

definition rot_sink :: rotating where
  "rot_sink = \<lparr>rt_path = ''a.log'', rt_max_bytes = 4, rt_max_files = 3, rt_fd = 3, rt_bytes = 0\<rparr>"

lemma rot_paths: "indexed_path ''a.log'' 1 = ''a.1.log''" "indexed_path ''a.log'' 2 = ''a.2.log''"
  by (simp_all add: indexed_path_def Let_def kSuffix_def radix_str.simps digit_char_def char_of_def bit_Suc_0_iff)

lemma rot_sample: "rot_inv (rot_sink, rot_disk)" "chain rot_sink rot_disk = [Some [], Some ''one'', None]"
proof -
  have i: "i = 1 \<or> i = 2" if "0 < i" "i < 3" for i :: nat using that by linarith
  have "names rot_disk (slot_path rot_sink i) \<noteq> Some 0" if "0 < i" "i < 3" for i
    using i [OF that] rot_paths by (auto simp: slot_path_def rot_sink_def rot_disk_def)
  then show "rot_inv (rot_sink, rot_disk)"
    by (auto simp: rot_inv_def rot_sink_def rot_disk_def disk0_def os_ok_def calm_def benign_def at_end_def
        split: if_splits)
  have "[0..<3] = [0, 1, 2 :: nat]" by (simp add: upt_rec)
  then show "chain rot_sink rot_disk = [Some [], Some ''one'', None]"
    using rot_paths by (simp add: chain_def slot_path_def rot_sink_def rot_disk_def file_at_def)
qed

theorem rotation_refines_chain_witness:
  "\<exists>k' s'. fold (\<lambda>(lvl, iov). rot_write lvl iov) [(INFO, [''ab'']), (INFO, [''c'', ''d'']), (INFO, [''e''])]
       (rot_sink, rot_disk) = (k', s') \<and>
     chain k' s' = [Some ''e'', Some ''abcd'', Some ''one'']"
proof -
  let ?ls = "[(INFO, [''ab'']), (INFO, [''c'', ''d'']), (INFO, [''e''])]"
  have "chain_writes 4 3 ?ls [Some [], Some ''one'', None] = [Some ''e'', Some ''abcd'', Some ''one'']"
    by (simp add: chain_writes_def chain_write_def chain_rotate_def Let_def)
  then show ?thesis
    using rotation_refines_chain [OF rot_sample(1), of ?ls] rot_sample(2)
    by (auto simp: rot_sink_def IOV_MAX_def)
qed

text \<open>
  C20: What is on disk after any run is the most recent part of everything written, in order, without
  gaps or repetitions: the files read from the oldest to \<open>path\<close> are a suffix of the old contents
  followed by all lines.
\<close>

theorem rotation_keeps_suffix:
  assumes "rot_inv (k, s)" "\<forall>(lvl, iov) \<in> set ls. length iov \<le> IOV_MAX"
  shows "\<exists>k' s' n. fold (\<lambda>(lvl, iov). rot_write lvl iov) ls (k, s) = (k', s') \<and>
    chain_text (chain k' s') = drop n (chain_text (chain k s) @ concat (map (\<lambda>(lvl, iov). concat iov) ls))"
  using rotating_sink.held_lines [OF assms] by (auto simp: rot_held_def split: prod.splits)

theorem rotation_keeps_suffix_witness:
  "\<exists>k' s' n. fold (\<lambda>(lvl, iov). rot_write lvl iov) [(INFO, [''abcd'']), (INFO, [''efgh'']), (INFO, [''ijkl''])]
       (rot_sink, rot_disk) = (k', s') \<and> chain_text (chain k' s') = drop n ''oneabcdefghijkl''"
  using rotation_keeps_suffix [OF rot_sample(1), of "[(INFO, [''abcd'']), (INFO, [''efgh'']), (INFO, [''ijkl''])]"]
    rot_sample(2) by (simp add: IOV_MAX_def chain_text_def)

lemma chain_write_bounded:
  assumes "c \<noteq> []" "1 \<le> mb" "1 \<le> m" "length line \<le> B"
    "\<forall>x \<in> set c. length (case_option [] (\<lambda>bs. bs) x) < mb + B"
    "length (case_option [] (\<lambda>bs. bs) (hd c)) < mb"
  shows "chain_write mb m line c \<noteq> [] \<and>
    (\<forall>x \<in> set (chain_write mb m line c). length (case_option [] (\<lambda>bs. bs) x) < mb + B) \<and>
    length (case_option [] (\<lambda>bs. bs) (hd (chain_write mb m line c))) < mb"
proof -
  obtain x xs where c: "c = x # xs" using assms(1) by (cases c) auto
  define cur where "cur = (case x of Some bs \<Rightarrow> bs @ line | None \<Rightarrow> line)"
  have cur: "length cur < mb + B" using assms(4,6) by (auto simp: c cur_def split: option.splits)
  have all: "length (case_option [] (\<lambda>bs. bs) y) < mb + B" if "y \<in> set (take m (Some [] # Some cur # xs))" for y
  proof -
    have "y \<in> set (Some [] # Some cur # xs)" using that by (rule in_set_takeD)
    then consider "y = Some []" | "y = Some cur" | "y \<in> set xs" by auto
    then show ?thesis using assms(2,5) cur by cases (auto simp: c)
  qed
  have "m \<noteq> 0" using assms(3) by simp
  then show ?thesis
    using assms(2,5) cur all
    by (auto simp: chain_write_def chain_rotate_def c Let_def hd_take simp flip: cur_def)
qed

text \<open>
  C21: The disk space a rotating sink uses is bounded: if no line is longer than \<open>B\<close> bytes, then in
  every state of any run each file of the chain stays below \<open>max_bytes + B\<close>, and the current one
  is below \<open>max_bytes\<close> between writes.
\<close>

theorem rotation_bounds_size:
  assumes "rot_inv (k, s)" "1 \<le> rt_max_bytes k"
    "\<forall>(lvl, iov) \<in> set ls. length iov \<le> IOV_MAX \<and> length (concat iov) \<le> B"
    "\<forall>x \<in> set (chain k s). length (case_option [] (\<lambda>bs. bs) x) < rt_max_bytes k + B"
    "rt_bytes k < rt_max_bytes k"
  shows "\<exists>k' s'. fold (\<lambda>(lvl, iov). rot_write lvl iov) ls (k, s) = (k', s') \<and>
    (\<forall>x \<in> set (chain k' s'). length (case_option [] (\<lambda>bs. bs) x) < rt_max_bytes k + B) \<and>
    length (case_option [] (\<lambda>bs. bs) (file_at s' (rt_path k'))) < rt_max_bytes k"
proof -
  let ?ok = "\<lambda>c. c \<noteq> [] \<and> (\<forall>x \<in> set c. length (case_option [] (\<lambda>bs. bs) x) < rt_max_bytes k + B) \<and>
    length (case_option [] (\<lambda>bs. bs) (hd c)) < rt_max_bytes k"
  have m: "1 \<le> rt_max_files k" using assms(1) by (simp add: rot_inv_def)
  have run: "?ok (chain_writes (rt_max_bytes k) (rt_max_files k) ls c)"
    if "?ok c" "\<forall>(lvl, iov) \<in> set ls. length (concat iov) \<le> B" for c ls
    using that
  proof (induction ls arbitrary: c)
    case (Cons l ls)
    obtain lvl iov where l: "l = (lvl, iov)" by (cases l)
    have "?ok (if iov = [] then c else chain_write (rt_max_bytes k) (rt_max_files k) (concat iov) c)"
      using Cons.prems l chain_write_bounded [of c "rt_max_bytes k" "rt_max_files k" "concat iov" B] assms(2) m
      by simp
    then have "?ok (chain_writes (rt_max_bytes k) (rt_max_files k) ls
        (if iov = [] then c else chain_write (rt_max_bytes k) (rt_max_files k) (concat iov) c))"
      using Cons.prems(2) by (intro Cons.IH) auto
    then show ?case by (simp add: chain_writes_def l)
  qed (simp add: chain_writes_def)
  have "?ok (chain k s)"
    using assms(1,4,5) m by (auto simp: rot_inv_def chain_Cons file_at_def)
  moreover have "\<forall>(lvl, iov) \<in> set ls. length (concat iov) \<le> B" using assms(3) by auto
  ultimately have ok: "?ok (chain_writes (rt_max_bytes k) (rt_max_files k) ls (chain k s))" by (rule run)
  obtain k' s' where r: "fold (\<lambda>(lvl, iov). rot_write lvl iov) ls (k, s) = (k', s')" "rot_inv (k', s')"
    "chain k' s' = chain_writes (rt_max_bytes k) (rt_max_files k) ls (chain k s)"
    using chain_refines [OF assms(1), of ls] assms(3) by fastforce
  have "1 \<le> rt_max_files k'" using r(2) by (simp add: rot_inv_def)
  then have "hd (chain k' s') = file_at s' (rt_path k')" by (simp add: chain_Cons)
  then show ?thesis using ok r by auto
qed

theorem rotation_bounds_size_witness:
  "\<exists>k' s'. fold (\<lambda>(lvl, iov). rot_write lvl iov) [(INFO, [''abc'']), (INFO, [''defgh''])] (rot_sink, rot_disk) = (k', s') \<and>
     (\<forall>x \<in> set (chain k' s'). length (case_option [] (\<lambda>bs. bs) x) < 4 + 5) \<and>
     length (case_option [] (\<lambda>bs. bs) (file_at s' (rt_path k'))) < 4"
  using rotation_bounds_size [OF rot_sample(1), of "[(INFO, [''abc'']), (INFO, [''defgh''])]" 5] rot_sample(2)
  by (simp add: rot_sink_def IOV_MAX_def)

lemma name_ops_open_faults:
  "open_faults (sys_rename p q s) = open_faults s" "open_faults (sys_unlink p s) = open_faults s"
  "open_faults (sys_close fd s) = open_faults s"
  by (auto simp: sys_rename_def sys_unlink_def sys_close_def Let_def split: option.splits)

lemma rot_shift_open_faults: "open_faults (rot_shift p i s) = open_faults s"
proof (induction p i s rule: rot_shift.induct)
  case (1 p i s)
  then show ?case by (simp add: rot_shift.simps [of p i] name_ops_open_faults)
qed

lemma closed_sink_stuck: "rt_fd k < 0 \<Longrightarrow> fold (\<lambda>(lvl, iov). rot_write lvl iov) ls (k, s) = (k, s)"
  by (induction ls) (auto simp: rot_write_def Let_def)

text \<open>
  C36: If the \<open>open\<close> that follows a rotation fails once, the sink is dead: every later line is dropped
  without an error, for as long as the sink lives.
\<close>

theorem failed_reopen_silences:
  assumes "open_faults s = True # r"
  shows "\<exists>k' s'. rotate_locked k s = (k', s') \<and>
    (\<forall>ls. fold (\<lambda>(lvl, iov). rot_write lvl iov) ls (k', s') = (k', s'))"
proof -
  obtain k' s' where r: "rotate_locked k s = (k', s')" by fastforce
  have "fst (sys_open p f t) = - 1" if "open_faults t = True # r" for p f t
    using that by (simp add: sys_open_def next_fails_def Let_def)
  then have "rt_fd k' = - 1"
    using r assms by (auto simp: rotate_locked_def Let_def name_ops_open_faults rot_shift_open_faults
        split: prod.splits if_splits) (metis fst_conv name_ops_open_faults rot_shift_open_faults)+
  then show ?thesis using r closed_sink_stuck by simp
qed

theorem failed_reopen_silences_witness:
  "\<exists>k' s'. rotate_locked rot_sink (rot_disk\<lparr>open_faults := [True]\<rparr>) = (k', s') \<and>
     rot_write ERROR [''lost''] (k', s') = (k', s')"
proof -
  obtain k' s' where "rotate_locked rot_sink (rot_disk\<lparr>open_faults := [True]\<rparr>) = (k', s')"
    "\<forall>ls. fold (\<lambda>(lvl, iov). rot_write lvl iov) ls (k', s') = (k', s')"
    using failed_reopen_silences [of "rot_disk\<lparr>open_faults := [True]\<rparr>" "[]" rot_sink] by auto
  from this(1) this(2) [rule_format, of "[(ERROR, [''lost''])]"] show ?thesis by simp
qed

end
