(* ===== verification/Elog_Logger.thy ===== *)
theory Elog_Logger
  imports Elog_Buffered Elog_Rotating "HOL-Library.Transitive_Closure_Table"
begin

text \<open>
  Loggers and the fan-out through ties, \<open>include/elog/logger.hpp\<close> and \<open>src/logger.cpp\<close>. Loggers live
  in a heap (addresses are numbers; a destroyed logger has no entry), a tie is an address. \<open>None\<close> is
  undefined behaviour (a tie to a destroyed logger) or exhausted fuel; the theorems on \<open>emit\<close> show
  how much fuel is enough. \<open>visited\<close> is the calling thread's \<open>tl_emit_visited\<close>. The specification of
  the fan-out is \<open>route\<close>: the loggers a line passes through, in order.
\<close>

section \<open>The sinks of the library behind the virtual interface\<close>

datatype sink = Fd fd_sink | Buffered buffered | Rotating rotating

fun sink_write :: "Level \<Rightarrow> iovecs \<Rightarrow> sink \<Rightarrow> os \<Rightarrow> (sink \<times> os) option" where
  "sink_write lvl iov (Fd k) s = Some (Fd k, fd_write k lvl iov s)"
| "sink_write lvl iov (Buffered k) s =
     (case buf_write lvl iov (k, s) of None \<Rightarrow> None | Some (k, s) \<Rightarrow> Some (Buffered k, s))"
| "sink_write lvl iov (Rotating k) s = (let (k, s) = rot_write lvl iov (k, s) in Some (Rotating k, s))"

fun sink_flush :: "sink \<Rightarrow> os \<Rightarrow> sink \<times> os" where
  "sink_flush (Fd k) s = (Fd k, fd_flush k s)"
| "sink_flush (Buffered k) s = (let (k, s) = buf_flush (k, s) in (Buffered k, s))"
| "sink_flush (Rotating k) s = (let (k, s) = rot_flush (k, s) in (Rotating k, s))"

fun sink_destroy :: "sink \<Rightarrow> os \<Rightarrow> os" where
  "sink_destroy (Fd k) s = fd_destroy k s"
| "sink_destroy (Buffered k) s = buf_destroy (k, s)"
| "sink_destroy (Rotating k) s = rot_destroy (k, s)"

fun sinks_write :: "Level \<Rightarrow> iovecs \<Rightarrow> sink list \<Rightarrow> os \<Rightarrow> (sink list \<times> os) option" where
  "sinks_write lvl iov [] s = Some ([], s)"
| "sinks_write lvl iov (k # ks) s =
     (case sink_write lvl iov k s of
        None \<Rightarrow> None
      | Some (k, s) \<Rightarrow>
          (case sinks_write lvl iov ks s of None \<Rightarrow> None | Some (ks, s) \<Rightarrow> Some (k # ks, s)))"

fun sinks_flush :: "sink list \<Rightarrow> os \<Rightarrow> sink list \<times> os" where
  "sinks_flush [] s = ([], s)"
| "sinks_flush (k # ks) s =
     (let (k, s) = sink_flush k s; (ks, s) = sinks_flush ks s in (k # ks, s))"

section \<open>The heap of loggers\<close>

text \<open>A prologue is a function pointer: the default one or a user's.\<close>

datatype prologue_fn = Default_Prologue | User_Prologue nat

record logger =
  lg_level :: Level
  lg_sinks :: "sink list"
  lg_prologue :: prologue_fn
  lg_name :: string
  lg_ties :: "nat list"
  lg_tie_count :: u32

record world =
  heap :: "nat \<Rightarrow> logger option"
  sys :: os
  visited :: "nat set"

definition new_logger :: "string \<Rightarrow> logger" where
  "new_logger name = \<lparr>lg_level = INFO, lg_sinks = [], lg_prologue = Default_Prologue, lg_name = name,
     lg_ties = [], lg_tie_count = 0\<rparr>"

definition update_logger :: "nat \<Rightarrow> (logger \<Rightarrow> logger) \<Rightarrow> world \<Rightarrow> world option" where
  "update_logger a f w =
     (case heap w a of None \<Rightarrow> None | Some l \<Rightarrow> Some (w\<lparr>heap := (heap w)(a \<mapsto> f l)\<rparr>))"

definition enabled :: "logger \<Rightarrow> Level \<Rightarrow> bool" where
  "enabled l lvl \<longleftrightarrow> lvl \<ge> lg_level l"

definition set_level :: "nat \<Rightarrow> Level \<Rightarrow> world \<Rightarrow> world option" where
  "set_level a lvl w = update_logger a (\<lambda>l. l\<lparr>lg_level := lvl\<rparr>) w"

definition add_sink :: "nat \<Rightarrow> sink option \<Rightarrow> world \<Rightarrow> world option" where
  "add_sink a k w =
     (case k of
        None \<Rightarrow> update_logger a (\<lambda>l. l) w
      | Some k \<Rightarrow> update_logger a (\<lambda>l. l\<lparr>lg_sinks := lg_sinks l @ [k]\<rparr>) w)"

definition clear_sinks :: "nat \<Rightarrow> world \<Rightarrow> world option" where
  "clear_sinks a w =
     (case heap w a of
        None \<Rightarrow> None
      | Some l \<Rightarrow>
          Some (w\<lparr>heap := (heap w)(a \<mapsto> l\<lparr>lg_sinks := []\<rparr>), sys := fold sink_destroy (lg_sinks l) (sys w)\<rparr>))"

definition set_prologue :: "nat \<Rightarrow> prologue_fn option \<Rightarrow> world \<Rightarrow> world option" where
  "set_prologue a fn w =
     update_logger a
       (\<lambda>l. l\<lparr>lg_prologue := (case fn of None \<Rightarrow> Default_Prologue | Some f \<Rightarrow> f)\<rparr>) w"

definition tie :: "nat \<Rightarrow> nat \<Rightarrow> world \<Rightarrow> world option" where
  "tie a b w =
     (if b = a then Some w
      else update_logger a
        (\<lambda>l. if b \<in> set (lg_ties l) then l
             else l\<lparr>lg_ties := lg_ties l @ [b], lg_tie_count := of_nat (length (lg_ties l @ [b]))\<rparr>) w)"

definition untie :: "nat \<Rightarrow> nat \<Rightarrow> world \<Rightarrow> world option" where
  "untie a b w =
     update_logger a
       (\<lambda>l. if b \<in> set (lg_ties l)
            then l\<lparr>lg_ties := remove1 b (lg_ties l),
                   lg_tie_count := of_nat (length (remove1 b (lg_ties l)))\<rparr>
            else l) w"

definition tied_count :: "logger \<Rightarrow> nat" where
  "tied_count l = length (lg_ties l)"

section \<open>\<open>emit\<close> and \<open>flush\<close>\<close>

definition write_own :: "Level \<Rightarrow> iovecs \<Rightarrow> nat \<Rightarrow> world \<Rightarrow> world option" where
  "write_own lvl iov a w =
     (case heap w a of
        None \<Rightarrow> None
      | Some l \<Rightarrow>
          (case sinks_write lvl iov (lg_sinks l) (sys w) of
             None \<Rightarrow> None
           | Some (ks, s) \<Rightarrow> Some (w\<lparr>heap := (heap w)(a \<mapsto> l\<lparr>lg_sinks := ks\<rparr>), sys := s\<rparr>)))"

definition flush_own :: "nat \<Rightarrow> world \<Rightarrow> world option" where
  "flush_own a w =
     (case heap w a of
        None \<Rightarrow> None
      | Some l \<Rightarrow>
          (let (ks, s) = sinks_flush (lg_sinks l) (sys w)
           in Some (w\<lparr>heap := (heap w)(a \<mapsto> l\<lparr>lg_sinks := ks\<rparr>), sys := s\<rparr>)))"

function emit :: "nat \<Rightarrow> Level \<Rightarrow> iovecs \<Rightarrow> nat \<Rightarrow> world \<Rightarrow> world option"
and emit_ties :: "nat \<Rightarrow> Level \<Rightarrow> iovecs \<Rightarrow> nat list \<Rightarrow> world \<Rightarrow> world option" where
  "emit 0 lvl iov a w = None"
| "emit (Suc fuel) lvl iov a w =
     (case heap w a of
        None \<Rightarrow> None
      | Some l \<Rightarrow>
          if lg_tie_count l = 0 then write_own lvl iov a w
          else if a \<in> visited w then Some w
          else
            case write_own lvl iov a (w\<lparr>visited := insert a (visited w)\<rparr>) of
              None \<Rightarrow> None
            | Some w1 \<Rightarrow>
                (case heap w1 a of
                   None \<Rightarrow> None
                 | Some l1 \<Rightarrow>
                     (case emit_ties fuel lvl iov (lg_ties l1) w1 of
                        None \<Rightarrow> None
                      | Some w2 \<Rightarrow> Some (w2\<lparr>visited := visited w2 - {a}\<rparr>))))"
| "emit_ties fuel lvl iov [] w = Some w"
| "emit_ties fuel lvl iov (t # ts) w =
     (case emit fuel lvl iov t w of None \<Rightarrow> None | Some w \<Rightarrow> emit_ties fuel lvl iov ts w)"
  by pat_completeness auto
termination
  by (relation "measures [\<lambda>c. case c of Inl (f, _) \<Rightarrow> f | Inr (f, _) \<Rightarrow> f,
        \<lambda>c. case c of Inl _ \<Rightarrow> 0 | Inr (_, _, _, ts, _) \<Rightarrow> Suc (length ts)]") auto

function flush :: "nat \<Rightarrow> nat \<Rightarrow> world \<Rightarrow> world option"
and flush_ties :: "nat \<Rightarrow> nat list \<Rightarrow> world \<Rightarrow> world option" where
  "flush 0 a w = None"
| "flush (Suc fuel) a w =
     (case flush_own a w of
        None \<Rightarrow> None
      | Some w1 \<Rightarrow>
          (case heap w1 a of
             None \<Rightarrow> None
           | Some l \<Rightarrow>
               if a \<in> visited w1 then Some w1
               else
                 case flush_ties fuel (lg_ties l) (w1\<lparr>visited := insert a (visited w1)\<rparr>) of
                   None \<Rightarrow> None
                 | Some w2 \<Rightarrow> Some (w2\<lparr>visited := visited w2 - {a}\<rparr>)))"
| "flush_ties fuel [] w = Some w"
| "flush_ties fuel (t # ts) w =
     (case flush fuel t w of None \<Rightarrow> None | Some w \<Rightarrow> flush_ties fuel ts w)"
  by pat_completeness auto
termination
  by (relation "measures [\<lambda>c. case c of Inl (f, _) \<Rightarrow> f | Inr (f, _) \<Rightarrow> f,
        \<lambda>c. case c of Inl _ \<Rightarrow> 0 | Inr (_, ts, _) \<Rightarrow> Suc (length ts)]") auto

section \<open>The invariant of a logger\<close>

text \<open>
  The atomic count mirrors the list of ties (fewer than \<open>2 ^ 32\<close> of them), a logger is never tied to
  itself, and to no other one twice.
\<close>

definition logger_ok :: "nat \<Rightarrow> logger \<Rightarrow> bool" where
  "logger_ok a l \<longleftrightarrow>
     lg_tie_count l = of_nat (length (lg_ties l)) \<and> length (lg_ties l) < 2 ^ 32 \<and> distinct (lg_ties l) \<and>
     a \<notin> set (lg_ties l)"

definition world_ok :: "world \<Rightarrow> bool" where
  "world_ok w \<longleftrightarrow> (\<forall>a l. heap w a = Some l \<longrightarrow> logger_ok a l)"

definition ties_of :: "world \<Rightarrow> nat \<Rightarrow> nat list" where
  "ties_of w a = (case heap w a of None \<Rightarrow> [] | Some l \<Rightarrow> lg_ties l)"

text \<open>No tie refers to a destroyed logger.\<close>

definition closed :: "world \<Rightarrow> bool" where
  "closed w \<longleftrightarrow> finite (dom (heap w)) \<and> (\<forall>a. set (ties_of w a) \<subseteq> dom (heap w))"

lemma tie_count_zero: "logger_ok a l \<Longrightarrow> lg_tie_count l = 0 \<longleftrightarrow> lg_ties l = []"
proof -
  assume ok: "logger_ok a l"
  then have "unat (lg_tie_count l) = length (lg_ties l)"
    by (simp add: logger_ok_def unat_of_nat)
  then show ?thesis by (metis length_0_conv unat_eq_zero)
qed

lemma new_logger_ok [simp]: "logger_ok a (new_logger n)"
  by (simp add: logger_ok_def new_logger_def)

lemma update_logger_ok:
  "world_ok w \<Longrightarrow> update_logger a f w = Some w' \<Longrightarrow> (\<And>l. logger_ok a l \<Longrightarrow> logger_ok a (f l)) \<Longrightarrow> world_ok w'"
  by (auto simp: update_logger_def world_ok_def split: option.splits if_splits)

lemma remove1_ok: "distinct ts \<Longrightarrow> length ts < n \<Longrightarrow> distinct (remove1 b ts) \<and> length (remove1 b ts) < n"
  by (cases "b \<in> set ts") (auto simp: length_remove1 intro: le_less_trans [of _ "length ts"])

lemma logger_ops_ok:
  assumes "world_ok w"
  shows "set_level a lvl w = Some w' \<Longrightarrow> world_ok w'" "add_sink a k w = Some w' \<Longrightarrow> world_ok w'"
    "clear_sinks a w = Some w' \<Longrightarrow> world_ok w'" "set_prologue a fn w = Some w' \<Longrightarrow> world_ok w'"
    "untie a b w = Some w' \<Longrightarrow> world_ok w'"
    "tie a b w = Some w' \<Longrightarrow> length (ties_of w a) + 1 < 2 ^ 32 \<Longrightarrow> world_ok w'"
proof -
  show "set_level a lvl w = Some w' \<Longrightarrow> world_ok w'"
    unfolding set_level_def by (erule update_logger_ok [OF assms]) (simp add: logger_ok_def)
  show "set_prologue a fn w = Some w' \<Longrightarrow> world_ok w'"
    unfolding set_prologue_def by (erule update_logger_ok [OF assms]) (simp add: logger_ok_def)
  show "add_sink a k w = Some w' \<Longrightarrow> world_ok w'"
    unfolding add_sink_def
    by (cases k) (auto elim!: update_logger_ok [OF assms] simp: logger_ok_def)
  show "clear_sinks a w = Some w' \<Longrightarrow> world_ok w'"
    using assms by (auto simp: clear_sinks_def world_ok_def logger_ok_def split: option.splits if_splits)
  show "untie a b w = Some w' \<Longrightarrow> world_ok w'"
    unfolding untie_def
  proof (erule update_logger_ok [OF assms])
    fix l assume ok: "logger_ok a l"
    then show "logger_ok a (if b \<in> set (lg_ties l)
        then l\<lparr>lg_ties := remove1 b (lg_ties l), lg_tie_count := of_nat (length (remove1 b (lg_ties l)))\<rparr> else l)"
      using remove1_ok [of "lg_ties l" "2 ^ 32" b] notin_set_remove1 [of a "lg_ties l" b]
      by (simp add: logger_ok_def)
  qed
  assume t: "tie a b w = Some w'" and n: "length (ties_of w a) + 1 < 2 ^ 32"
  show "world_ok w'"
  proof (cases "b = a")
    case True
    then show ?thesis using t assms by (simp add: tie_def)
  next
    case False
    with t obtain l where l: "heap w a = Some l"
      "w' = w\<lparr>heap := (heap w)(a \<mapsto> (if b \<in> set (lg_ties l) then l
         else l\<lparr>lg_ties := lg_ties l @ [b], lg_tie_count := of_nat (length (lg_ties l @ [b]))\<rparr>))\<rparr>"
      by (auto simp: tie_def update_logger_def split: option.splits)
    moreover have "logger_ok a l" using assms l(1) by (simp add: world_ok_def)
    ultimately show ?thesis
      using assms n False by (auto simp: world_ok_def logger_ok_def ties_of_def)
  qed
qed

section \<open>Sinks that never write outside their buffers\<close>

fun sink_safe :: "sink \<Rightarrow> bool" where
  "sink_safe (Buffered k) \<longleftrightarrow> length (bf_buf k) = bf_cap k \<and> bf_pos k \<le> bf_cap k"
| "sink_safe _ \<longleftrightarrow> True"

definition world_safe :: "world \<Rightarrow> bool" where
  "world_safe w \<longleftrightarrow> (\<forall>a l. heap w a = Some l \<longrightarrow> list_all sink_safe (lg_sinks l))"

lemma buf_write_safe:
  assumes "sink_safe (Buffered k)"
  shows "\<exists>k' s'. buf_write lvl iov (k, s) = Some (k', s') \<and> sink_safe (Buffered k')"
proof -
  have total: "foldl (\<lambda>total x. total + length x) 0 iov = length (concat iov)"
    using iov_total_bytes_concat [of iov] by (simp only: iov_total_bytes_def)
  obtain k1 s1 where k1: "(if bf_pos k + length (concat iov) > bf_cap k then buf_flush_locked k s else (k, s)) = (k1, s1)"
    by fastforce
  have f: "sink_safe (Buffered k1)" "bf_cap k1 = bf_cap k"
    "length (concat iov) \<le> bf_cap k \<Longrightarrow> bf_pos k1 + length (concat iov) \<le> bf_cap k1"
    using k1 assms by (auto simp: buf_flush_locked_def split: if_splits)
  show ?thesis
  proof (cases "length (concat iov) > bf_cap k")
    case True
    then show ?thesis using assms by (auto simp: buf_write_def total buf_flush_locked_def)
  next
    case False
    then have fit: "bf_pos k1 + length (concat iov) \<le> length (bf_buf k1)" using f by simp
    then show ?thesis
      using False k1 f copy_iovs_fits [OF fit] by (simp add: buf_write_def total buf_flush_locked_def Let_def)
  qed
qed

lemma sinks_write_safe:
  "list_all sink_safe ks \<Longrightarrow> \<exists>ks' s'. sinks_write lvl iov ks s = Some (ks', s') \<and> list_all sink_safe ks'"
proof (induction ks arbitrary: s)
  case (Cons k ks)
  have "\<exists>k' s'. sink_write lvl iov k s = Some (k', s') \<and> sink_safe k'"
  proof (cases k)
    case (Buffered b)
    then show ?thesis using buf_write_safe [of b lvl iov s] Cons.prems by auto
  qed (auto split: prod.split)
  then obtain k' s' where k: "sink_write lvl iov k s = Some (k', s')" "sink_safe k'" by blast
  obtain ks2 s2 where "sinks_write lvl iov ks s' = Some (ks2, s2)" "list_all sink_safe ks2"
    using Cons.IH [of s'] Cons.prems by auto
  then show ?case using k by simp
qed simp

section \<open>Acting on one logger after the other\<close>

text \<open>\<open>each act as\<close> acts on the loggers \<open>as\<close> one after the other.\<close>

fun each :: "(nat \<Rightarrow> world \<Rightarrow> world option) \<Rightarrow> nat list \<Rightarrow> world \<Rightarrow> world option" where
  "each act [] w = Some w"
| "each act (a # as) w = (case act a w of None \<Rightarrow> None | Some w \<Rightarrow> each act as w)"

abbreviation deliver :: "Level \<Rightarrow> iovecs \<Rightarrow> nat list \<Rightarrow> world \<Rightarrow> world option" where
  "deliver lvl iov \<equiv> each (write_own lvl iov)"

lemma each_append:
  "each act (as @ bs) w = (case each act as w of None \<Rightarrow> None | Some w \<Rightarrow> each act bs w)"
  by (induction as arbitrary: w) (auto split: option.split)

definition same_graph :: "world \<Rightarrow> world \<Rightarrow> bool" where
  "same_graph w w' \<longleftrightarrow>
     ties_of w' = ties_of w \<and> dom (heap w') = dom (heap w) \<and> visited w' = visited w \<and>
     (world_ok w \<longrightarrow> world_ok w')"

lemma same_graph_trans: "same_graph w w' \<Longrightarrow> same_graph w' w'' \<Longrightarrow> same_graph w w''"
  by (simp add: same_graph_def)

text \<open>
  What \<open>emit\<close> and \<open>flush\<close> do at one logger: it changes neither ties nor the visited set, does not
  look at the latter, keeps the sinks safe, and cannot fail on a live logger with safe sinks.
\<close>

locale own_action =
  fixes act :: "nat \<Rightarrow> world \<Rightarrow> world option"
  assumes graph: "act a w = Some w' \<Longrightarrow> same_graph w w'"
    and unseen: "act a (w\<lparr>visited := V\<rparr>) = map_option (\<lambda>w. w\<lparr>visited := V\<rparr>) (act a w)"
    and safe: "world_safe w \<Longrightarrow> a \<in> dom (heap w) \<Longrightarrow> \<exists>w'. act a w = Some w' \<and> world_safe w'"
begin

lemma each_graph: "each act as w = Some w' \<Longrightarrow> same_graph w w'"
proof (induction as arbitrary: w)
  case Nil
  then show ?case by (simp add: same_graph_def)
next
  case (Cons a as)
  then show ?case using graph same_graph_trans by (fastforce split: option.splits)
qed

lemma each_unseen:
  "each act as (w\<lparr>visited := V\<rparr>) = map_option (\<lambda>w. w\<lparr>visited := V\<rparr>) (each act as w)"
  by (induction as arbitrary: w) (auto simp: unseen split: option.split)

lemma each_safe:
  "world_safe w \<Longrightarrow> set as \<subseteq> dom (heap w) \<Longrightarrow> \<exists>w'. each act as w = Some w' \<and> world_safe w'"
proof (induction as arbitrary: w)
  case (Cons a as)
  obtain w1 where w1: "act a w = Some w1" "world_safe w1"
    using safe [OF Cons.prems(1)] Cons.prems(2) by force
  moreover have "dom (heap w1) = dom (heap w)" using graph [OF w1(1)] by (simp add: same_graph_def)
  ultimately show ?case using Cons by simp
qed simp

end

lemma sinks_flush_safe: "list_all sink_safe ks \<Longrightarrow> list_all sink_safe (fst (sinks_flush ks s))"
proof (induction ks arbitrary: s)
  case (Cons k ks)
  have "sink_safe (fst (sink_flush k s))"
    using Cons.prems
    by (cases k) (auto simp: buf_flush_def buf_flush_locked_def split: prod.split if_splits)
  then show ?case using Cons by (auto simp: split_beta Let_def)
qed simp

interpretation write_action: own_action "write_own lvl iov" for lvl iov
proof
  fix a w w' V
  show "write_own lvl iov a w = Some w' \<Longrightarrow> same_graph w w'"
    by (auto simp: write_own_def same_graph_def ties_of_def world_ok_def logger_ok_def fun_eq_iff
        split: option.splits if_splits)
  show "write_own lvl iov a (w\<lparr>visited := V\<rparr>) = map_option (\<lambda>w. w\<lparr>visited := V\<rparr>) (write_own lvl iov a w)"
    by (auto simp: write_own_def split: option.split)
  assume w: "world_safe w" "a \<in> dom (heap w)"
  then obtain l where l: "heap w a = Some l" by auto
  then have "list_all sink_safe (lg_sinks l)" using w(1) by (simp add: world_safe_def)
  then obtain ks s where "sinks_write lvl iov (lg_sinks l) (sys w) = Some (ks, s)" "list_all sink_safe ks"
    using sinks_write_safe by blast
  then show "\<exists>w'. write_own lvl iov a w = Some w' \<and> world_safe w'"
    using l w(1) by (auto simp: write_own_def world_safe_def)
qed

interpretation flush_action: own_action flush_own
proof
  fix a w w' V
  show "flush_own a w = Some w' \<Longrightarrow> same_graph w w'"
    by (auto simp: flush_own_def same_graph_def ties_of_def world_ok_def logger_ok_def fun_eq_iff split_beta Let_def
        split: option.splits if_splits)
  show "flush_own a (w\<lparr>visited := V\<rparr>) = map_option (\<lambda>w. w\<lparr>visited := V\<rparr>) (flush_own a w)"
    by (auto simp: flush_own_def split_beta Let_def split: option.split)
  assume w: "world_safe w" "a \<in> dom (heap w)"
  then obtain l where l: "heap w a = Some l" by auto
  then have "list_all sink_safe (lg_sinks l)" using w(1) by (simp add: world_safe_def)
  then show "\<exists>w'. flush_own a w = Some w' \<and> world_safe w'"
    using l w(1) sinks_flush_safe by (auto simp: flush_own_def world_safe_def split_beta Let_def)
qed

section \<open>The route of a line\<close>

fun route :: "nat \<Rightarrow> (nat \<Rightarrow> nat list) \<Rightarrow> nat set \<Rightarrow> nat \<Rightarrow> nat list" where
  "route 0 T V a = []"
| "route (Suc f) T V a =
     (if T a = [] then [a]
      else if a \<in> V then []
      else a # concat (map (route f T (insert a V)) (T a)))"

lemma emit_delivers:
  shows "world_ok w \<Longrightarrow> closed w \<Longrightarrow> a \<in> dom (heap w) \<Longrightarrow> card (dom (heap w) - visited w) < fuel \<Longrightarrow>
      emit fuel lvl iov a w = deliver lvl iov (route fuel (ties_of w) (visited w) a) w"
    and "world_ok w \<Longrightarrow> closed w \<Longrightarrow> set ts \<subseteq> dom (heap w) \<Longrightarrow>
      card (dom (heap w) - visited w) < fuel \<Longrightarrow>
      emit_ties fuel lvl iov ts w =
        deliver lvl iov (concat (map (route fuel (ties_of w) (visited w)) ts)) w"
proof (induction fuel lvl iov a w and fuel lvl iov ts w rule: emit_emit_ties.induct)
  case (1 lvl iov a w)
  then show ?case by simp
next
  case (2 fuel lvl iov a w)
  obtain l where l: "heap w a = Some l" using 2(4) by auto
  have ok: "logger_ok a l" using 2(2) l by (simp add: world_ok_def)
  have ties: "ties_of w a = lg_ties l" by (simp add: ties_of_def l)
  show ?case
  proof (cases "lg_ties l = []")
    case True
    then show ?thesis
      using l ok ties by (simp add: tie_count_zero split: option.split)
  next
    case False
    then have cnt: "lg_tie_count l \<noteq> 0" using tie_count_zero [OF ok] by simp
    show ?thesis
    proof (cases "a \<in> visited w")
      case True
      then show ?thesis using l cnt False ties by simp
    next
      case notin: False
      let ?V = "insert a (visited w)" and ?w = "w\<lparr>visited := insert a (visited w)\<rparr>"
      show ?thesis
      proof (cases "write_own lvl iov a w")
        case None
        then show ?thesis using l cnt False notin ties by (simp add: write_action.unseen)
      next
        case (Some w0)
        let ?w1 = "w0\<lparr>visited := ?V\<rparr>"
        have w1: "write_own lvl iov a ?w = Some ?w1" by (simp add: write_action.unseen Some)
        note g = write_action.graph [OF Some]
        obtain l1 where l1: "heap ?w1 a = Some l1" using g l by (auto simp: same_graph_def)
        have t1: "lg_ties l1 = ties_of w a"
        proof -
          have "ties_of w0 a = ties_of w a" using g by (simp add: same_graph_def)
          moreover have "ties_of w0 a = lg_ties l1" using l1 by (simp add: ties_of_def)
          ultimately show ?thesis by simp
        qed
        have w1ok: "world_ok ?w1" "closed ?w1" "ties_of ?w1 = ties_of w" "dom (heap ?w1) = dom (heap w)"
          using g 2(2,3) by (auto simp: same_graph_def world_ok_def closed_def ties_of_def fun_eq_iff)
        have "card (dom (heap w) - ?V) < card (dom (heap w) - visited w)"
          using 2(3,4) notin by (intro psubset_card_mono) (auto simp: closed_def)
        then have fuel: "card (dom (heap ?w1) - visited ?w1) < fuel" using 2(5) w1ok(4) by simp
        have sub: "set (lg_ties l1) \<subseteq> dom (heap ?w1)"
          using 2(3) w1ok(4) t1 unfolding closed_def by metis
        have "emit_ties fuel lvl iov (lg_ties l1) ?w1 =
            deliver lvl iov (concat (map (route fuel (ties_of ?w1) (visited ?w1)) (lg_ties l1))) ?w1"
          by (rule 2(1) [OF l cnt notin w1 l1 w1ok(1,2) sub fuel])
        also have "\<dots> = map_option (\<lambda>w. w\<lparr>visited := ?V\<rparr>)
            (deliver lvl iov (concat (map (route fuel (ties_of w) ?V) (ties_of w a))) w0)"
          by (simp only: write_action.each_unseen w1ok(3) t1) simp
        finally have et: "emit_ties fuel lvl iov (lg_ties l1) ?w1 = \<dots>" .
        have r: "route (Suc fuel) (ties_of w) (visited w) a =
            a # concat (map (route fuel (ties_of w) ?V) (ties_of w a))"
          using False notin ties by simp
        have vis: "visited w0 = visited w" using g by (simp add: same_graph_def)
        show ?thesis
        proof (cases "deliver lvl iov (concat (map (route fuel (ties_of w) ?V) (ties_of w a))) w0")
          case None
          then show ?thesis using l cnt notin w1 l1 et r Some by simp
        next
          case (Some w2)
          have "visited w2 = visited w" using write_action.each_graph [OF Some] vis by (simp add: same_graph_def)
          then have "w2\<lparr>visited := ?V - {a}\<rparr> = w2" using notin by simp
          then show ?thesis
            using l cnt notin w1 l1 et r Some \<open>write_own lvl iov a w = Some w0\<close> by simp
        qed
      qed
    qed
  qed
next
  case (3 fuel lvl iov w)
  then show ?case by simp
next
  case (4 fuel lvl iov t ts w)
  have e: "emit fuel lvl iov t w = deliver lvl iov (route fuel (ties_of w) (visited w) t) w"
    using 4(1) 4(3-6) by simp
  show ?case
  proof (cases "emit fuel lvl iov t w")
    case None
    then show ?thesis using e by (simp add: each_append)
  next
    case (Some w1)
    have g: "same_graph w w1" using Some e write_action.each_graph by simp
    then have c: "world_ok w1" "closed w1" "set ts \<subseteq> dom (heap w1)"
      "card (dom (heap w1) - visited w1) < fuel" "ties_of w1 = ties_of w" "visited w1 = visited w"
      using 4(3-6) by (auto simp: same_graph_def closed_def)
    show ?thesis using 4(2) [OF Some c(1-4)] Some e c(5,6) by (simp add: each_append)
  qed
qed

section \<open>The route follows the simple chains of ties\<close>

definition tied :: "(nat \<Rightarrow> nat list) \<Rightarrow> nat \<Rightarrow> nat \<Rightarrow> bool" where
  "tied T x y \<longleftrightarrow> y \<in> set (T x)"

definition chains :: "(nat \<Rightarrow> nat list) \<Rightarrow> nat set \<Rightarrow> nat \<Rightarrow> nat \<Rightarrow> nat list set" where
  "chains T V a b = {xs. rtrancl_path (tied T) a xs b \<and> distinct (a # xs) \<and> set (a # xs) \<inter> V = {}}"

lemma rtrancl_path_range: "rtrancl_path r x xs y \<Longrightarrow> (\<And>x y. r x y \<Longrightarrow> y \<in> D) \<Longrightarrow> set xs \<subseteq> D"
  by (induction rule: rtrancl_path.induct) auto

lemma finite_chains:
  assumes "finite D" "\<And>x. set (T x) \<subseteq> D"
  shows "finite (chains T V a b)"
proof (rule finite_subset)
  show "chains T V a b \<subseteq> {xs. set xs \<subseteq> D \<and> length xs \<le> card D}"
  proof
    fix xs assume xs: "xs \<in> chains T V a b"
    then have "rtrancl_path (tied T) a xs b" by (simp add: chains_def)
    then have "set xs \<subseteq> D"
      by (rule rtrancl_path_range) (use assms(2) in \<open>auto simp: tied_def\<close>)
    moreover have "length xs \<le> card D"
      using xs calculation assms(1) card_mono [of D "set xs"] by (simp add: chains_def distinct_card)
    ultimately show "xs \<in> {xs. set xs \<subseteq> D \<and> length xs \<le> card D}" by simp
  qed
  show "finite {xs. set xs \<subseteq> D \<and> length xs \<le> card D}" by (rule finite_lists_length_le) (rule assms(1))
qed

lemma chains_unfold:
  assumes "a \<notin> V"
  shows "chains T V a b =
    (if a = b then {[]} else {}) \<union> (\<Union>t \<in> set (T a). (#) t ` chains T (insert a V) t b)"
proof (rule set_eqI)
  fix xs
  have nil: "rtrancl_path (tied T) a [] b \<longleftrightarrow> a = b"
    and step: "rtrancl_path (tied T) a (t # ys) b \<longleftrightarrow> t \<in> set (T a) \<and> rtrancl_path (tied T) t ys b" for t ys
    by (auto simp: tied_def elim: rtrancl_path.cases intro: rtrancl_path.intros)
  show "xs \<in> chains T V a b \<longleftrightarrow>
      xs \<in> (if a = b then {[]} else {}) \<union> (\<Union>t \<in> set (T a). (#) t ` chains T (insert a V) t b)"
  proof (cases xs)
    case Nil
    then show ?thesis using assms nil by (auto simp: chains_def)
  next
    case (Cons t ys)
    then show ?thesis using assms step by (auto simp: chains_def)
  qed
qed

lemma chains_blocked: "a \<in> V \<Longrightarrow> chains T V a b = {}"
  by (auto simp: chains_def)

lemma count_concat: "count_list (concat xss) b = sum_list (map (\<lambda>xs. count_list xs b) xss)"
  by (induction xss) simp_all

lemma count_route:
  assumes D: "finite D" "\<And>x. set (T x) \<subseteq> D" and dist: "\<And>x. distinct (T x)"
  shows "a \<in> D \<Longrightarrow> card (D - V) < f \<Longrightarrow> \<forall>x \<in> V. T x \<noteq> [] \<Longrightarrow>
    count_list (route f T V a) b = card (chains T V a b)"
proof (induction f arbitrary: V a)
  case (Suc f)
  show ?case
  proof (cases "a \<in> V")
    case True
    then show ?thesis using Suc.prems(3) by (simp add: chains_blocked)
  next
    case False
    let ?V = "insert a V"
    have rec: "count_list (route f T ?V t) b = card (chains T ?V t b)" if "t \<in> set (T a)" for t
    proof (rule Suc.IH)
      show "t \<in> D" using that D(2) by blast
      have "card (D - ?V) < card (D - V)"
        using False Suc.prems(1) D(1) by (intro psubset_card_mono) auto
      then show "card (D - ?V) < f" using Suc.prems(2) by simp
      show "\<forall>x \<in> ?V. T x \<noteq> []" using Suc.prems(3) that by (metis empty_iff empty_set insertE)
    qed
    have fin: "finite (\<Union>t \<in> set (T a). (#) t ` chains T ?V t b)"
      using finite_chains [of D T, OF D] by simp
    have "card (\<Union>t \<in> set (T a). (#) t ` chains T ?V t b) = (\<Sum>t \<in> set (T a). card ((#) t ` chains T ?V t b))"
      using finite_chains [of D T, OF D] by (intro card_UN_disjoint) auto
    also have "\<dots> = (\<Sum>t \<in> set (T a). card (chains T ?V t b))" by (simp add: card_image)
    also have "\<dots> = sum_list (map (\<lambda>t. card (chains T ?V t b)) (T a))"
      using dist by (simp add: sum_list_distinct_conv_sum_set)
    also have "\<dots> = sum_list (map (\<lambda>t. count_list (route f T ?V t) b) (T a))"
      using rec by (auto intro!: arg_cong [where f = sum_list])
    finally have U: "card (\<Union>t \<in> set (T a). (#) t ` chains T ?V t b) =
        count_list (concat (map (route f T ?V) (T a))) b"
      by (simp add: count_concat o_def)
    have "card (chains T V a b) =
        (if a = b then 1 else 0) + card (\<Union>t \<in> set (T a). (#) t ` chains T ?V t b)"
      unfolding chains_unfold [OF False] using fin by (subst card_Un_disjoint) auto
    also have "\<dots> = count_list (route (Suc f) T V a) b"
      unfolding U using False by simp
    finally show ?thesis by (rule sym)
  qed
qed simp

lemma route_dom:
  assumes D: "\<And>x. set (T x) \<subseteq> D"
  shows "a \<in> D \<Longrightarrow> set (route f T V a) \<subseteq> D"
proof (induction f arbitrary: V a)
  case (Suc f)
  have "set (route f T (insert a V) t) \<subseteq> D" if "t \<in> set (T a)" for t
    using Suc.IH that D by blast
  then show ?case using Suc.prems by auto
qed simp

lemma chains_nonempty: "chains T {} a b \<noteq> {} \<longleftrightarrow> (tied T)\<^sup>*\<^sup>* a b"
proof
  assume "(tied T)\<^sup>*\<^sup>* a b"
  then obtain xs where "rtrancl_path (tied T) a xs b" by (metis rtranclp_eq_rtrancl_path)
  then obtain ys where "rtrancl_path (tied T) a ys b" "distinct (a # ys)" by (rule rtrancl_path_distinct)
  then show "chains T {} a b \<noteq> {}" by (auto simp: chains_def)
qed (auto simp: chains_def rtranclp_eq_rtrancl_path)

section \<open>The route of a flush\<close>

text \<open>\<open>flush\<close> acts on a logger before it looks at the visited set.\<close>

fun flush_route :: "nat \<Rightarrow> (nat \<Rightarrow> nat list) \<Rightarrow> nat set \<Rightarrow> nat \<Rightarrow> nat list" where
  "flush_route 0 T V a = []"
| "flush_route (Suc f) T V a =
     a # (if a \<in> V then [] else concat (map (flush_route f T (insert a V)) (T a)))"

lemma flush_follows:
  shows "closed w \<Longrightarrow> a \<in> dom (heap w) \<Longrightarrow> card (dom (heap w) - visited w) < fuel \<Longrightarrow>
      flush fuel a w = each flush_own (flush_route fuel (ties_of w) (visited w) a) w"
    and "closed w \<Longrightarrow> set ts \<subseteq> dom (heap w) \<Longrightarrow> card (dom (heap w) - visited w) < fuel \<Longrightarrow>
      flush_ties fuel ts w = each flush_own (concat (map (flush_route fuel (ties_of w) (visited w)) ts)) w"
proof (induction fuel a w and fuel ts w rule: flush_flush_ties.induct)
  case (2 fuel a w)
  show ?case
  proof (cases "flush_own a w")
    case None
    then show ?thesis by simp
  next
    case (Some w0)
    note g = flush_action.graph [OF Some]
    obtain l where l: "heap w0 a = Some l" using g 2(3) by (auto simp: same_graph_def)
    have "ties_of w0 a = ties_of w a" using g by (simp add: same_graph_def)
    then have tl: "lg_ties l = ties_of w a" using l by (simp add: ties_of_def)
    show ?thesis
    proof (cases "a \<in> visited w")
      case True
      then show ?thesis using Some l g by (simp add: same_graph_def)
    next
      case notin: False
      let ?V = "insert a (visited w)"
      let ?w1 = "w0\<lparr>visited := insert a (visited w0)\<rparr>"
      have vis: "visited w0 = visited w" using g by (simp add: same_graph_def)
      have w1: "closed ?w1" "ties_of ?w1 = ties_of w" "dom (heap ?w1) = dom (heap w)"
        using g 2(2) by (auto simp: same_graph_def closed_def ties_of_def fun_eq_iff)
      have "card (dom (heap w) - ?V) < card (dom (heap w) - visited w)"
        using 2(2,3) notin by (intro psubset_card_mono) (auto simp: closed_def)
      then have fuel: "card (dom (heap ?w1) - visited ?w1) < fuel" using 2(4) w1(3) vis by simp
      have sub: "set (lg_ties l) \<subseteq> dom (heap ?w1)"
        using 2(2) w1(3) tl unfolding closed_def by metis
      have nv: "a \<notin> visited w0" using notin vis by simp
      have "flush_ties fuel (lg_ties l) ?w1 =
          each flush_own (concat (map (flush_route fuel (ties_of ?w1) (visited ?w1)) (lg_ties l))) ?w1"
        by (rule 2(1) [OF Some l nv w1(1) sub fuel])
      also have "\<dots> = map_option (\<lambda>w. w\<lparr>visited := ?V\<rparr>)
          (each flush_own (concat (map (flush_route fuel (ties_of w) ?V) (ties_of w a))) w0)"
        by (simp only: flush_action.each_unseen w1(2) tl) (simp add: vis flush_action.each_unseen)
      finally have ft: "flush_ties fuel (lg_ties l) ?w1 = \<dots>" .
      show ?thesis
      proof (cases "each flush_own (concat (map (flush_route fuel (ties_of w) ?V) (ties_of w a))) w0")
        case None
        then show ?thesis using Some l nv notin ft by simp
      next
        case (Some w2)
        have "visited w2 = visited w"
          using flush_action.each_graph [OF Some] vis by (simp add: same_graph_def)
        then have "w2\<lparr>visited := ?V - {a}\<rparr> = w2" using notin by simp
        then show ?thesis using Some l nv notin ft \<open>flush_own a w = Some w0\<close> by simp
      qed
    qed
  qed
next
  case (4 fuel t ts w)
  have e: "flush fuel t w = each flush_own (flush_route fuel (ties_of w) (visited w) t) w"
    using 4(1) 4(3-5) by simp
  show ?case
  proof (cases "flush fuel t w")
    case None
    then show ?thesis using e by (simp add: each_append)
  next
    case (Some w1)
    have g: "same_graph w w1" using Some e flush_action.each_graph by simp
    then have c: "closed w1" "set ts \<subseteq> dom (heap w1)"
      "card (dom (heap w1) - visited w1) < fuel" "ties_of w1 = ties_of w" "visited w1 = visited w"
      using 4(3-5) by (auto simp: same_graph_def closed_def)
    show ?thesis using 4(2) [OF Some c(1-3)] Some e c(4,5) by (simp add: each_append)
  qed
qed simp_all

lemma flush_route_sub:
  "b \<in> set (flush_route f T V a) \<Longrightarrow> (tied T)\<^sup>*\<^sup>* a b"
proof (induction f arbitrary: V a)
  case (Suc f)
  show ?case
  proof (cases "b = a")
    case False
    then obtain t where t: "t \<in> set (T a)" "b \<in> set (flush_route f T (insert a V) t)"
      using Suc.prems by (auto split: if_splits)
    then have "tied T a t" by (simp add: tied_def)
    then show ?thesis using Suc.IH [OF t(2)] by (rule converse_rtranclp_into_rtranclp)
  qed simp
qed simp

lemma flush_route_sup:
  assumes D: "finite D" "\<And>x. set (T x) \<subseteq> D"
  shows "a \<in> D \<Longrightarrow> card (D - V) < f \<Longrightarrow> chains T V a b \<noteq> {} \<Longrightarrow> b \<in> set (flush_route f T V a)"
proof (induction f arbitrary: V a)
  case (Suc f)
  have notin: "a \<notin> V" using Suc.prems(3) chains_blocked by auto
  show ?case
  proof (cases "b = a")
    case False
    then obtain t where t: "t \<in> set (T a)" "chains T (insert a V) t b \<noteq> {}"
      using Suc.prems(3) chains_unfold [OF notin, of T b] by auto
    have "card (D - insert a V) < card (D - V)"
      using notin Suc.prems(1) D(1) by (intro psubset_card_mono) auto
    then have "b \<in> set (flush_route f T (insert a V) t)"
      using Suc.IH [of t "insert a V"] t D(2) Suc.prems(2) by force
    then show ?thesis using notin t(1) by auto
  qed simp
qed simp

lemma flush_route_set:
  assumes "finite D" "\<And>x. set (T x) \<subseteq> D" "a \<in> D" "card D < f"
  shows "set (flush_route f T {} a) = {b. (tied T)\<^sup>*\<^sup>* a b}"
  using flush_route_sub [of _ f T "{}" a] flush_route_sup [OF assms(1,2,3), of "{}" f] assms(4)
    chains_nonempty [of T a] by auto

fun drained :: "sink \<Rightarrow> bool" where
  "drained (Buffered k) \<longleftrightarrow> bf_pos k = 0"
| "drained _ \<longleftrightarrow> True"

definition drained_at :: "world \<Rightarrow> nat \<Rightarrow> bool" where
  "drained_at w a \<longleftrightarrow> (\<forall>l. heap w a = Some l \<longrightarrow> list_all drained (lg_sinks l))"

lemma sinks_flush_drained: "list_all drained (fst (sinks_flush ks s))"
proof (induction ks arbitrary: s)
  case (Cons k ks)
  have "drained (fst (sink_flush k s))"
    by (cases k) (auto simp: buf_flush_def buf_flush_locked_def split: prod.split if_splits)
  then show ?case using Cons by (auto simp: split_beta Let_def)
qed simp

lemma flush_own_drains:
  "flush_own a w = Some w' \<Longrightarrow> drained_at w' a \<and> (\<forall>b. drained_at w b \<longrightarrow> drained_at w' b)"
  using sinks_flush_drained
  by (auto simp: flush_own_def drained_at_def split_beta Let_def split: option.splits if_splits)

lemma each_flush_drains:
  "each flush_own as w = Some w' \<Longrightarrow> (\<forall>b. b \<in> set as \<or> drained_at w b \<longrightarrow> drained_at w' b)"
proof (induction as arbitrary: w)
  case (Cons a as)
  then obtain w1 where w1: "flush_own a w = Some w1" "each flush_own as w1 = Some w'"
    by (auto split: option.splits)
  then show ?case using Cons.IH [OF w1(2)] flush_own_drains [OF w1(1)] by auto
qed simp

text \<open>With one unit of fuel for each logger, a line reaches the loggers of the chains of ties and no other.\<close>

lemma emit_reaches:
  assumes "world_ok w" "closed w" "world_safe w" "visited w = {}" "a \<in> dom (heap w)"
    "card (dom (heap w)) < fuel"
  shows "\<exists>as w'. emit fuel lvl iov a w = Some w' \<and> deliver lvl iov as w = Some w' \<and> visited w' = {} \<and>
    (\<forall>b. count_list as b = card (chains (ties_of w) {} a b)) \<and>
    set as = {b. (tied (ties_of w))\<^sup>*\<^sup>* a b}"
proof -
  let ?T = "ties_of w" and ?D = "dom (heap w)"
  let ?as = "route fuel ?T {} a"
  have D: "finite ?D" "\<And>x. set (?T x) \<subseteq> ?D" using assms(2) by (auto simp: closed_def)
  have dist: "distinct (?T x)" for x
    using assms(1) by (auto simp: ties_of_def world_ok_def logger_ok_def split: option.split)
  have e: "emit fuel lvl iov a w = deliver lvl iov ?as w"
    using emit_delivers(1) [OF assms(1,2,5)] assms(4,6) by simp
  obtain w' where w': "deliver lvl iov ?as w = Some w'"
    using write_action.each_safe [OF assms(3) route_dom [of ?T ?D, OF D(2) assms(5)]] by blast
  have c: "count_list ?as b = card (chains ?T {} a b)" for b
    using count_route [OF D dist assms(5)] assms(6) by simp
  have "b \<in> set ?as \<longleftrightarrow> (tied ?T)\<^sup>*\<^sup>* a b" for b
    using c [of b] chains_nonempty [of ?T a b] finite_chains [of ?D ?T, OF D]
    by (metis card_eq_0_iff count_list_0_iff)
  moreover have "visited w' = {}"
    using write_action.each_graph [OF w'] assms(4) by (simp add: same_graph_def)
  ultimately show ?thesis using e w' c by (intro exI [of _ ?as] exI [of _ w']) auto
qed

section \<open>Properties\<close>

text \<open>
  C10: A line given to a logger whose ties lead to live loggers is delivered, and the call returns: with
  one level of recursion per logger, \<open>emit\<close> writes the line to the own sinks of the loggers of one
  list, one after the other, in which every logger \<open>b\<close> occurs once for each simple chain of ties from
  the first logger to \<open>b\<close>. So exactly the loggers reachable through ties get the line, their levels
  do not matter, and the visited set is empty again at the end.
\<close>

theorem emit_fans_out:
  assumes "world_ok w" "closed w" "world_safe w" "visited w = {}" "a \<in> dom (heap w)"
    "card (dom (heap w)) < fuel"
  shows "\<exists>as w'. emit fuel lvl iov a w = Some w' \<and> deliver lvl iov as w = Some w' \<and> visited w' = {} \<and>
    (\<forall>b. count_list as b = card (chains (ties_of w) {} a b)) \<and>
    set as = {b. (tied (ties_of w))\<^sup>*\<^sup>* a b}"
  using emit_reaches [OF assms] .

text \<open>Loggers 1 to 4, every one with a sink of its own; logger 1 is tied to 2 and 3, both to 4.\<close>

definition test_logger :: "int \<Rightarrow> nat list \<Rightarrow> logger" where
  "test_logger fd ts = (new_logger [])\<lparr>lg_sinks := [Fd \<lparr>fs_fd = fd, fs_owns = True, fs_colored = False\<rparr>],
     lg_ties := ts, lg_tie_count := of_nat (length ts)\<rparr>"

definition diamond :: world where
  "diamond = \<lparr>heap = [1 \<mapsto> test_logger 3 [2, 3], 2 \<mapsto> test_logger 3 [4], 3 \<mapsto> test_logger 3 [4],
     4 \<mapsto> test_logger 3 []], sys = disk0, visited = {}\<rparr>"

lemma diamond_facts:
  "world_ok diamond" "closed diamond" "world_safe diamond" "visited diamond = {}"
  "dom (heap diamond) = {1, 2, 3, 4}"
  "ties_of diamond = (\<lambda>a. if a = 1 then [2, 3] else if a = 2 \<or> a = 3 then [4] else [])"
  by (auto simp: diamond_def world_ok_def logger_ok_def test_logger_def new_logger_def closed_def
      world_safe_def ties_of_def fun_eq_iff)

theorem emit_fans_out_witness:
  "\<exists>as w'. emit 5 INFO [''x''] 1 diamond = Some w' \<and> deliver INFO [''x''] as diamond = Some w' \<and>
     set as = {b. (tied (ties_of diamond))\<^sup>*\<^sup>* 1 b}"
  using emit_fans_out [OF diamond_facts(1-4), of 1 5 INFO "[''x'']"] diamond_facts(5) by auto

text \<open>
  Two loggers tied to one another do not loop: a line given to either is written once to the sinks
  of the one and once to the sinks of the other, in this order.
\<close>

theorem mutual_ties_deliver_once:
  assumes "world_ok w" "closed w" "visited w = {}" "ties_of w a = [b]" "ties_of w b = [a]" "a \<noteq> b"
    "card (dom (heap w)) < fuel"
  shows "emit fuel lvl iov a w =
    (case write_own lvl iov a w of None \<Rightarrow> None | Some w \<Rightarrow> write_own lvl iov b w)"
proof -
  have dom: "a \<in> dom (heap w)" "b \<in> dom (heap w)"
    using assms(4,5) by (auto simp: ties_of_def split: option.splits)
  have "card {a, b} \<le> card (dom (heap w))" using dom assms(2) by (intro card_mono) (auto simp: closed_def)
  then have "3 \<le> fuel" using assms(6,7) by simp
  then obtain f where f: "fuel = Suc (Suc (Suc f))" by (auto simp: eval_nat_numeral Suc_le_eq dest!: less_imp_Suc_add)
  have "route fuel (ties_of w) {} a = [a, b]"
    unfolding f using assms(4-6) by simp
  then show ?thesis
    using emit_delivers(1) [OF assms(1,2) dom(1), of fuel lvl iov] assms(3,7) by (simp split: option.split)
qed

definition mutual :: world where
  "mutual = \<lparr>heap = [1 \<mapsto> test_logger 3 [2], 2 \<mapsto> test_logger 3 [1]], sys = disk0, visited = {}\<rparr>"

theorem mutual_ties_deliver_once_witness:
  "emit 3 INFO [''x''] 1 mutual =
    (case write_own INFO [''x''] 1 mutual of None \<Rightarrow> None | Some w \<Rightarrow> write_own INFO [''x''] 2 w)"
proof -
  have "world_ok mutual" "closed mutual" "visited mutual = {}" "ties_of mutual 1 = [2]" "ties_of mutual 2 = [1]"
    "dom (heap mutual) = {1, 2}"
    by (auto simp: mutual_def world_ok_def logger_ok_def test_logger_def new_logger_def closed_def ties_of_def)
  then show ?thesis using mutual_ties_deliver_once [of mutual 1 2 3] by simp
qed

text \<open>
  C32: \<open>flush\<close> returns, flushes the sinks of exactly the loggers reachable through ties, and afterwards
  none of their buffered sinks holds a byte; the visited set is empty again. (In a cycle the sinks of
  a logger are flushed more than once: \<open>flush\<close> acts before it looks at the visited set.)
\<close>

theorem flush_drains_reachable:
  assumes "closed w" "world_safe w" "visited w = {}" "a \<in> dom (heap w)" "card (dom (heap w)) < fuel"
  shows "\<exists>as w'. flush fuel a w = Some w' \<and> each flush_own as w = Some w' \<and> visited w' = {} \<and>
    set as = {b. (tied (ties_of w))\<^sup>*\<^sup>* a b} \<and> (\<forall>b \<in> set as. drained_at w' b)"
proof -
  let ?as = "flush_route fuel (ties_of w) {} a" and ?D = "dom (heap w)"
  have D: "finite ?D" "\<And>x. set (ties_of w x) \<subseteq> ?D" using assms(1) by (auto simp: closed_def)
  have set: "set ?as = {b. (tied (ties_of w))\<^sup>*\<^sup>* a b}" by (rule flush_route_set [OF D assms(4,5)])
  have "b \<in> ?D" if "(tied (ties_of w))\<^sup>*\<^sup>* a b" for b
    using that assms(4) D(2) by (induction rule: rtranclp_induct) (auto simp: tied_def)
  then have "set ?as \<subseteq> ?D" using set by auto
  then obtain w' where w': "each flush_own ?as w = Some w'"
    using flush_action.each_safe [OF assms(2)] by blast
  moreover have "flush fuel a w = each flush_own ?as w"
    using flush_follows(1) [OF assms(1,4)] assms(3,5) by simp
  moreover have "visited w' = {}"
    using flush_action.each_graph [OF w'] assms(3) by (simp add: same_graph_def)
  ultimately show ?thesis using set each_flush_drains [OF w'] by (intro exI [of _ ?as] exI [of _ w']) auto
qed

theorem flush_drains_reachable_witness:
  "\<exists>as w'. flush 5 1 diamond = Some w' \<and> set as = {b. (tied (ties_of diamond))\<^sup>*\<^sup>* 1 b} \<and>
    (\<forall>b \<in> set as. drained_at w' b)"
  using flush_drains_reachable [OF diamond_facts(2-4), of 1 5] diamond_facts(5) by auto

end
