(* ===== verification/Elog_Registry.thy ===== *)
theory Elog_Registry
  imports Elog_Logger
begin

text \<open>
  The process-wide registry of loggers and the default logger, \<open>src/registry.cpp\<close>,
  \<open>src/default_logger.cpp\<close> and \<open>default_logger()\<close> of \<open>include/elog/logger.hpp\<close>. \<open>reg_owned\<close> and
  \<open>reg_all\<close> are the two hash maps, \<open>default_instance\<close> the function-local static. \<open>new\<close> takes the next
  unused address; destroying the \<open>unique_ptr\<close> of a removed logger destroys its sinks and frees its
  cell. The steps of a program that uses loggers are the inductive relation \<open>step\<close>.
\<close>

record process =
  reg_owned :: "string \<Rightarrow> nat option"
  reg_all :: "string \<Rightarrow> nat option"
  wld :: world
  next_addr :: nat
  default_instance :: "nat option"

definition initial :: "os \<Rightarrow> process" where
  "initial s = \<lparr>reg_owned = Map.empty, reg_all = Map.empty,
     wld = \<lparr>heap = Map.empty, sys = s, visited = {}\<rparr>, next_addr = 0, default_instance = None\<rparr>"

definition put_logger :: "nat \<Rightarrow> logger \<Rightarrow> process \<Rightarrow> process" where
  "put_logger a l p = p\<lparr>wld := (wld p)\<lparr>heap := (heap (wld p))(a \<mapsto> l)\<rparr>\<rparr>"

definition delete_logger :: "nat \<Rightarrow> process \<Rightarrow> process" where
  "delete_logger a p =
     (case heap (wld p) a of
        None \<Rightarrow> p
      | Some l \<Rightarrow> p\<lparr>wld := (wld p)\<lparr>heap := (heap (wld p))(a := None),
                                  sys := fold sink_destroy (lg_sinks l) (sys (wld p))\<rparr>\<rparr>)"

definition register_logger :: "string \<Rightarrow> nat \<Rightarrow> process \<Rightarrow> process" where
  "register_logger name a p = p\<lparr>reg_all := (reg_all p)(name \<mapsto> a)\<rparr>"

definition get_logger :: "string \<Rightarrow> process \<Rightarrow> nat \<times> process" where
  "get_logger name p =
     (case reg_all p name of
        Some a \<Rightarrow> (a, p)
      | None \<Rightarrow>
          let a = next_addr p;
              p = put_logger a (new_logger name) (p\<lparr>next_addr := Suc a\<rparr>);
              p = (if reg_owned p name = None then p\<lparr>reg_owned := (reg_owned p)(name \<mapsto> a)\<rparr>
                   else delete_logger a p)
          in (a, p\<lparr>reg_all := (reg_all p)(name \<mapsto> a)\<rparr>))"

definition find_logger :: "string \<Rightarrow> process \<Rightarrow> nat option" where
  "find_logger name p = reg_all p name"

definition remove_logger :: "string \<Rightarrow> process \<Rightarrow> bool \<times> process" where
  "remove_logger name p =
     (let erased_owned = (reg_owned p name \<noteq> None);
          p = (case reg_owned p name of
                 None \<Rightarrow> p
               | Some a \<Rightarrow> (delete_logger a p)\<lparr>reg_owned := (reg_owned p)(name := None)\<rparr>);
          erased_alias = (reg_all p name \<noteq> None);
          p = p\<lparr>reg_all := (reg_all p)(name := None)\<rparr>
      in (erased_owned \<or> erased_alias, p))"

text \<open>The order of the names is the hash map's; the model has the set.\<close>

definition logger_names :: "process \<Rightarrow> string set" where
  "logger_names p = dom (reg_all p)"

definition default_logger_init :: "process \<Rightarrow> nat \<times> process" where
  "default_logger_init p =
     (let a = next_addr p;
          l = (new_logger ''default'')\<lparr>lg_level := INFO\<rparr>;
          l = l\<lparr>lg_sinks := lg_sinks l @ [Fd (make_stderr_sink True)]\<rparr>
      in (a, register_logger ''default'' a (put_logger a l (p\<lparr>next_addr := Suc a\<rparr>))))"

definition default_logger :: "process \<Rightarrow> nat \<times> process" where
  "default_logger p =
     (case default_instance p of
        Some a \<Rightarrow> (a, p)
      | None \<Rightarrow> let (a, p) = default_logger_init p in (a, p\<lparr>default_instance := Some a\<rparr>))"

section \<open>The steps of a program\<close>

text \<open>
  The calls a program makes on the registry and on loggers the registry knows. The last premise of a
  tie is the capacity of the count.
\<close>

inductive step :: "process \<Rightarrow> process \<Rightarrow> bool" where
  Get: "get_logger name p = (a, p') \<Longrightarrow> step p p'"
| Default: "default_logger p = (a, p') \<Longrightarrow> step p p'"
| Remove: "remove_logger name p = (r, p') \<Longrightarrow> step p p'"
| Set_Level: "find_logger name p = Some a \<Longrightarrow> set_level a lvl (wld p) = Some w \<Longrightarrow> step p (p\<lparr>wld := w\<rparr>)"
| Add_Sink: "find_logger name p = Some a \<Longrightarrow> add_sink a k (wld p) = Some w \<Longrightarrow> step p (p\<lparr>wld := w\<rparr>)"
| Clear_Sinks: "find_logger name p = Some a \<Longrightarrow> clear_sinks a (wld p) = Some w \<Longrightarrow> step p (p\<lparr>wld := w\<rparr>)"
| Set_Prologue: "find_logger name p = Some a \<Longrightarrow> set_prologue a fn (wld p) = Some w \<Longrightarrow> step p (p\<lparr>wld := w\<rparr>)"
| Tie: "find_logger name p = Some a \<Longrightarrow> find_logger other p = Some b \<Longrightarrow> tie a b (wld p) = Some w \<Longrightarrow>
    length (ties_of (wld p) a) + 1 < 2 ^ 32 \<Longrightarrow> step p (p\<lparr>wld := w\<rparr>)"
| Untie: "find_logger name p = Some a \<Longrightarrow> find_logger other p = Some b \<Longrightarrow> untie a b (wld p) = Some w \<Longrightarrow>
    step p (p\<lparr>wld := w\<rparr>)"
| Emit: "find_logger name p = Some a \<Longrightarrow> emit fuel lvl iov a (wld p) = Some w \<Longrightarrow> step p (p\<lparr>wld := w\<rparr>)"
| Flush: "find_logger name p = Some a \<Longrightarrow> flush fuel a (wld p) = Some w \<Longrightarrow> step p (p\<lparr>wld := w\<rparr>)"

section \<open>The invariant of the registry\<close>

text \<open>
  The loggers alive are the owned ones and the default instance; every registered pointer is alive
  and has the name it is registered under; an owned logger is the one registered under its name, but
  for \<open>default\<close>.
\<close>

definition name_at :: "world \<Rightarrow> nat \<Rightarrow> string option" where
  "name_at w a = map_option lg_name (heap w a)"

definition reg_ok :: "process \<Rightarrow> bool" where
  "reg_ok p \<longleftrightarrow>
     (\<forall>n a. reg_all p n = Some a \<longrightarrow> name_at (wld p) a = Some n) \<and>
     (\<forall>n a. reg_owned p n = Some a \<longrightarrow> name_at (wld p) a = Some n \<and> default_instance p \<noteq> Some a \<and>
        reg_all p n \<noteq> None \<and> (n \<noteq> ''default'' \<longrightarrow> reg_all p n = Some a)) \<and>
     (\<forall>a. default_instance p = Some a \<longrightarrow> name_at (wld p) a = Some ''default'') \<and>
     (\<forall>a n. name_at (wld p) a = Some n \<longrightarrow>
        a < next_addr p \<and> (default_instance p = Some a \<or> reg_owned p n = Some a)) \<and>
     world_ok (wld p)"

lemma reg_okI:
  assumes "\<And>n a. reg_all p n = Some a \<Longrightarrow> name_at (wld p) a = Some n"
    "\<And>n a. reg_owned p n = Some a \<Longrightarrow> name_at (wld p) a = Some n"
    "\<And>n a. reg_owned p n = Some a \<Longrightarrow> default_instance p \<noteq> Some a"
    "\<And>n a. reg_owned p n = Some a \<Longrightarrow> reg_all p n \<noteq> None"
    "\<And>n a. reg_owned p n = Some a \<Longrightarrow> n \<noteq> ''default'' \<Longrightarrow> reg_all p n = Some a"
    "\<And>a. default_instance p = Some a \<Longrightarrow> name_at (wld p) a = Some ''default''"
    "\<And>n a. name_at (wld p) a = Some n \<Longrightarrow> a < next_addr p"
    "\<And>n a. name_at (wld p) a = Some n \<Longrightarrow> default_instance p \<noteq> Some a \<Longrightarrow> reg_owned p n = Some a"
    "world_ok (wld p)"
  shows "reg_ok p"
  unfolding reg_ok_def using assms by meson

lemma reg_okD:
  assumes "reg_ok p"
  shows "reg_all p n = Some a \<Longrightarrow> name_at (wld p) a = Some n"
    "reg_owned p n = Some a \<Longrightarrow> name_at (wld p) a = Some n"
    "reg_owned p n = Some a \<Longrightarrow> default_instance p \<noteq> Some a"
    "reg_all p n = None \<Longrightarrow> reg_owned p n = None"
    "reg_owned p n = Some a \<Longrightarrow> n \<noteq> ''default'' \<Longrightarrow> reg_all p n = Some a"
    "default_instance p = Some a \<Longrightarrow> name_at (wld p) a = Some ''default''"
    "name_at (wld p) a = Some n \<Longrightarrow> a < next_addr p"
    "name_at (wld p) a = Some n \<Longrightarrow> default_instance p \<noteq> Some a \<Longrightarrow> reg_owned p n = Some a"
    "world_ok (wld p)"
    "reg_owned p n = Some a \<Longrightarrow> \<exists>b. reg_all p n = Some b"
  using assms unfolding reg_ok_def by (meson not_None_eq)+

lemma new_logger_name [simp]: "lg_name (new_logger n) = n"
  by (simp add: new_logger_def)

text \<open>Operations on a logger keep who is alive, the names and the invariant of the loggers.\<close>

definition keeps :: "world \<Rightarrow> world \<Rightarrow> bool" where
  "keeps w w' \<longleftrightarrow> name_at w' = name_at w \<and> (world_ok w \<longrightarrow> world_ok w')"

lemma keeps_refl [simp]: "keeps w w" and keeps_visited [simp]: "keeps w (w\<lparr>visited := V\<rparr>)"
  by (auto simp: keeps_def name_at_def world_ok_def fun_eq_iff)

lemma keeps_trans [trans]: "keeps w w' \<Longrightarrow> keeps w' w'' \<Longrightarrow> keeps w w''"
  by (simp add: keeps_def)

lemma name_at_dom: "name_at w' = name_at w \<Longrightarrow> dom (heap w') = dom (heap w)"
  by (auto simp: name_at_def fun_eq_iff dom_def) (metis option.map_disc_iff not_Some_eq)+

lemma update_logger_name:
  "update_logger a f w = Some w' \<Longrightarrow> (\<And>l. lg_name (f l) = lg_name l) \<Longrightarrow> name_at w' = name_at w"
  by (auto simp: update_logger_def name_at_def fun_eq_iff split: option.splits)

lemma ops_keep:
  shows "set_level a lvl w = Some w' \<Longrightarrow> keeps w w'" "add_sink a k w = Some w' \<Longrightarrow> keeps w w'"
    "clear_sinks a w = Some w' \<Longrightarrow> keeps w w'" "set_prologue a fn w = Some w' \<Longrightarrow> keeps w w'"
    "untie a b w = Some w' \<Longrightarrow> keeps w w'"
    "tie a b w = Some w' \<Longrightarrow> length (ties_of w a) + 1 < 2 ^ 32 \<Longrightarrow> keeps w w'"
    "write_own lvl iov a w = Some w' \<Longrightarrow> keeps w w'" "flush_own a w = Some w' \<Longrightarrow> keeps w w'"
proof -
  note ok = logger_ops_ok [of w]
  show "set_level a lvl w = Some w' \<Longrightarrow> keeps w w'"
    using ok(1) by (auto simp: keeps_def set_level_def intro: update_logger_name)
  show "add_sink a k w = Some w' \<Longrightarrow> keeps w w'"
    using ok(2) [of a k w'] by (cases k) (auto simp: keeps_def add_sink_def intro: update_logger_name)
  show "clear_sinks a w = Some w' \<Longrightarrow> keeps w w'"
    using ok(3) by (auto simp: keeps_def clear_sinks_def name_at_def fun_eq_iff split: option.splits)
  show "set_prologue a fn w = Some w' \<Longrightarrow> keeps w w'"
    using ok(4) by (auto simp: keeps_def set_prologue_def intro: update_logger_name)
  show "untie a b w = Some w' \<Longrightarrow> keeps w w'"
    using ok(5) by (auto simp: keeps_def untie_def intro: update_logger_name)
  show "tie a b w = Some w' \<Longrightarrow> length (ties_of w a) + 1 < 2 ^ 32 \<Longrightarrow> keeps w w'"
    using ok(6) by (auto simp: keeps_def tie_def intro: update_logger_name split: if_splits)
  show "write_own lvl iov a w = Some w' \<Longrightarrow> keeps w w'"
    using write_action.graph [of lvl iov a w w']
    by (auto simp: keeps_def same_graph_def write_own_def name_at_def fun_eq_iff split: option.splits)
  show "flush_own a w = Some w' \<Longrightarrow> keeps w w'"
    using flush_action.graph [of a w w']
    by (auto simp: keeps_def same_graph_def flush_own_def name_at_def fun_eq_iff split_beta Let_def
        split: option.splits)
qed

lemma emit_keeps:
  "emit fuel lvl iov a w = Some w' \<Longrightarrow> keeps w w'"
  "emit_ties fuel lvl iov ts w = Some w' \<Longrightarrow> keeps w w'"
proof (induction fuel lvl iov a w and fuel lvl iov ts w arbitrary: w' and w' rule: emit_emit_ties.induct)
  case (2 fuel lvl iov a w)
  obtain l where l: "heap w a = Some l" using 2(2) by (auto split: option.splits)
  show ?case
  proof (cases "lg_tie_count l = 0 \<or> a \<in> visited w")
    case True
    then show ?thesis using 2(2) l ops_keep(7) [of lvl iov a w w'] by (auto split: if_splits)
  next
    case False
    let ?w = "w\<lparr>visited := insert a (visited w)\<rparr>"
    obtain w1 where w1: "write_own lvl iov a ?w = Some w1"
      using 2(2) l False by (cases "write_own lvl iov a ?w") simp_all
    obtain l1 where l1: "heap w1 a = Some l1" using 2(2) l False w1 by (cases "heap w1 a") simp_all
    obtain w2 where w2: "emit_ties fuel lvl iov (lg_ties l1) w1 = Some w2"
      using 2(2) l False w1 l1 by (cases "emit_ties fuel lvl iov (lg_ties l1) w1") simp_all
    have w': "w' = w2\<lparr>visited := visited w2 - {a}\<rparr>" using 2(2) l False w1 l1 w2 by simp
    have "keeps w ?w" by simp
    also have "keeps ?w w1" using ops_keep(7) [OF w1] .
    also have "keeps w1 w2" using 2(1) [OF l _ _ w1 l1 w2] False by simp
    also have "keeps w2 w'" using w' by simp
    finally show ?thesis .
  qed
next
  case (4 fuel lvl iov t ts w)
  then show ?case using keeps_trans by (fastforce split: option.splits)
qed simp_all

lemma flush_keeps:
  "flush fuel a w = Some w' \<Longrightarrow> keeps w w'" "flush_ties fuel ts w = Some w' \<Longrightarrow> keeps w w'"
proof (induction fuel a w and fuel ts w arbitrary: w' and w' rule: flush_flush_ties.induct)
  case (2 fuel a w)
  obtain w1 l where w1: "flush_own a w = Some w1" "heap w1 a = Some l"
    using 2(2) by (auto split: option.splits)
  note k = ops_keep(8) [OF w1(1)]
  show ?case
  proof (cases "a \<in> visited w1")
    case True
    then show ?thesis using 2(2) w1 k by simp
  next
    case False
    let ?w1 = "w1\<lparr>visited := insert a (visited w1)\<rparr>"
    obtain w2 where w2: "flush_ties fuel (lg_ties l) ?w1 = Some w2" "w' = w2\<lparr>visited := visited w2 - {a}\<rparr>"
      using 2(2) w1 False by (auto split: option.splits)
    have "keeps w ?w1" using keeps_trans [OF k keeps_visited] .
    also have "keeps ?w1 w2" using 2(1) [OF w1 False w2(1)] .
    also have "keeps w2 w'" using w2(2) by simp
    finally show ?thesis .
  qed
next
  case (4 fuel t ts w)
  then show ?case using keeps_trans by (fastforce split: option.splits)
qed simp_all

section \<open>Every step keeps it\<close>

lemma keeps_reg_ok:
  assumes "reg_ok p" "keeps (wld p) w"
  shows "reg_ok (p\<lparr>wld := w\<rparr>)"
  using assms by (auto simp: reg_ok_def keeps_def)

lemma name_at_put [simp]:
  "name_at (wld (put_logger a l p)) = (name_at (wld p))(a \<mapsto> lg_name l)"
  by (auto simp: name_at_def put_logger_def fun_eq_iff)

lemma name_at_delete [simp]: "name_at (wld (delete_logger a p)) = (name_at (wld p))(a := None)"
  by (auto simp: name_at_def delete_logger_def fun_eq_iff split: option.split)

lemma put_logger_simps [simp]:
  "reg_all (put_logger a l p) = reg_all p" "reg_owned (put_logger a l p) = reg_owned p"
  "default_instance (put_logger a l p) = default_instance p" "next_addr (put_logger a l p) = next_addr p"
  by (simp_all add: put_logger_def)

lemma delete_logger_simps [simp]:
  "reg_all (delete_logger a p) = reg_all p" "reg_owned (delete_logger a p) = reg_owned p"
  "default_instance (delete_logger a p) = default_instance p" "next_addr (delete_logger a p) = next_addr p"
  by (simp_all add: delete_logger_def split: option.split)

lemma world_ok_put: "world_ok (wld p) \<Longrightarrow> logger_ok a l \<Longrightarrow> world_ok (wld (put_logger a l p))"
  by (auto simp: world_ok_def put_logger_def)

lemma world_ok_delete: "world_ok (wld p) \<Longrightarrow> world_ok (wld (delete_logger a p))"
  by (auto simp: world_ok_def delete_logger_def split: option.split)

lemma reg_ok_fresh:
  assumes "reg_ok p"
  shows "name_at (wld p) (next_addr p) = None" "default_instance p \<noteq> Some (next_addr p)"
    "reg_all p n \<noteq> Some (next_addr p)" "reg_owned p n \<noteq> Some (next_addr p)"
  using reg_okD [OF assms] by (metis less_irrefl not_None_eq option.distinct(1))+

lemma get_logger_new:
  "reg_ok p \<Longrightarrow> reg_all p name = None \<Longrightarrow> get_logger name p = (next_addr p,
     (put_logger (next_addr p) (new_logger name) (p\<lparr>next_addr := Suc (next_addr p)\<rparr>))
       \<lparr>reg_owned := (reg_owned p)(name \<mapsto> next_addr p), reg_all := (reg_all p)(name \<mapsto> next_addr p)\<rparr>)"
  using reg_okD(4) [of p name] by (simp add: get_logger_def Let_def put_logger_def)

lemma get_logger_ok:
  assumes ok: "reg_ok p" and g: "get_logger name p = (a, p')"
  shows "reg_ok p' \<and> find_logger name p' = Some a \<and> name_at (wld p') a = Some name"
proof (cases "reg_all p name")
  case (Some b)
  then show ?thesis using ok g by (auto simp: get_logger_def find_logger_def reg_ok_def)
next
  case None
  have p': "a = next_addr p"
    "p' = (put_logger (next_addr p) (new_logger name) (p\<lparr>next_addr := Suc (next_addr p)\<rparr>))
       \<lparr>reg_owned := (reg_owned p)(name \<mapsto> next_addr p), reg_all := (reg_all p)(name \<mapsto> next_addr p)\<rparr>"
    using g unfolding get_logger_new [OF ok None] prod.inject by (rule sym [OF conjunct1], rule sym [OF conjunct2])
  note D = reg_okD [OF ok] and fresh = reg_ok_fresh [OF ok]
  have o: "reg_owned p name = None" by (rule D(4) [OF None])
  have w: "world_ok (wld p')"
    using D(9) world_ok_put [of "p\<lparr>next_addr := Suc (next_addr p)\<rparr>"] by (simp add: p')
  have "reg_ok p'"
    using w by (intro reg_okI)
      (auto simp: p' o None fresh less_Suc_eq split: if_splits dest: D(1-8,10) intro: D(9))
  then show ?thesis by (simp add: p' find_logger_def)
qed

lemma default_logger_ok:
  assumes ok: "reg_ok p" and g: "default_logger p = (a, p')"
  shows "reg_ok p' \<and> default_instance p' = Some a \<and> name_at (wld p') a = Some ''default''"
proof (cases "default_instance p")
  case (Some b)
  then show ?thesis using ok g by (auto simp: default_logger_def reg_ok_def)
next
  case None
  note D = reg_okD [OF ok] and fresh = reg_ok_fresh [OF ok]
  let ?l = "(new_logger ''default'')\<lparr>lg_level := INFO, lg_sinks := [Fd (make_stderr_sink True)]\<rparr>"
  have p': "a = next_addr p"
    "p' = (put_logger (next_addr p) ?l (p\<lparr>next_addr := Suc (next_addr p)\<rparr>))
       \<lparr>reg_all := (reg_all p)(''default'' \<mapsto> next_addr p), default_instance := Some (next_addr p)\<rparr>"
    using g None by (auto simp: default_logger_def default_logger_init_def register_logger_def Let_def new_logger_def)
  have "world_ok (wld p')"
    using ok world_ok_put [of "p\<lparr>next_addr := Suc (next_addr p)\<rparr>" "next_addr p" ?l]
    by (simp add: p' reg_ok_def logger_ok_def new_logger_def)
  then have "reg_ok p'"
    by (intro reg_okI) (auto simp: p' new_logger_def less_Suc_eq fresh None split: if_splits dest: D(1-8,10) intro: D(9))
  then show ?thesis by (simp add: p' new_logger_def)
qed

lemma remove_logger_ok:
  assumes ok: "reg_ok p" and g: "remove_logger name p = (r, p')"
  shows "reg_ok p' \<and> find_logger name p' = None \<and> (r \<longleftrightarrow> find_logger name p \<noteq> None)"
proof -
  note D = reg_okD [OF ok]
  show ?thesis
proof (cases "reg_owned p name")
  case None
  then have "r = (reg_all p name \<noteq> None)" "p' = p\<lparr>reg_all := (reg_all p)(name := None)\<rparr>"
    using g by (auto simp: remove_logger_def)
  moreover have "reg_ok (p\<lparr>reg_all := (reg_all p)(name := None)\<rparr>)"
    by (intro reg_okI) (auto simp: None split: if_splits dest: D(1-8,10) intro: D(9))
  ultimately show ?thesis by (simp add: find_logger_def)
next
  case (Some a)
  have p': "r = True" "p' = (delete_logger a p)\<lparr>reg_owned := (reg_owned p)(name := None),
      reg_all := (reg_all p)(name := None)\<rparr>"
    using g Some by (auto simp: remove_logger_def)
  have other: "m = name" if "name_at (wld p) a = Some m" for m using D(2) [OF Some] that by simp
  have "reg_ok p'"
    using D(2,3) [OF Some] world_ok_delete [of p a, OF D(9)]
    by (intro reg_okI) (auto simp: p' Some split: if_splits dest: D(1-8,10) other)
  moreover have "reg_all p name \<noteq> None" using D(4) [of name] Some by auto
  ultimately show ?thesis by (simp add: p' find_logger_def)
qed
qed

lemma step_ok: "step p p' \<Longrightarrow> reg_ok p \<Longrightarrow> reg_ok p'"
  by (induction rule: step.induct)
    (use get_logger_ok default_logger_ok remove_logger_ok in blast,
     use get_logger_ok default_logger_ok remove_logger_ok in blast,
     use get_logger_ok default_logger_ok remove_logger_ok in blast,
     (blast intro: keeps_reg_ok ops_keep emit_keeps flush_keeps)+)

lemma get_step: "step p (snd (get_logger n p))"
  by (rule step.Get [OF surjective_pairing])

lemma initial_ok: "reg_ok (initial s)"
  by (simp add: reg_ok_def initial_def name_at_def world_ok_def)

lemma reachable_ok: "step\<^sup>*\<^sup>* (initial s) p \<Longrightarrow> reg_ok p"
  by (induction rule: rtranclp_induct) (use initial_ok step_ok in blast)+

lemma name_atD: "name_at w a = Some n \<Longrightarrow> \<exists>l. heap w a = Some l \<and> lg_name l = n"
  by (simp add: name_at_def)

section \<open>A tie to a destroyed logger\<close>

lemma keeps_dom: "keeps w w' \<Longrightarrow> heap w b = None \<longleftrightarrow> heap w' b = None"
  using name_at_dom [of w' w] by (auto simp: keeps_def)

lemma emit_ties_dead: "b \<in> set ts \<Longrightarrow> heap w b = None \<Longrightarrow> emit_ties fuel lvl iov ts w = None"
proof (induction ts arbitrary: w)
  case (Cons t ts)
  show ?case
  proof (cases "emit fuel lvl iov t w")
    case None
    then show ?thesis by simp
  next
    case (Some w')
    have "t \<noteq> b" using Some Cons.prems(2) by (cases fuel) auto
    moreover have "heap w' b = None" using keeps_dom [OF emit_keeps(1) [OF Some]] Cons.prems(2) by simp
    ultimately show ?thesis using Cons Some by simp
  qed
qed simp

lemma emit_dead:
  assumes "world_ok w" "visited w = {}" "b \<in> set (ties_of w a)" "heap w b = None"
  shows "emit fuel lvl iov a w = None"
proof (cases fuel)
  case (Suc f)
  obtain l where l: "heap w a = Some l" "b \<in> set (lg_ties l)"
    using assms(3) by (cases "heap w a") (auto simp: ties_of_def)
  have c: "lg_tie_count l \<noteq> 0" using tie_count_zero [of a l] assms(1) l by (auto simp: world_ok_def)
  show ?thesis
  proof (cases "write_own lvl iov a (w\<lparr>visited := {a}\<rparr>)")
    case None
    then show ?thesis using Suc l c assms(2) by simp
  next
    case (Some w1)
    note k = ops_keep(7) [OF Some] and g = write_action.graph [OF Some]
    obtain l1 where l1: "heap w1 a = Some l1" using keeps_dom [OF k, of a] l(1) by auto
    have "ties_of w1 a = ties_of w a" using g by (simp add: same_graph_def ties_of_def)
    then have "b \<in> set (lg_ties l1)" using l1 assms(3) by (simp add: ties_of_def)
    moreover have "heap w1 b = None" using keeps_dom [OF k, of b] assms(4) by simp
    ultimately show ?thesis using Suc l c assms(2) Some l1 emit_ties_dead by simp
  qed
qed simp

section \<open>Properties\<close>

text \<open>
  C13: However a program creates, removes, configures, ties and uses loggers through the registry, a
  registered name always leads to a live logger of that name whose tie count mirrors its ties, which
  has no tie to itself and none twice; and asking for the name again gives the same logger and changes
  nothing.
\<close>

theorem registered_loggers_live:
  assumes "step\<^sup>*\<^sup>* (initial s) p" "find_logger name p = Some a"
  shows "(\<exists>l. heap (wld p) a = Some l \<and> lg_name l = name \<and> logger_ok a l) \<and>
    get_logger name p = (a, p) \<and> (\<forall>n. find_logger n p = Some a \<longrightarrow> n = name)"
proof -
  note D = reg_okD [OF reachable_ok [OF assms(1)]]
  have n: "name_at (wld p) a = Some name" using D(1) assms(2) by (simp add: find_logger_def)
  obtain l where l: "heap (wld p) a = Some l" "lg_name l = name" using name_atD [OF n] by blast
  moreover have "logger_ok a l" using D(9) l(1) by (simp add: world_ok_def)
  moreover have "m = name" if "find_logger m p = Some a" for m
    using D(1) [of m a] that n by (simp add: find_logger_def)
  moreover have "get_logger name p = (a, p)" using assms(2) by (simp add: get_logger_def find_logger_def)
  ultimately show ?thesis by blast
qed

theorem registered_loggers_live_witness:
  "get_logger ''app'' (snd (get_logger ''app'' (initial disk0))) = (0, snd (get_logger ''app'' (initial disk0)))"
proof -
  let ?p = "snd (get_logger ''app'' (initial disk0))"
  have "step\<^sup>*\<^sup>* (initial disk0) ?p" by (rule r_into_rtranclp, rule get_step)
  moreover have "find_logger ''app'' ?p = Some 0"
    by (simp add: get_logger_def initial_def find_logger_def put_logger_def)
  ultimately show ?thesis using registered_loggers_live [of disk0 ?p "''app''" 0] by simp
qed

text \<open>
  A new name gets a logger of its own at the default level with no sink and no tie; all other
  names keep their loggers; removing the name again reports success, forgets it and destroys that
  logger, and a second removal reports failure.
\<close>

theorem get_then_remove:
  assumes "step\<^sup>*\<^sup>* (initial s) p" "find_logger name p = None" "get_logger name p = (a, p1)"
    "remove_logger name p1 = (r, p2)"
  shows "heap (wld p) a = None \<and> heap (wld p1) a = Some (new_logger name) \<and>
    (\<forall>n. find_logger n p1 = (if n = name then Some a else find_logger n p)) \<and>
    logger_names p1 = insert name (logger_names p) \<and>
    r \<and> heap (wld p2) = heap (wld p) \<and> logger_names p2 = logger_names p \<and> remove_logger name p2 = (False, p2)"
proof -
  note ok = reachable_ok [OF assms(1)]
  note fresh = reg_ok_fresh [OF ok]
  have none: "reg_all p name = None" using assms(2) by (simp add: find_logger_def)
  note own = reg_okD(4) [OF ok none]
  have h: "heap (wld p) (next_addr p) = None" using fresh(1) by (simp add: name_at_def)
  have p1: "a = next_addr p" "p1 = (put_logger a (new_logger name) (p\<lparr>next_addr := Suc a\<rparr>))
       \<lparr>reg_owned := (reg_owned p)(name \<mapsto> a), reg_all := (reg_all p)(name \<mapsto> a)\<rparr>"
    using assms(3) unfolding get_logger_new [OF ok none] by auto
  have p2: "r" "p2 = (delete_logger a p1)\<lparr>reg_owned := (reg_owned p1)(name := None),
      reg_all := (reg_all p1)(name := None)\<rparr>"
    using assms(4) p1 by (auto simp: remove_logger_def)
  have hp: "heap (wld p1) a = Some (new_logger name)" "heap (wld p2) = heap (wld p)"
    using h by (auto simp: p1 p2 put_logger_def delete_logger_def)
  have "reg_all p2 name = None" "reg_owned p2 name = None" by (simp_all add: p2)
  then have "remove_logger name p2 = (False, p2)"
    by (simp add: remove_logger_def fun_upd_idem)
  then show ?thesis
    using h hp none p2(1)
    by (auto simp: p1 p2(2) find_logger_def logger_names_def dom_def)
qed

theorem get_then_remove_witness:
  "snd (remove_logger ''a'' (snd (remove_logger ''a'' (snd (get_logger ''a'' (initial disk0)))))) =
    snd (remove_logger ''a'' (snd (get_logger ''a'' (initial disk0))))"
  using get_then_remove [of disk0 "initial disk0" "''a''" "fst (get_logger ''a'' (initial disk0))"
      "snd (get_logger ''a'' (initial disk0))" "fst (remove_logger ''a'' (snd (get_logger ''a'' (initial disk0))))"
      "snd (remove_logger ''a'' (snd (get_logger ''a'' (initial disk0))))"]
  by (simp add: find_logger_def initial_def)

text \<open>
  The first call of \<open>default_logger\<close> registers its logger, so the name then leads to it. But when
  the name was asked for first, the two are different loggers: the one handed out earlier is not the
  default logger and is no longer found under its name.
\<close>

theorem default_logger_identity:
  assumes "step\<^sup>*\<^sup>* (initial s) p" "default_instance p = None"
  shows "(let (d, p1) = default_logger p in get_logger ''default'' p1 = (d, p1)) \<and>
    (let (a, p1) = get_logger ''default'' p; (d, p2) = default_logger p1
     in a \<noteq> d \<and> find_logger ''default'' p2 = Some d \<and> heap (wld p2) a = heap (wld p1) a)"
proof
  show "let (d, p1) = default_logger p in get_logger ''default'' p1 = (d, p1)"
    using assms(2)
    by (simp add: default_logger_def default_logger_init_def register_logger_def get_logger_def Let_def)
  obtain a p1 where g: "get_logger ''default'' p = (a, p1)" by fastforce
  note ok = get_logger_ok [OF reachable_ok [OF assms(1)] g]
  then have "a < next_addr p1" using reg_okD(7) [of p1 a] by blast
  moreover have "default_instance p1 = None"
    using g assms(2) by (auto simp: get_logger_def Let_def split: option.splits if_splits)
  ultimately show "let (a, p1) = get_logger ''default'' p; (d, p2) = default_logger p1
     in a \<noteq> d \<and> find_logger ''default'' p2 = Some d \<and> heap (wld p2) a = heap (wld p1) a"
    by (simp add: g default_logger_def default_logger_init_def register_logger_def Let_def find_logger_def
        put_logger_def)
qed

theorem default_logger_identity_witness:
  "let (a, p1) = get_logger ''default'' (initial disk0); (d, p2) = default_logger p1 in a \<noteq> d"
  using default_logger_identity [of disk0 "initial disk0"]
  by (simp add: initial_def split_beta Let_def)

text \<open>
  C37: Removing a logger does not undo the ties that lead to it: afterwards a line given to a logger
  tied to it runs into the destroyed logger, however deep the recursion may go.
\<close>

theorem removed_logger_leaves_dangling_tie:
  assumes "step\<^sup>*\<^sup>* (initial s) p" "visited (wld p) = {}" "reg_owned p name = Some b"
    "b \<in> set (ties_of (wld p) a)" "remove_logger name p = (r, p')"
  shows "emit fuel lvl iov a (wld p') = None"
proof -
  note ok = reachable_ok [OF assms(1)]
  obtain l where l: "heap (wld p) b = Some l"
    using name_atD [OF reg_okD(2) [OF ok assms(3)]] by blast
  have "wld p' = wld (delete_logger b p)"
    using assms(3,5) by (auto simp: remove_logger_def)
  then have w: "heap (wld p') = (heap (wld p))(b := None)" "visited (wld p') = visited (wld p)"
    using l by (simp_all add: delete_logger_def)
  obtain la where la: "heap (wld p) a = Some la" "b \<in> set (lg_ties la)"
    using assms(4) by (cases "heap (wld p) a") (auto simp: ties_of_def)
  have "a \<noteq> b" using reg_okD(9) [OF ok] la by (auto simp: world_ok_def logger_ok_def)
  then have "ties_of (wld p') a = ties_of (wld p) a" using w by (simp add: ties_of_def)
  moreover have "world_ok (wld p')" using remove_logger_ok [OF ok assms(5)] reg_okD(9) by blast
  ultimately show ?thesis using emit_dead [of "wld p'" b a] w assms(2,4) by simp
qed

definition tied_pair :: process where
  "tied_pair =
     (let (a, p) = get_logger ''app'' (initial disk0); (b, p) = get_logger ''audit'' p
      in p\<lparr>wld := the (tie a b (wld p))\<rparr>)"

theorem removed_logger_leaves_dangling_tie_witness:
  "emit 9 INFO [''x''] 0 (wld (snd (remove_logger ''audit'' tied_pair))) = None"
proof -
  let ?p1 = "snd (get_logger ''app'' (initial disk0))"
  let ?p2 = "snd (get_logger ''audit'' ?p1)"
  note ev = get_logger_def initial_def put_logger_def find_logger_def new_logger_def
  have 1: "step\<^sup>*\<^sup>* (initial disk0) ?p2"
    by (rule rtranclp.rtrancl_into_rtrancl [OF r_into_rtranclp [of step]]) (rule get_step)+
  have "tie 0 1 (wld ?p2) = Some (the (tie 0 1 (wld ?p2)))" by (simp add: tie_def update_logger_def ev)
  then have 2: "step ?p2 (?p2\<lparr>wld := the (tie 0 1 (wld ?p2))\<rparr>)"
    by (intro step.Tie [of "''app''" _ 0 "''audit''" 1]) (simp_all add: ev ties_of_def)
  have 3: "?p2\<lparr>wld := the (tie 0 1 (wld ?p2))\<rparr> = tied_pair"
    by (simp add: tied_pair_def ev split_beta Let_def)
  have "step\<^sup>*\<^sup>* (initial disk0) tied_pair"
    using rtranclp.rtrancl_into_rtrancl [of step, OF 1 2] by (simp only: 3)
  moreover have "visited (wld tied_pair) = {}" "reg_owned tied_pair ''audit'' = Some 1"
    "1 \<in> set (ties_of (wld tied_pair) 0)"
    by (simp_all add: tied_pair_def ev tie_def update_logger_def ties_of_def)
  ultimately show ?thesis
    by (rule removed_logger_leaves_dangling_tie [OF _ _ _ _ surjective_pairing])
qed

end
