(* ===== verification/Elog_Prologue.thy ===== *)
theory Elog_Prologue
  imports Elog_Render_Laws Elog_Level
begin

text \<open>
  The header of a log line, \<open>include/elog/prologue.hpp\<close> and \<open>src/prologue.cpp\<close>: the local time down
  to the microsecond, the level, the thread id, the base name of the file, and the line. The date and
  the thread id are cached in thread-local variables, the record \<open>pro_cache\<close>; the theorem says the
  caches cannot be seen, but for a time of exactly one second before the epoch.
\<close>

record LogCtx =
  lc_level :: Level
  lc_file :: "string option" \<comment> \<open>\<open>None\<close> is the null pointer\<close>
  lc_line :: u32
  lc_tp :: u64 \<comment> \<open>nanoseconds since the epoch\<close>
  lc_tid :: nat

record pro_cache =
  cached_sec :: int
  cached_str :: string \<comment> \<open>the array of 20 characters\<close>
  cached_tid :: string \<comment> \<open>the first \<open>cached_tid_len\<close> characters of the array\<close>
  cached_tid_id :: nat
  tid_cached :: bool

definition fresh_cache :: pro_cache where
  "fresh_cache = \<lparr>cached_sec = - 1, cached_str = replicate 20 (CHR 0x00), cached_tid = [], cached_tid_id = 0,
     tid_cached = False\<rparr>"

text \<open>\<open>static_cast<char>('0' + x)\<close>.\<close>

definition char_digit :: "u32 \<Rightarrow> char" where
  "char_digit x = char_of (unat (48 + x))"

definition write_two :: "u32 \<Rightarrow> string" where
  "write_two v = [char_digit (v div 10), char_digit (v mod 10)]"

definition write_six :: "u32 \<Rightarrow> string" where
  "write_six v =
     [char_digit (v div 100000), char_digit ((v div 10000) mod 10), char_digit ((v div 1000) mod 10),
      char_digit ((v div 100) mod 10), char_digit ((v div 10) mod 10), char_digit (v mod 10)]"

text \<open>\<open>q\<close> is the suffix of the path that starts at the pointer of this name.\<close>

fun basename_loop :: "string \<Rightarrow> string \<Rightarrow> string" where
  "basename_loop q [] = q"
| "basename_loop q (c # p) = basename_loop (if c = CHR ''/'' then p else q) p"

definition basename_or_self :: "string \<Rightarrow> string" where
  "basename_or_self path = basename_loop path path"

text \<open>The date into \<open>cached_str\<close>.\<close>

definition date_str :: "tm \<Rightarrow> string" where
  "date_str x =
     (let y = tm_year x + 1900
      in [char_digit ((y div 1000) mod 10), char_digit ((y div 100) mod 10), char_digit ((y div 10) mod 10),
          char_digit (y mod 10), CHR ''-''] @ write_two (tm_mon x + 1) @ ''-'' @ write_two (tm_mday x) @
         '' '' @ write_two (tm_hour x) @ '':'' @ write_two (tm_min x) @ '':'' @ write_two (tm_sec x) @
         [CHR 0x00])"

definition cache_date :: "renv \<Rightarrow> int \<Rightarrow> pro_cache \<Rightarrow> pro_cache" where
  "cache_date env t c =
     (if t \<noteq> cached_sec c then c\<lparr>cached_str := date_str (localtime_r env t), cached_sec := t\<rparr> else c)"

definition cache_tid :: "renv \<Rightarrow> nat \<Rightarrow> pro_cache \<Rightarrow> pro_cache" where
  "cache_tid env tid c =
     (if \<not> tid_cached c \<or> cached_tid_id c \<noteq> tid then
        (let id_value = (if tid = this_thread env then gettid env else hash_tid env tid)
         in c\<lparr>cached_tid := write_uint id_value, cached_tid_id := tid, tid_cached := True\<rparr>)
      else c)"

definition us_part :: "u64 \<Rightarrow> u32" where
  "us_part tp =
     (let us = (sint tp sdiv 1000) smod 1000000 in of_int (if us < 0 then 0 else us))"

definition default_prologue ::
    "renv \<Rightarrow> LogCtx \<Rightarrow> pro_cache \<Rightarrow> rbuf \<Rightarrow> (iov \<times> pro_cache \<times> rbuf) option" where
  "default_prologue env ctx c b =
     (let c = cache_date env (sint (lc_tp ctx) sdiv 1000000000) c;
          c = cache_tid env (lc_tid ctx) c
      in do {
        b1 \<leftarrow> put_str (take 19 (cached_str c)) b;
        b2 \<leftarrow> put_char (CHR ''.'') b1;
        b3 \<leftarrow> put_str (write_six (us_part (lc_tp ctx))) b2;
        b4 \<leftarrow> put_char (CHR '' '') b3;
        b5 \<leftarrow> put_str (level_name (lc_level ctx)) b4;
        b6 \<leftarrow> put_char (CHR '' '') b5;
        b7 \<leftarrow> put_char (CHR ''['') b6;
        b8 \<leftarrow> put_str (cached_tid c) b7;
        b9 \<leftarrow> put_char (CHR '']'') b8;
        b10 \<leftarrow> put_char (CHR '' '') b9;
        b11 \<leftarrow> put_str (basename_or_self (case lc_file ctx of None \<Rightarrow> [] | Some f \<Rightarrow> f)) b10;
        b12 \<leftarrow> put_char (CHR '':'') b11;
        b13 \<leftarrow> put_str (write_int (lc_line ctx)) b12;
        b14 \<leftarrow> put_char (CHR '' '') b13;
        b15 \<leftarrow> put_char (CHR ''|'') b14;
        b16 \<leftarrow> put_char (CHR '' '') b15;
        Some (scratch_iov (pos b) b16, c, b16)
      })"

section \<open>The intended text\<close>

text \<open>The calendar values \<open>localtime_r\<close> documents, for years of four digits.\<close>

definition tm_ok :: "tm \<Rightarrow> bool" where
  "tm_ok x \<longleftrightarrow> - 1900 \<le> sint (tm_year x) \<and> sint (tm_year x) < 8100 \<and>
     unat (tm_mon x) < 12 \<and> 1 \<le> unat (tm_mday x) \<and> unat (tm_mday x) \<le> 31 \<and> unat (tm_hour x) < 24 \<and>
     unat (tm_min x) < 60 \<and> unat (tm_sec x) \<le> 60"

definition base_name :: "string \<Rightarrow> string" where
  "base_name path = rev (takeWhile (\<lambda>c. c \<noteq> CHR ''/'') (rev path))"

definition tid_value :: "renv \<Rightarrow> nat \<Rightarrow> nat" where
  "tid_value env tid = unat (if tid = this_thread env then gettid env else hash_tid env tid)"

definition date_text :: "tm \<Rightarrow> string" where
  "date_text x = zero_pad 4 (sint (tm_year x) + 1900) @ ''-'' @ zero_pad 2 (sint (tm_mon x) + 1) @ ''-'' @
     zero_pad 2 (sint (tm_mday x)) @ '' '' @ zero_pad 2 (sint (tm_hour x)) @ '':'' @
     zero_pad 2 (sint (tm_min x)) @ '':'' @ zero_pad 2 (sint (tm_sec x))"

definition prologue_text :: "renv \<Rightarrow> LogCtx \<Rightarrow> string" where
  "prologue_text env ctx =
     date_text (localtime_r env (sint (lc_tp ctx) div 1000000000)) @ ''.'' @
     zero_pad 6 (sint (lc_tp ctx) div 1000 mod 1000000) @ '' '' @ level_name (lc_level ctx) @ '' ['' @
     radix_str 10 (tid_value env (lc_tid ctx)) @ ''] '' @
     base_name (case lc_file ctx of None \<Rightarrow> [] | Some f \<Rightarrow> f) @ '':'' @ int_str (sint (lc_line ctx)) @ '' | ''"

definition cache_ok :: "renv \<Rightarrow> pro_cache \<Rightarrow> bool" where
  "cache_ok env c \<longleftrightarrow>
     (cached_sec c \<noteq> - 1 \<longrightarrow> cached_str c = date_str (localtime_r env (cached_sec c))) \<and>
     (tid_cached c \<longrightarrow> cached_tid c = radix_str 10 (tid_value env (cached_tid_id c)))"

section \<open>Digits\<close>

lemma char_digit_radix: "x < 10 \<Longrightarrow> char_digit x = digit_char (unat x)"
proof -
  assume "x < 10"
  then have "unat x < 10" by (simp add: word_less_nat_alt)
  then have "unat (48 + x) = 48 + unat x" by (simp add: unat_word_ariths)
  then show ?thesis using \<open>unat x < 10\<close> by (simp add: char_digit_def digit_char_def)
qed

lemma basename_loop_eq:
  "basename_loop q p = (if CHR ''/'' \<in> set p then base_name p else q)"
proof (induction p arbitrary: q)
  case (Cons c p)
  have "base_name (c # p) = (if CHR ''/'' \<in> set p then base_name p else if c = CHR ''/'' then p else c # p)"
    by (auto simp: base_name_def takeWhile_append)
  then show ?case using Cons.IH by auto
qed simp

lemma basename_or_self_eq [simp]: "basename_or_self p = base_name p"
proof (cases "CHR ''/'' \<in> set p")
  case False
  have "takeWhile (\<lambda>c. c \<noteq> CHR ''/'') (rev p) = rev p"
    unfolding takeWhile_eq_all_conv set_rev using False by metis
  then have "base_name p = p" by (simp only: base_name_def rev_rev_ident)
  then show ?thesis by (simp add: basename_or_self_def basename_loop_eq)
qed (simp add: basename_or_self_def basename_loop_eq)

text \<open>The lowest \<open>w\<close> digits of a number.\<close>

fun low_digits :: "nat \<Rightarrow> nat \<Rightarrow> string" where
  "low_digits 0 n = []"
| "low_digits (Suc w) n = low_digits w (n div 10) @ [digit_char (n mod 10)]"

lemma low_digits_0: "low_digits w 0 = replicate w (CHR ''0'')"
  by (induction w) (simp_all add: digit_char_0 replicate_append_same)

lemma low_digits_numeral [simp]:
  "low_digits (numeral k) n = low_digits (pred_numeral k) (n div 10) @ [digit_char (n mod 10)]"
  by (metis low_digits.simps(2) numeral_eq_Suc)

lemma length_low_digits [simp]: "length (low_digits w n) = w"
  by (induction w arbitrary: n) simp_all

lemma padded_digits:
  "0 < w \<Longrightarrow> n < 10 ^ w \<Longrightarrow>
     replicate (w - length (radix_str 10 n)) (CHR ''0'') @ radix_str 10 n = low_digits w n"
proof (induction w arbitrary: n)
  case (Suc w)
  show ?case
  proof (cases "n < 10")
    case True
    then show ?thesis by (simp add: radix_small low_digits_0)
  next
    case False
    then have "0 < w" using Suc.prems by (cases w) auto
    moreover have "n div 10 < 10 ^ w" using Suc.prems by (simp add: div_less_iff_less_mult mult.commute)
    ultimately show ?thesis using Suc.IH [of "n div 10"] False by (simp add: radix_large)
  qed
qed simp

lemma zero_pad_digits: "0 < w \<Longrightarrow> n < 10 ^ w \<Longrightarrow> zero_pad w (int n) = low_digits w n"
  using padded_digits [of w n] by (simp add: zero_pad_def)

lemma zero_pad_int: "0 < w \<Longrightarrow> 0 \<le> i \<Longrightarrow> i < 10 ^ w \<Longrightarrow> zero_pad w i = low_digits w (nat i)"
  using zero_pad_digits [of w "nat i"] by (simp add: nat_less_iff)

lemma unat_digit: "unat (v div 10 :: u32) = unat v div 10" "unat (v mod 10 :: u32) = unat v mod 10"
  "unat (v div 100 :: u32) = unat v div 100" "unat (v div 1000 :: u32) = unat v div 1000"
  "unat (v div 10000 :: u32) = unat v div 10000" "unat (v div 100000 :: u32) = unat v div 100000"
  by (simp_all add: unat_div unat_mod)

lemma char_digit_nat: "unat x < 10 \<Longrightarrow> char_digit x = digit_char (unat x)"
  by (rule char_digit_radix) (simp add: word_less_nat_alt)

lemma write_two_digits: "unat v < 100 \<Longrightarrow> write_two v = low_digits 2 (unat v)"
  by (simp add: write_two_def char_digit_nat unat_digit less_mult_imp_div_less)

lemma write_six_digits: "unat v < 1000000 \<Longrightarrow> write_six v = low_digits 6 (unat v)"
  by (simp add: write_six_def char_digit_nat unat_digit less_mult_imp_div_less div_mult2_eq [symmetric])

section \<open>The date\<close>

lemma sint_small: "unat (x :: u32) < 2 ^ 31 \<Longrightarrow> sint x = int (unat x)"
  by (subst sint_uint_if) (simp flip: of_nat_less_iff [where 'a = int])

lemma unat_plus_small: "unat (x :: u32) < 100 \<Longrightarrow> unat (x + 1) = unat x + 1"
  by (simp only: unat_word_ariths) simp

lemma two_text:
  assumes "unat (x :: u32) < 100"
  shows "zero_pad 2 (sint x) = low_digits 2 (unat x)"
proof -
  have "sint x = int (unat x)" by (rule sint_small) (use assms in simp)
  then show ?thesis by (simp only:) (rule zero_pad_digits; use assms in simp)
qed

lemma two_text_Suc:
  assumes "unat (x :: u32) < 99"
  shows "zero_pad 2 (sint x + 1) = low_digits 2 (unat (x + 1))"
proof -
  have u: "unat (x + 1) = unat x + 1" by (rule unat_plus_small) (use assms in simp)
  have "sint x = int (unat x)" by (rule sint_small) (use assms in simp)
  then have "sint x + 1 = int (unat x + 1)" by (simp only: of_nat_add of_nat_1)
  then show ?thesis by (simp only: u) (rule zero_pad_digits; use assms in simp)
qed

lemma year_unat:
  assumes "- 1900 \<le> sint (y :: u32)" "sint y < 8100"
  shows "int (unat (y + 1900)) = sint y + 1900"
proof -
  have u: "uint (y + 1900) = (uint y + 1900) mod 2 ^ 32" by (simp add: uint_word_ariths)
  show ?thesis
  proof (cases "uint y < 2 ^ 31")
    case True
    then show ?thesis using u by (simp add: sint_uint_if)
  next
    case False
    have s: "sint y = uint y - 2 ^ 32" using False by (simp add: sint_uint_if)
    have "(uint y + 1900) mod 2 ^ 32 = (uint y + 1900 - 2 ^ 32) mod 2 ^ 32" by (simp only: minus_mod_self2)
    also have "\<dots> = uint y + 1900 - 2 ^ 32"
      using assms(1) s uint_bounded [of y] by (intro mod_pos_pos_trivial) simp_all
    finally show ?thesis using u s by simp
  qed
qed

lemma date_str_text:
  assumes "tm_ok x"
  shows "date_str x = date_text x @ [CHR 0x00]" "length (date_text x) = 19"
proof -
  let ?y = "tm_year x + 1900"
  have y: "int (unat ?y) = sint (tm_year x) + 1900"
    by (rule year_unat) (use assms in \<open>auto simp: tm_ok_def\<close>)
  then have y2: "unat ?y < 10000" using assms unfolding tm_ok_def by linarith
  have y4: "zero_pad 4 (sint (tm_year x) + 1900) = low_digits 4 (unat ?y)"
    unfolding y [symmetric] by (rule zero_pad_digits) (use y2 in simp_all)
  moreover have "unat (tm_mon x + 1) < 100" using assms unat_plus_small [of "tm_mon x"] by (simp add: tm_ok_def)
  ultimately show "date_str x = date_text x @ [CHR 0x00]"
    using assms y2
    by (simp add: date_str_def date_text_def Let_def tm_ok_def two_text two_text_Suc write_two_digits
        char_digit_nat unat_digit div_mult2_eq [symmetric])
  show "length (date_text x) = 19"
    using assms y4
    by (simp add: date_text_def tm_ok_def two_text two_text_Suc)
qed

section \<open>The prologue is one text\<close>

definition prologue_bytes :: "LogCtx \<Rightarrow> pro_cache \<Rightarrow> string" where
  "prologue_bytes ctx c =
     take 19 (cached_str c) @ ''.'' @ write_six (us_part (lc_tp ctx)) @ '' '' @ level_name (lc_level ctx) @
     '' ['' @ cached_tid c @ ''] '' @
     base_name (case lc_file ctx of None \<Rightarrow> [] | Some f \<Rightarrow> f) @ '':'' @ int_str (sint (lc_line ctx)) @ '' | ''"

lemma put_str_append: "put_str (s @ t) b = do { b1 \<leftarrow> put_str s b; put_str t b1 }"
  by (induction s arbitrary: b) (auto split: bind_split)

lemma put_str_Cons: "put_str (c # s) b = do { b1 \<leftarrow> put_char c b; put_str s b1 }"
  by simp

lemma default_prologue_put:
  "default_prologue env ctx c b =
     (let c = cache_tid env (lc_tid ctx) (cache_date env (sint (lc_tp ctx) sdiv 1000000000) c)
      in do { (v, b1) \<leftarrow> put_iov (prologue_bytes ctx c) b; Some (v, c, b1) })"
  unfolding default_prologue_def prologue_bytes_def put_iov_def Let_def basename_or_self_eq write_int_str
  by (simp only: put_str_append put_str.simps append_Cons append_Nil Option.bind_assoc bind.bind_lunit prod.case)

lemma cache_date_ok:
  assumes "cache_ok env c" "t \<noteq> - 1"
  shows "cache_ok env (cache_date env t c) \<and> cached_str (cache_date env t c) = date_str (localtime_r env t)"
  using assms by (auto simp: cache_ok_def cache_date_def)

lemma cache_tid_ok:
  assumes "cache_ok env c"
  shows "cache_ok env (cache_tid env tid c) \<and> cached_str (cache_tid env tid c) = cached_str c \<and>
    cached_tid (cache_tid env tid c) = radix_str 10 (tid_value env tid)"
  using assms by (auto simp: cache_ok_def cache_tid_def tid_value_def Let_def)

lemma sdiv_nonneg: "0 \<le> a \<Longrightarrow> 0 < b \<Longrightarrow> a sdiv b = a div b" for a b :: int
  by (cases "a = 0") (simp_all add: signed_divide_int_def)

lemma smod_nonneg: "0 \<le> a \<Longrightarrow> 0 < b \<Longrightarrow> a smod b = a mod b" for a b :: int
  by (cases "a = 0") (simp_all add: signed_modulo_int_def)

lemma us_part_text:
  assumes "0 \<le> sint tp"
  shows "write_six (us_part tp) = zero_pad 6 (sint tp div 1000 mod 1000000)"
proof -
  let ?us = "sint tp div 1000 mod 1000000"
  have us: "0 \<le> ?us" "?us < 1000000" by simp_all
  have q: "0 \<le> sint tp div 1000" using assms by (simp add: pos_imp_zdiv_nonneg_iff)
  have "(sint tp sdiv 1000) smod 1000000 = ?us"
    using assms q by (simp add: sdiv_nonneg smod_nonneg)
  then have "us_part tp = of_int ?us" using us by (simp add: us_part_def Let_def)
  then have "uint (us_part tp) = ?us"
    by (simp only: uint_word_of_int_eq) (rule take_bit_int_eq_self; use us in simp)
  then have u: "unat (us_part tp) = nat ?us" by (simp only: unat_eq_nat_uint)
  have "nat ?us < 1000000" using us by (simp only: nat_less_iff)
  then have "write_six (us_part tp) = low_digits 6 (nat ?us)"
    using write_six_digits [of "us_part tp"] by (simp only: u)
  moreover have "zero_pad 6 ?us = low_digits 6 (nat ?us)" by (rule zero_pad_int) (use us in simp_all)
  ultimately show ?thesis by (simp only:)
qed

lemma prologue_ok:
  assumes "cache_ok env c" "0 \<le> sint (lc_tp ctx)" "tm_ok (localtime_r env (sint (lc_tp ctx) div 1000000000))"
  shows "\<exists>c'. cache_ok env c' \<and> default_prologue env ctx c b =
    do { (v, b1) \<leftarrow> put_iov (prologue_text env ctx) b; Some (v, c', b1) }"
proof -
  let ?t = "sint (lc_tp ctx) div 1000000000"
  let ?c = "cache_tid env (lc_tid ctx) (cache_date env ?t c)"
  have t: "sint (lc_tp ctx) sdiv 1000000000 = ?t" using assms(2) by (simp add: sdiv_nonneg)
  have "0 \<le> ?t" using assms(2) by (simp add: pos_imp_zdiv_nonneg_iff)
  then have d: "cache_ok env (cache_date env ?t c)" "cached_str (cache_date env ?t c) = date_str (localtime_r env ?t)"
    using cache_date_ok [OF assms(1), of ?t] by simp_all
  note i = cache_tid_ok [OF d(1), of "lc_tid ctx"]
  have "prologue_bytes ctx ?c = prologue_text env ctx"
    using i d(2) date_str_text [OF assms(3)] us_part_text [OF assms(2)]
    by (simp add: prologue_bytes_def prologue_text_def)
  then show ?thesis
    using i by (intro exI [of _ ?c]) (simp add: default_prologue_put t Let_def)
qed

lemma put_iov_evolves_rok: "put_iov s b = Some (v, b') \<Longrightarrow> rok env b \<Longrightarrow> rok env b'"
  by (auto simp: put_iov_Some rok_def rbuf_ok_def write_str_def)

section \<open>Properties\<close>

text \<open>
  C26: For every time after the epoch the prologue is the documented header, date and microseconds,
  level, thread id, base name and line, whatever earlier calls of the thread left in the caches; it is
  written at the cursor, its iovec covers exactly it, nothing below the cursor changes, and the caches
  stay right for the next call.
\<close>

theorem prologue_line:
  assumes "cache_ok env c" "0 \<le> sint (lc_tp ctx)" "tm_ok (localtime_r env (sint (lc_tp ctx) div 1000000000))"
    "rok env b" "pos b + length (prologue_text env ctx) \<le> kScratchSize"
  shows "\<exists>v c' b'. default_prologue env ctx c b = Some (v, c', b') \<and> cache_ok env c' \<and> rok env b' \<and>
    pos b' = pos b + length (prologue_text env ctx) \<and> iov_bytes (mem b') v = prologue_text env ctx \<and>
    take (pos b) (mem b') = take (pos b) (mem b)"
proof -
  obtain c' where c': "cache_ok env c'" "default_prologue env ctx c b =
      do { (v, b1) \<leftarrow> put_iov (prologue_text env ctx) b; Some (v, c', b1) }"
    using prologue_ok [OF assms(1-3)] by blast
  have fit: "pos b + length (prologue_text env ctx) \<le> length (mem b)"
    using assms(4,5) by (simp add: rok_def rbuf_ok_def)
  let ?v = "Iov (Scratch (pos b)) (length (prologue_text env ctx))" and ?b = "write_str (prologue_text env ctx) b"
  have p: "put_iov (prologue_text env ctx) b = Some (?v, ?b)" using fit by (simp add: put_iov_Some)
  then show ?thesis
    using c' fit put_iov_evolves_rok [OF p assms(4)]
    by (intro exI [of _ ?v] exI [of _ c'] exI [of _ ?b]) simp
qed

definition sample_ctx :: LogCtx where
  "sample_ctx = \<lparr>lc_level = WARN, lc_file = Some ''src/net/io.cpp'', lc_line = 42, lc_tp = 1500000, lc_tid = 7\<rparr>"

theorem prologue_line_witness:
  "\<exists>env v c' b'. default_prologue env sample_ctx fresh_cache
       \<lparr>mem = replicate 4096 (CHR ''?''), pos = 0, tid_cache = 0\<rparr> = Some (v, c', b') \<and>
     iov_bytes (mem b') v = ''2024-01-09 08:07:06.001500 WARN [5] io.cpp:42 | ''"
proof -
  let ?env = "\<lparr>fmt_fixed = \<lambda>_ _. [], fmt_Lg = \<lambda>_. [],
    localtime_r = \<lambda>_. \<lparr>tm_year = 124, tm_mon = 0, tm_mday = 9, tm_hour = 8, tm_min = 7, tm_sec = 6\<rparr>,
    this_thread = 7, gettid = 5, hash_tid = \<lambda>_. 0, user_render = \<lambda>_ _. None, user_text = \<lambda>_. []\<rparr>"
  let ?b = "\<lparr>mem = replicate 4096 (CHR ''?''), pos = 0, tid_cache = 0\<rparr>"
  have replicate_two: "replicate 2 (CHR ''0'') = ''00''" by (simp add: numeral_2_eq_2)
  have t: "prologue_text ?env sample_ctx = ''2024-01-09 08:07:06.001500 WARN [5] io.cpp:42 | ''"
    by (simp add: prologue_text_def sample_ctx_def date_text_def zero_pad_def radix_str.simps digit_char_def
        char_of_def bit_Suc_0_iff tid_value_def base_name_def int_str_def replicate_two)
  have "cache_ok ?env fresh_cache" by (simp add: cache_ok_def fresh_cache_def)
  moreover have "0 \<le> sint (lc_tp sample_ctx)" by (simp add: sample_ctx_def)
  moreover have "tm_ok (localtime_r ?env (sint (lc_tp sample_ctx) div 1000000000))" by (simp add: tm_ok_def)
  moreover have "rok ?env ?b" by (simp add: rok_def rbuf_ok_def kScratchSize_def)
  moreover have "pos ?b + length (prologue_text ?env sample_ctx) \<le> kScratchSize"
    unfolding t by (simp add: kScratchSize_def)
  ultimately show ?thesis
    using prologue_line [of ?env fresh_cache sample_ctx ?b] unfolding t by blast
qed

text \<open>
  A line whose time is one second before the epoch, if it is the first of its thread, starts with
  19 NUL bytes instead of the date: the initial value of \<open>cached_sec\<close> is taken for a cached date.
\<close>

theorem initial_date_is_blank:
  assumes "sint (lc_tp ctx) sdiv 1000000000 = - 1" "default_prologue env ctx fresh_cache b = Some (v, c', b')"
  shows "take 19 (iov_bytes (mem b') v) = replicate 19 (CHR 0x00)"
proof -
  let ?c = "cache_tid env (lc_tid ctx) fresh_cache"
  have c: "cache_date env (- 1) fresh_cache = fresh_cache" by (simp add: cache_date_def fresh_cache_def)
  have "cached_str ?c = replicate 20 (CHR 0x00)" by (simp add: cache_tid_def fresh_cache_def Let_def)
  then have t: "take 19 (prologue_bytes ctx ?c) = replicate 19 (CHR 0x00)"
    by (simp add: prologue_bytes_def)
  obtain b1 where "put_iov (prologue_bytes ctx ?c) b = Some (v, b1)" "b' = b1"
    using assms(2) by (auto simp: default_prologue_put assms(1) c Let_def bind_eq_Some_conv)
  moreover have "prologue_bytes ctx ?c \<noteq> []" by (simp add: prologue_bytes_def)
  ultimately have "iov_bytes (mem b') v = prologue_bytes ctx ?c" by (auto simp: put_iov_Some)
  then show ?thesis using t by simp
qed

theorem initial_date_is_blank_witness:
  "\<forall>env. \<exists>v c' b'. default_prologue env (sample_ctx\<lparr>lc_tp := 0xFFFFFFFFC4653600\<rparr>) fresh_cache
       \<lparr>mem = replicate 4096 (CHR ''?''), pos = 0, tid_cache = 0\<rparr> = Some (v, c', b') \<and>
     take 19 (iov_bytes (mem b') v) = replicate 19 (CHR 0x00)"
proof
  fix env
  let ?ctx = "sample_ctx\<lparr>lc_tp := 0xFFFFFFFFC4653600\<rparr>"
  let ?b = "\<lparr>mem = replicate 4096 (CHR ''?''), pos = 0, tid_cache = 0\<rparr>"
  have t: "sint (lc_tp ?ctx) sdiv 1000000000 = - 1" by (simp add: signed_divide_int_def)
  let ?c = "cache_tid env 7 fresh_cache"
  have "length (cached_tid ?c) \<le> 20"
    using radix_10_length by (simp add: cache_tid_def fresh_cache_def Let_def)
  moreover have "length (int_str (sint (42 :: u32))) = 2" by (simp add: int_str_def radix_str.simps)
  ultimately have "length (prologue_bytes ?ctx ?c) \<le> 4096"
    by (simp add: prologue_bytes_def write_six_def sample_ctx_def base_name_def)
  then have "\<exists>v c' b'. default_prologue env ?ctx fresh_cache ?b = Some (v, c', b')"
    by (simp add: default_prologue_put t cache_date_def put_iov_def put_str_eq Let_def)
      (simp add: fresh_cache_def sample_ctx_def)
  then show "\<exists>v c' b'. default_prologue env ?ctx fresh_cache ?b = Some (v, c', b') \<and>
      take 19 (iov_bytes (mem b') v) = replicate 19 (CHR 0x00)" using initial_date_is_blank [OF t] by blast
qed

end
