(* ===== verification/Elog_Emit.thy ===== *)
theory Elog_Emit
  imports Elog_Format Elog_Values_Laws Elog_Prologue Elog_Logger
begin

text \<open>
  One log call, \<open>include/elog/emit.hpp\<close>: the prologue, the arguments rendered left to right into the
  thread's scratch buffer, the vectors assembled from the pieces of the format, the trailing newline,
  \<open>Logger::emit\<close>. \<open>emit_f_fast\<close> is the overload without packs, \<open>emit_f_pack\<close> the one with them. The
  time and the thread id of the call are arguments; prologues and pack renderers a user installs are
  parameters. \<open>None\<close> is undefined behaviour: a write outside the scratch buffer, a read of an argument
  that does not exist, a vector that reaches outside its memory.
\<close>

record thread =
  th_buf :: rbuf
  th_pro :: pro_cache
  th_pool :: "iov_ctx option"

type_synonym user_prologues = "nat \<Rightarrow> LogCtx \<Rightarrow> rbuf \<Rightarrow> (iov \<times> rbuf) option"

fun call_prologue ::
    "renv \<Rightarrow> user_prologues \<Rightarrow> prologue_fn \<Rightarrow> LogCtx \<Rightarrow> pro_cache \<Rightarrow> rbuf \<Rightarrow> (iov \<times> pro_cache \<times> rbuf) option" where
  "call_prologue env user Default_Prologue ctx c b = default_prologue env ctx c b"
| "call_prologue env user (User_Prologue k) ctx c b = do { (v, b1) \<leftarrow> user k ctx b; Some (v, c, b1) }"

definition newline :: iov where
  "newline = Iov (Ext [CHR 0x0A]) 1"

text \<open>The vector of a literal piece points into \<open>lit_data\<close>.\<close>

definition literal_iov :: "fmt_spec \<Rightarrow> piece \<Rightarrow> iov" where
  "literal_iov sp p = Iov (Ext (drop (unat (lit_offset p)) (lit_data sp))) (unat (plen p))"

definition piece_iov :: "fmt_spec \<Rightarrow> iov list \<Rightarrow> piece \<Rightarrow> iov option" where
  "piece_iov sp arg_iovs p =
     (if lit_offset p \<noteq> kHoleSentinel then Some (literal_iov sp p)
      else if unat (arg_idx p) < length arg_iovs then Some (arg_iovs ! unat (arg_idx p)) else None)"

text \<open>The bytes the sinks read through the vectors of a call.\<close>

definition gather :: "byte list \<Rightarrow> iov list \<Rightarrow> iovecs option" where
  "gather m iov = those (map (\<lambda>v. read_range m (iov_base v) (iov_len v)) iov)"

definition emit_f_fast ::
    "renv \<Rightarrow> user_prologues \<Rightarrow> nat \<Rightarrow> nat \<Rightarrow> LogCtx \<Rightarrow> nat \<Rightarrow> fmt_spec \<Rightarrow> val list \<Rightarrow> world \<Rightarrow> thread \<Rightarrow>
     (world \<times> thread) option" where
  "emit_f_fast env user fuel logger ctx N spec args w th =
     do {
       l \<leftarrow> heap w logger;
       (pro, c, b) \<leftarrow> call_prologue env user (lg_prologue l) ctx (th_pro th) (tls_scratch (th_buf th));
       (vs, b) \<leftarrow> render_seq (elog_render env) args b;
       let arg_iovs = (if args = [] then [Iov Null 0] else vs);
       ps \<leftarrow> those (map (piece_iov spec arg_iovs) (take N (pieces spec)));
       let iov = pro # ps @ [newline];
       bytes \<leftarrow> (if length iov \<le> N + 2 then gather (mem b) iov else None);
       w \<leftarrow> emit fuel (lc_level ctx) bytes logger w;
       Some (w, th\<lparr>th_buf := b, th_pro := c\<rparr>)
     }"

section \<open>Packs\<close>

record iov_pack =
  pk_base :: "iov list option" \<comment> \<open>the entries readable through the pointer, \<open>None\<close> for null\<close>
  pk_count :: nat

text \<open>
  An argument is a value rendered to one vector, an \<open>iov_pack\<close>, or (by its number) a value of a user's
  type whose renderer returns a pack.
\<close>

datatype arg = Value val | Pack iov_pack | Packed nat

type_synonym pack_renderers = "nat \<Rightarrow> rbuf \<Rightarrow> iov_ctx option \<Rightarrow> (iov_pack \<times> rbuf \<times> iov_ctx option) option"

record arg_slot =
  slot_base :: "iov list option"
  slot_count :: nat
  slot_single :: iov

definition kPackMax :: nat where
  "kPackMax = 32"

fun make_arg_slot ::
    "renv \<Rightarrow> pack_renderers \<Rightarrow> arg \<Rightarrow> rbuf \<times> iov_ctx option \<Rightarrow> (arg_slot \<times> rbuf \<times> iov_ctx option) option" where
  "make_arg_slot env packer (Value v) (b, pool) =
     do { (i, b) \<leftarrow> elog_render env v b;
          Some (\<lparr>slot_base = None, slot_count = 0, slot_single = i\<rparr>, b, pool) }"
| "make_arg_slot env packer (Packed k) (b, pool) =
     do { (p, b, pool) \<leftarrow> packer k b pool;
          Some (\<lparr>slot_base = pk_base p, slot_count = pk_count p, slot_single = Iov Null 0\<rparr>, b, pool) }"
| "make_arg_slot env packer (Pack p) (b, pool) =
     Some (\<lparr>slot_base = pk_base p, slot_count = pk_count p, slot_single = Iov Null 0\<rparr>, b, pool)"

fun make_arg_slots ::
    "renv \<Rightarrow> pack_renderers \<Rightarrow> arg list \<Rightarrow> rbuf \<times> iov_ctx option \<Rightarrow> (arg_slot list \<times> rbuf \<times> iov_ctx option) option" where
  "make_arg_slots env packer [] bp = Some ([], bp)"
| "make_arg_slots env packer (x # xs) bp =
     do { (s, bp) \<leftarrow> make_arg_slot env packer x bp; (ss, bp) \<leftarrow> make_arg_slots env packer xs bp; Some (s # ss, bp) }"

text \<open>The vectors of one slot: at most \<open>kPackMax\<close> of a pack; reading past its entries is undefined.\<close>

definition slot_iovs :: "arg_slot \<Rightarrow> iov list option" where
  "slot_iovs a =
     (case slot_base a of
        None \<Rightarrow> Some [slot_single a]
      | Some base \<Rightarrow>
          (let n = (if slot_count a > kPackMax then kPackMax else slot_count a)
           in if n \<le> length base then Some (take n base) else None))"

definition piece_iovs :: "fmt_spec \<Rightarrow> arg_slot list \<Rightarrow> piece \<Rightarrow> iov list option" where
  "piece_iovs sp slots p =
     (if lit_offset p \<noteq> kHoleSentinel then Some [literal_iov sp p]
      else if unat (arg_idx p) < length slots then slot_iovs (slots ! unat (arg_idx p)) else None)"

definition emit_f_pack ::
    "renv \<Rightarrow> user_prologues \<Rightarrow> pack_renderers \<Rightarrow> nat \<Rightarrow> nat \<Rightarrow> LogCtx \<Rightarrow> nat \<Rightarrow> fmt_spec \<Rightarrow> arg list \<Rightarrow> world \<Rightarrow> thread \<Rightarrow>
     (world \<times> thread) option" where
  "emit_f_pack env user packer fuel logger ctx N spec args w th =
     do {
       l \<leftarrow> heap w logger;
       (pro, c, b) \<leftarrow> call_prologue env user (lg_prologue l) ctx (th_pro th) (tls_scratch (th_buf th));
       let NA = (if args = [] then 1 else length args);
       let prev_ctx = th_pool th;
       (slots, b, _) \<leftarrow> make_arg_slots env packer args (b, Some \<lparr>ctx_cap = NA * kPackMax, ctx_pos = 0\<rparr>);
       let arg_slots =
         (if args = [] then [\<lparr>slot_base = None, slot_count = 0, slot_single = Iov Null 0\<rparr>] else slots);
       ps \<leftarrow> those (map (piece_iovs spec arg_slots) (take N (pieces spec)));
       let iov = pro # concat ps @ [newline];
       bytes \<leftarrow> (if length iov \<le> N * kPackMax + 2 then gather (mem b) iov else None);
       w \<leftarrow> emit fuel (lc_level ctx) bytes logger w;
       Some (w, th\<lparr>th_buf := b, th_pro := c, th_pool := prev_ctx\<rparr>)
     }"

section \<open>The parts of a line\<close>

definition thread_ok :: "renv \<Rightarrow> thread \<Rightarrow> bool" where
  "thread_ok env th \<longleftrightarrow> rok env (th_buf th) \<and> cache_ok env (th_pro th)"

text \<open>A time the default prologue prints.\<close>

definition ctx_ok :: "renv \<Rightarrow> LogCtx \<Rightarrow> bool" where
  "ctx_ok env ctx \<longleftrightarrow>
     0 \<le> sint (lc_tp ctx) \<and> tm_ok (localtime_r env (sint (lc_tp ctx) div 1000000000))"

lemma those_map: "\<forall>x \<in> set xs. f x = Some (g x) \<Longrightarrow> those (map f xs) = Some (map g xs)"
  by (induction xs) simp_all

lemma those_None: "x \<in> set xs \<Longrightarrow> f x = None \<Longrightarrow> those (map f xs) = None"
  by (induction xs) (auto split: option.split)

lemma read_range_bytes:
  "in_range 0 (length m) v \<Longrightarrow> read_range m (iov_base v) (iov_len v) = Some (iov_bytes m v)"
  by (auto simp: in_range_def read_range_def iov_bytes_def split: ptr.splits)

lemma gather_bytes:
  "\<forall>v \<in> set iov. in_range 0 (length m) v \<Longrightarrow> gather m iov = Some (map (iov_bytes m) iov)"
  unfolding gather_def by (rule those_map) (simp add: read_range_bytes)

lemma newline_bytes [simp]: "iov_bytes m newline = [CHR 0x0A]" "in_range lo hi newline"
  by (simp_all add: newline_def iov_bytes_def in_range_def)

lemma literal_iov_bytes:
  "piece_ok (length (lit_data sp)) h p \<Longrightarrow> lit_offset p \<noteq> kHoleSentinel \<Longrightarrow>
     in_range lo hi (literal_iov sp p) \<and> iov_bytes m (literal_iov sp p) = piece_text (lit_data sp) f p"
  by (auto simp: literal_iov_def in_range_def iov_bytes_def piece_text_def piece_ok_def)

lemma tls_scratch_ok: "rok env b \<Longrightarrow> rok env (tls_scratch b)"
  by (simp add: tls_scratch_def rok_def rbuf_ok_def)

lemma tls_scratch_pos [simp]: "pos (tls_scratch b) = 0"
  by (simp add: tls_scratch_def)

lemma rok_length4: "rok env b \<Longrightarrow> length (mem b) = 4096"
  by (simp add: rok_def rbuf_ok_def kScratchSize_def)

text \<open>The prologue at the start of the buffer.\<close>

lemma prologue_start:
  assumes "thread_ok env th" "ctx_ok env ctx" "length (prologue_text env ctx) \<le> 4096"
  shows "\<exists>pro c b. default_prologue env ctx (th_pro th) (tls_scratch (th_buf th)) = Some (pro, c, b) \<and>
    cache_ok env c \<and> rok env b \<and> pos b = length (prologue_text env ctx) \<and>
    in_range 0 (pos b) pro \<and> iov_bytes (mem b) pro = prologue_text env ctx"
proof -
  let ?b = "tls_scratch (th_buf th)" and ?s = "prologue_text env ctx"
  obtain c where c: "cache_ok env c" "default_prologue env ctx (th_pro th) ?b =
      do { (v, b1) \<leftarrow> put_iov ?s ?b; Some (v, c, b1) }"
    using prologue_ok assms(1,2) unfolding thread_ok_def ctx_ok_def by blast
  have ok: "rok env ?b" using assms(1) by (simp add: thread_ok_def tls_scratch_ok)
  then have fit: "length ?s \<le> length (mem ?b)" using assms(3) rok_length4 by simp
  then have p: "put_iov ?s ?b = Some (Iov (Scratch 0) (length ?s), write_str ?s ?b)"
    by (simp add: put_iov_Some)
  have "iov_bytes (mem (write_str ?s ?b)) (Iov (Scratch 0) (length ?s)) = ?s"
    using iov_bytes_written [of ?b ?s] fit by simp
  then show ?thesis using c p put_iov_evolves_rok [OF p ok] by (simp add: in_range_def)
qed

text \<open>The header, then the arguments: every vector reads as its text once all are rendered.\<close>

lemma header_and_args:
  assumes "thread_ok env th" "ctx_ok env ctx" "\<forall>x \<in> set args. readable env x"
    "length (prologue_text env ctx) + length (concat (map (shown env) args)) + 32 \<le> 4096"
  shows "\<exists>pro c b1 vs b2. default_prologue env ctx (th_pro th) (tls_scratch (th_buf th)) = Some (pro, c, b1) \<and>
    render_seq (elog_render env) args b1 = Some (vs, b2) \<and> cache_ok env c \<and> rok env b2 \<and>
    in_range 0 4096 pro \<and> iov_bytes (mem b2) pro = prologue_text env ctx \<and> length vs = length args \<and>
    (\<forall>v \<in> set vs. in_range 0 4096 v) \<and> map (iov_bytes (mem b2)) vs = map (shown env) args"
proof -
  have "length (prologue_text env ctx) \<le> 4096" using assms(4) by simp
  from prologue_start [OF assms(1,2) this]
  obtain pro c b1 where p: "default_prologue env ctx (th_pro th) (tls_scratch (th_buf th)) = Some (pro, c, b1)"
    "cache_ok env c" "rok env b1" "pos b1 = length (prologue_text env ctx)" "in_range 0 (pos b1) pro"
    "iov_bytes (mem b1) pro = prologue_text env ctx" by blast
  obtain vs b2 where r: "render_seq (elog_render env) args b1 = Some (vs, b2)"
    "pos b2 \<le> pos b1 + length (concat (map (shown env) args))"
    "map (iov_bytes (mem b2)) vs = map (shown env) args"
    using rendered.seq_renders [OF p(3) assms(3)] assms(4) p(4) by (auto simp: kScratchSize_def)
  note f = rendered.seq_frame [OF r(1) p(3) assms(3)]
  have "in_range 0 4096 v" if "v \<in> set vs" for v
    using f that r(2) assms(4) p(4) in_range_mono [of "pos b1" "pos b2" v 0 4096] by auto
  moreover have "in_range 0 4096 pro" using p(5) p(4) assms(4) in_range_mono [OF p(5)] by auto
  moreover have "iov_bytes (mem b2) pro = prologue_text env ctx"
    using iov_bytes_extends [of b1 b2 0 pro] p(5,6) f by simp
  ultimately show ?thesis using p r f by blast
qed

section \<open>The line of the fast path\<close>

lemma fast_pieces:
  assumes ok: "\<forall>p \<in> set ps. piece_ok (length (lit_data sp)) h p" and h: "h \<le> length vs"
    and rng: "\<forall>v \<in> set vs. in_range 0 4096 v" and texts: "map (iov_bytes m) vs = map t args"
  shows "\<exists>ivs. those (map (piece_iov sp vs) ps) = Some ivs \<and> length ivs = length ps \<and>
    (\<forall>v \<in> set ivs. in_range 0 4096 v) \<and>
    concat (map (iov_bytes m) ivs) = pieces_text (lit_data sp) (\<lambda>k. t (args ! k)) ps"
proof -
  let ?g = "\<lambda>p. the (piece_iov sp vs p)"
  have every: "piece_iov sp vs p = Some (?g p) \<and> in_range 0 4096 (?g p) \<and>
      iov_bytes m (?g p) = piece_text (lit_data sp) (\<lambda>k. t (args ! k)) p" if "p \<in> set ps" for p
  proof (cases "lit_offset p = kHoleSentinel")
    case False
    moreover have "piece_ok (length (lit_data sp)) h p" using ok that by blast
    ultimately show ?thesis using literal_iov_bytes [of sp h p] by (simp add: piece_iov_def)
  next
    case True
    then have i: "unat (arg_idx p) < length vs" using ok that h by (fastforce simp: piece_ok_def)
    have "length vs = length args" using texts by (metis length_map)
    then have "iov_bytes m (vs ! unat (arg_idx p)) = t (args ! unat (arg_idx p))"
      using texts i by (metis nth_map)
    then show ?thesis using True i rng by (simp add: piece_iov_def piece_text_def)
  qed
  have "those (map (piece_iov sp vs) ps) = Some (map ?g ps)"
    by (rule those_map) (use every in blast)
  moreover have "map (iov_bytes m) (map ?g ps) = map (piece_text (lit_data sp) (\<lambda>k. t (args ! k))) ps"
    using every by simp
  ultimately show ?thesis
    using every by (intro exI [of _ "map ?g ps"]) (simp only: pieces_text_def set_map length_map, blast)
qed

lemma emit_f_fast_line:
  assumes th: "thread_ok env th" and ctx: "ctx_ok env ctx" and args: "\<forall>x \<in> set args. readable env x"
    and room: "length (prologue_text env ctx) + length (concat (map (shown env) args)) + 32 \<le> 4096"
    and l: "heap w a = Some l" "lg_prologue l = Default_Prologue"
    and fmt: "count_lit_chars s \<le> 65535" "holes (scan s) \<le> length args" "length args \<le> 65535"
  shows "\<exists>spec iov th'. make_spec (count_pieces s) (count_lit_chars s) s = Some spec \<and>
    length iov = count_pieces s + 2 \<and>
    concat iov = prologue_text env ctx @ fill (scan s) (\<lambda>k. shown env (args ! k)) 0 @ [CHR 0x0A] \<and>
    last iov = [CHR 0x0A] \<and> thread_ok env th' \<and> th_pool th' = th_pool th \<and>
    emit_f_fast env user fuel a ctx (count_pieces s) spec args w th =
      map_option (\<lambda>w'. (w', th')) (emit fuel (lc_level ctx) iov a w)"
proof -
  have "holes (scan s) \<le> 65535" using fmt(2,3) by simp
  from make_spec_scan [OF fmt(1) this]
  obtain sp where sp: "make_spec (count_pieces s) (count_lit_chars s) s = Some sp"
    "hole_count sp = holes (scan s)" "count_pieces s \<le> length (pieces sp)"
    "\<forall>p \<in> set (take (count_pieces s) (pieces sp)). piece_ok (length (lit_data sp)) (hole_count sp) p"
    "\<And>t. pieces_text (lit_data sp) t (take (count_pieces s) (pieces sp)) = fill (scan s) t 0" by blast
  obtain pro c b1 vs b2 where h:
    "default_prologue env ctx (th_pro th) (tls_scratch (th_buf th)) = Some (pro, c, b1)"
    "render_seq (elog_render env) args b1 = Some (vs, b2)" "cache_ok env c" "rok env b2"
    "in_range 0 4096 pro" "iov_bytes (mem b2) pro = prologue_text env ctx" "length vs = length args"
    "\<forall>v \<in> set vs. in_range 0 4096 v" "map (iov_bytes (mem b2)) vs = map (shown env) args"
    using header_and_args [OF th ctx args room] by blast
  have "hole_count sp \<le> length vs" using sp(2) fmt(2) h(7) by simp
  from fast_pieces [OF sp(4) this h(8,9)]
  obtain ivs where ivs: "those (map (piece_iov sp vs) (take (count_pieces s) (pieces sp))) = Some ivs"
    "length ivs = count_pieces s" "\<forall>v \<in> set ivs. in_range 0 4096 v"
    "concat (map (iov_bytes (mem b2)) ivs) = fill (scan s) (\<lambda>k. shown env (args ! k)) 0"
    using sp(3,5) by auto
  have arg_iovs: "those (map (piece_iov sp (if args = [] then [Iov Null 0] else vs)) (take (count_pieces s) (pieces sp))) = Some ivs"
  proof (cases "args = []")
    case True
    then have "hole_count sp = 0" "vs = []" using fmt(2) sp(2) h(7) by simp_all
    then have "piece_iov sp [Iov Null 0] p = piece_iov sp vs p"
      if "p \<in> set (take (count_pieces s) (pieces sp))" for p
      using sp(4) that by (auto simp: piece_iov_def piece_ok_def split: if_splits)
    then have "map (piece_iov sp [Iov Null 0]) (take (count_pieces s) (pieces sp)) =
        map (piece_iov sp vs) (take (count_pieces s) (pieces sp))" by simp
    then show ?thesis using ivs(1) by (simp only: True if_True simp_thms)
  qed (use ivs(1) in simp)
  let ?all = "pro # ivs @ [newline]"
  have g: "gather (mem b2) ?all = Some (map (iov_bytes (mem b2)) ?all)"
    using h(5) ivs(3) rok_length4 [OF h(4)] by (intro gather_bytes) auto
  have "emit_f_fast env user fuel a ctx (count_pieces s) sp args w th =
      map_option (\<lambda>w'. (w', th\<lparr>th_buf := b2, th_pro := c\<rparr>)) (emit fuel (lc_level ctx) (map (iov_bytes (mem b2)) ?all) a w)"
    using l h(1,2) arg_iovs g ivs(2)
    by (simp add: emit_f_fast_def Let_def map_conv_bind_option comp_def)
  moreover have "thread_ok env (th\<lparr>th_buf := b2, th_pro := c\<rparr>)" using h(3,4) by (simp add: thread_ok_def)
  ultimately show ?thesis
    using sp(1) ivs(2,4) h(6)
    by (intro exI [of _ sp] exI [of _ "map (iov_bytes (mem b2)) ?all"] exI [of _ "th\<lparr>th_buf := b2, th_pro := c\<rparr>"])
      simp
qed

section \<open>The pack path\<close>

lemma pack_values_slots:
  "make_arg_slots env packer (map Value args) (b, pool) =
     do { (vs, b) \<leftarrow> render_seq (elog_render env) args b;
          Some (map (\<lambda>v. \<lparr>slot_base = None, slot_count = 0, slot_single = v\<rparr>) vs, b, pool) }"
proof (induction args arbitrary: b)
  case (Cons x xs)
  show ?case
  proof (cases "elog_render env x b")
    case (Some vb)
    then show ?thesis using Cons.IH [of "snd vb"] by (cases vb) (auto split: bind_split)
  qed simp
qed simp

lemma piece_iovs_values:
  "piece_iovs sp (map (\<lambda>v. \<lparr>slot_base = None, slot_count = 0, slot_single = v\<rparr>) vs) p =
     map_option (\<lambda>v. [v]) (piece_iov sp vs p)"
  by (simp add: piece_iovs_def piece_iov_def slot_iovs_def)

lemma those_map_option: "those (map (\<lambda>x. map_option g (f x)) xs) = map_option (map g) (those (map f xs))"
  by (induction xs) (auto split: option.split simp: option.map_comp o_def)

lemma those_length: "those xs = Some ys \<Longrightarrow> length ys = length xs"
  by (induction xs arbitrary: ys) (auto split: option.splits)

lemma concat_singles: "concat (map (\<lambda>v. [v]) vs) = vs"
  by (induction vs) simp_all

text \<open>What a pack contributes: the bytes of its first \<open>kPackMax\<close> entries.\<close>

definition pack_entries :: "iov_pack \<Rightarrow> iov list" where
  "pack_entries p = (case pk_base p of None \<Rightarrow> [] | Some base \<Rightarrow> take (min (pk_count p) kPackMax) base)"

fun arg_text :: "renv \<Rightarrow> (nat \<Rightarrow> string) \<Rightarrow> arg \<Rightarrow> string" where
  "arg_text env packed (Value v) = shown env v"
| "arg_text env packed (Pack p) = concat (map (iov_bytes []) (pack_entries p))"
| "arg_text env packed (Packed k) = packed k"

text \<open>A slot whose vectors lie below \<open>hi\<close> (or in borrowed memory) and read as \<open>t\<close>.\<close>

definition slot_shows :: "nat \<Rightarrow> byte list \<Rightarrow> arg_slot \<Rightarrow> string \<Rightarrow> bool" where
  "slot_shows hi m a t \<longleftrightarrow>
     (\<exists>ivs. slot_iovs a = Some ivs \<and> length ivs \<le> kPackMax \<and> (\<forall>v \<in> set ivs. in_range 0 hi v) \<and>
        concat (map (iov_bytes m) ivs) = t)"

text \<open>
  What the contract asks of a renderer that returns a pack: text in the scratch buffer from the cursor
  on or in borrowed memory, and at most \<open>kPackMax\<close> entries of the pool, which has room for them. The entries
  of a pack passed directly are borrowed.
\<close>

definition pool_room :: "nat \<Rightarrow> iov_ctx option \<Rightarrow> bool" where
  "pool_room n pool \<longleftrightarrow> (\<exists>c. pool = Some c \<and> ctx_pos c + n \<le> ctx_cap c)"

definition pool_used :: "iov_ctx option \<Rightarrow> iov_ctx option \<Rightarrow> bool" where
  "pool_used pool pool' \<longleftrightarrow> (\<forall>n. pool_room (kPackMax + n) pool \<longrightarrow> pool_room n pool')"

lemma pool_used_refl [simp]: "pool_used pool pool"
  by (auto simp: pool_used_def pool_room_def)

lemma pool_room_mono: "pool_room n pool \<Longrightarrow> m \<le> n \<Longrightarrow> pool_room m pool"
  by (auto simp: pool_room_def)

lemma alloc_pool_used: "k \<le> kPackMax \<Longrightarrow> pool_used pool (snd (iov_scratch_alloc k pool))"
  by (auto simp: pool_used_def pool_room_def iov_scratch_alloc_def)

lemma alloc_room: "pool_room kPackMax pool \<Longrightarrow> k \<le> kPackMax \<Longrightarrow> fst (iov_scratch_alloc k pool) \<noteq> None"
  by (auto simp: pool_room_def iov_scratch_alloc_def)

fun arg_ok :: "renv \<Rightarrow> pack_renderers \<Rightarrow> (nat \<Rightarrow> string) \<Rightarrow> arg \<Rightarrow> bool" where
  "arg_ok env packer packed (Value v) \<longleftrightarrow> readable env v"
| "arg_ok env packer packed (Pack p) \<longleftrightarrow>
     (case pk_base p of None \<Rightarrow> True
      | Some base \<Rightarrow> min (pk_count p) kPackMax \<le> length base \<and>
          (\<forall>v \<in> set (pack_entries p). in_range 0 0 v \<and> (\<forall>a. iov_base v \<noteq> Scratch a)))"
| "arg_ok env packer packed (Packed k) \<longleftrightarrow>
     (\<forall>b pool. rok env b \<and> pos b + length (packed k) + 32 \<le> 4096 \<and> pool_room kPackMax pool \<longrightarrow>
        (\<exists>p b' pool'. packer k b pool = Some (p, b', pool') \<and> rok env b' \<and> extends b b' \<and> pool_used pool pool' \<and>
           pos b' \<le> pos b + length (packed k) \<and>
           slot_shows (pos b') (mem b') \<lparr>slot_base = pk_base p, slot_count = pk_count p, slot_single = Iov Null 0\<rparr>
             (packed k)))"

lemma slot_shows_extends:
  assumes "slot_shows (pos b) (mem b) a t" "extends b b'"
  shows "slot_shows (pos b') (mem b') a t"
proof -
  obtain ivs where ivs: "slot_iovs a = Some ivs" "length ivs \<le> kPackMax" "\<forall>v \<in> set ivs. in_range 0 (pos b) v"
    "concat (map (iov_bytes (mem b)) ivs) = t"
    using assms(1) by (auto simp: slot_shows_def)
  have "map (iov_bytes (mem b')) ivs = map (iov_bytes (mem b)) ivs"
    using iov_bytes_extends [OF assms(2)] ivs(3) by auto
  then have "concat (map (iov_bytes (mem b')) ivs) = t" using ivs(4) by (simp only:)
  moreover have "\<forall>v \<in> set ivs. in_range 0 (pos b') v"
    using ivs(3) assms(2) in_range_mono [of 0 "pos b" _ 0 "pos b'"] by (auto simp: extends_def)
  ultimately show ?thesis using ivs by (auto simp: slot_shows_def)
qed

lemma make_arg_slot_ok:
  assumes "arg_ok env packer packed x" "rok env b" "pos b + length (arg_text env packed x) + 32 \<le> 4096"
    "pool_room kPackMax pool"
  shows "\<exists>a b' pool'. make_arg_slot env packer x (b, pool) = Some (a, b', pool') \<and> rok env b' \<and> extends b b' \<and> pool_used pool pool' \<and>
    pos b' \<le> pos b + length (arg_text env packed x) \<and> slot_shows (pos b') (mem b') a (arg_text env packed x)"
proof (cases x)
  case (Value v)
  obtain i b' where r: "elog_render env v b = Some (i, b')" "pos b' \<le> pos b + length (shown env v)"
    "iov_bytes (mem b') i = shown env v"
    using rendered.renders [of env b v] assms Value by (auto simp: kScratchSize_def)
  have "in_range 0 (pos b') i"
    using rendered.region [OF r(1) assms(2)] assms(1) Value in_range_mono [of "pos b" "pos b'" i 0 "pos b'"] by simp
  then show ?thesis
    using Value r rendered.ok_keep [OF r(1) assms(2)] rendered.frame [OF r(1) assms(2)] assms(1)
    by (auto simp: slot_shows_def slot_iovs_def kPackMax_def)
next
  case (Pack p)
  have borrowed: "in_range 0 0 v \<and> (\<forall>a. iov_base v \<noteq> Scratch a)" if "v \<in> set (pack_entries p)" for v
  proof (cases "pk_base p")
    case None
    then show ?thesis using that by (simp add: pack_entries_def)
  next
    case (Some base)
    then show ?thesis using assms(1) that Pack by simp
  qed
  have "iov_bytes m v = iov_bytes [] v" if "v \<in> set (pack_entries p)" for m v
    using borrowed [OF that] by (simp add: iov_bytes_def split: ptr.split)
  then have t: "map (iov_bytes m) (pack_entries p) = map (iov_bytes []) (pack_entries p)" for m
    by (rule map_cong [OF refl])
  have rng: "\<forall>v \<in> set (pack_entries p). in_range 0 hi v" for hi
    using borrowed in_range_mono [of 0 0 _ 0 hi] by blast
  have "slot_shows (pos b) (mem b) \<lparr>slot_base = pk_base p, slot_count = pk_count p, slot_single = Iov Null 0\<rparr>
      (arg_text env packed x)"
  proof (cases "pk_base p")
    case None
    then show ?thesis
      using Pack by (simp add: slot_shows_def slot_iovs_def pack_entries_def in_range_def iov_bytes_def kPackMax_def)
  next
    case (Some base)
    then have "slot_iovs \<lparr>slot_base = pk_base p, slot_count = pk_count p, slot_single = Iov Null 0\<rparr> =
        Some (pack_entries p)"
      using assms(1) Pack by (auto simp: slot_iovs_def pack_entries_def Let_def min_def not_less split: if_splits)
    moreover have "length (pack_entries p) \<le> kPackMax" using Some by (simp add: pack_entries_def)
    ultimately show ?thesis using Pack rng t unfolding slot_shows_def by (metis arg_text.simps(2))
  qed
  then show ?thesis using Pack assms(2) by simp
next
  case (Packed k)
  have "rok env b \<and> pos b + length (packed k) + 32 \<le> 4096 \<and> pool_room kPackMax pool" using assms(2-4) Packed by simp
  moreover have "arg_ok env packer packed (Packed k)" using assms(1) Packed by (simp only:)
  ultimately obtain p b' pool' where "packer k b pool = Some (p, b', pool')" "rok env b'" "extends b b'" "pool_used pool pool'"
    "pos b' \<le> pos b + length (packed k)"
    "slot_shows (pos b') (mem b') \<lparr>slot_base = pk_base p, slot_count = pk_count p, slot_single = Iov Null 0\<rparr> (packed k)"
    unfolding arg_ok.simps by blast
  then show ?thesis using Packed by simp
qed

lemma make_arg_slots_ok:
  "\<forall>x \<in> set xs. arg_ok env packer packed x \<Longrightarrow> rok env b \<Longrightarrow>
     pos b + length (concat (map (arg_text env packed) xs)) + 32 \<le> 4096 \<Longrightarrow> pool_room (length xs * kPackMax) pool \<Longrightarrow>
   \<exists>as b' pool'. make_arg_slots env packer xs (b, pool) = Some (as, b', pool') \<and> rok env b' \<and> extends b b' \<and>
     pos b' \<le> pos b + length (concat (map (arg_text env packed) xs)) \<and>
     list_all2 (slot_shows (pos b') (mem b')) as (map (arg_text env packed) xs)"
proof (induction xs arbitrary: b pool)
  case (Cons x xs)
  have "arg_ok env packer packed x" "pos b + length (arg_text env packed x) + 32 \<le> 4096" "pool_room kPackMax pool"
    using Cons.prems pool_room_mono [OF Cons.prems(4)] by simp_all
  from make_arg_slot_ok [OF this(1) Cons.prems(2) this(2,3)]
  obtain a b1 pool1 where a: "make_arg_slot env packer x (b, pool) = Some (a, b1, pool1)" "rok env b1" "extends b b1"
    "pool_used pool pool1"
    "pos b1 \<le> pos b + length (arg_text env packed x)" "slot_shows (pos b1) (mem b1) a (arg_text env packed x)"
    by blast
  obtain as b2 pool2 where as: "make_arg_slots env packer xs (b1, pool1) = Some (as, b2, pool2)" "rok env b2"
    "extends b1 b2" "pos b2 \<le> pos b1 + length (concat (map (arg_text env packed) xs))"
    "list_all2 (slot_shows (pos b2) (mem b2)) as (map (arg_text env packed) xs)"
    using Cons.IH [OF _ a(2), of pool1] Cons.prems a(4,5) by (auto simp: pool_used_def)
  then show ?case
    using a slot_shows_extends [OF a(6) as(3)] extends_trans [OF a(3) as(3)]
    by (intro exI [of _ "a # as"] exI [of _ b2] exI [of _ pool2]) simp
qed simp

lemma pack_pieces:
  assumes ok: "\<forall>p \<in> set ps. piece_ok (length (lit_data sp)) h p" and h: "h \<le> length slots"
    and slots: "list_all2 (slot_shows 4096 m) slots ts"
  shows "\<exists>ivss. those (map (piece_iovs sp slots) ps) = Some ivss \<and> length (concat ivss) \<le> length ps * kPackMax \<and>
    (\<forall>v \<in> set (concat ivss). in_range 0 4096 v) \<and>
    concat (map (iov_bytes m) (concat ivss)) = pieces_text (lit_data sp) (\<lambda>k. ts ! k) ps"
  using ok
proof (induction ps)
  case Nil
  then show ?case by (simp add: pieces_text_def)
next
  case (Cons p ps)
  have "\<exists>ivs. piece_iovs sp slots p = Some ivs \<and> length ivs \<le> kPackMax \<and> (\<forall>v \<in> set ivs. in_range 0 4096 v) \<and>
      concat (map (iov_bytes m) ivs) = piece_text (lit_data sp) (\<lambda>k. ts ! k) p"
  proof (cases "lit_offset p = kHoleSentinel")
    case False
    moreover have "piece_ok (length (lit_data sp)) h p" using Cons.prems by simp
    ultimately show ?thesis
      using literal_iov_bytes [of sp h p] by (simp add: piece_iovs_def kPackMax_def)
  next
    case True
    then have i: "unat (arg_idx p) < length slots" using Cons.prems h by (simp add: piece_ok_def)
    then have "slot_shows 4096 m (slots ! unat (arg_idx p)) (ts ! unat (arg_idx p))"
      using slots by (simp add: list_all2_nthD)
    then show ?thesis using True i by (simp add: piece_iovs_def slot_shows_def piece_text_def)
  qed
  then obtain ivs where ivs: "piece_iovs sp slots p = Some ivs" "length ivs \<le> kPackMax"
    "\<forall>v \<in> set ivs. in_range 0 4096 v" "concat (map (iov_bytes m) ivs) = piece_text (lit_data sp) (\<lambda>k. ts ! k) p"
    by blast
  obtain ivss where "those (map (piece_iovs sp slots) ps) = Some ivss" "length (concat ivss) \<le> length ps * kPackMax"
    "\<forall>v \<in> set (concat ivss). in_range 0 4096 v"
    "concat (map (iov_bytes m) (concat ivss)) = pieces_text (lit_data sp) (\<lambda>k. ts ! k) ps"
    using Cons by auto
  then show ?case using ivs by (intro exI [of _ "ivs # ivss"]) (auto simp: pieces_text_def)
qed

lemma emit_f_pack_line:
  assumes th: "thread_ok env th" and ctx: "ctx_ok env ctx" and args: "\<forall>x \<in> set args. arg_ok env packer packed x"
    and room: "length (prologue_text env ctx) + length (concat (map (arg_text env packed) args)) + 32 \<le> 4096"
    and l: "heap w a = Some l" "lg_prologue l = Default_Prologue"
    and fmt: "count_lit_chars s \<le> 65535" "holes (scan s) \<le> length args" "length args \<le> 65535" "args \<noteq> []"
  shows "\<exists>spec iov th'. make_spec (count_pieces s) (count_lit_chars s) s = Some spec \<and>
    length iov \<le> count_pieces s * kPackMax + 2 \<and> iov \<noteq> [] \<and> last iov = [CHR 0x0A] \<and>
    concat iov = prologue_text env ctx @ fill (scan s) (\<lambda>k. map (arg_text env packed) args ! k) 0 @ [CHR 0x0A] \<and>
    thread_ok env th' \<and> th_pool th' = th_pool th \<and>
    emit_f_pack env user packer fuel a ctx (count_pieces s) spec args w th =
      map_option (\<lambda>w'. (w', th')) (emit fuel (lc_level ctx) iov a w)"
proof -
  let ?N = "count_pieces s" and ?pool = "Some \<lparr>ctx_cap = length args * kPackMax, ctx_pos = 0\<rparr>"
  let ?ts = "map (arg_text env packed) args"
  have "holes (scan s) \<le> 65535" using fmt(2,3) by simp
  from make_spec_scan [OF fmt(1) this]
  obtain sp where sp: "make_spec ?N (count_lit_chars s) s = Some sp"
    "hole_count sp = holes (scan s)" "?N \<le> length (pieces sp)"
    "\<forall>p \<in> set (take ?N (pieces sp)). piece_ok (length (lit_data sp)) (hole_count sp) p"
    "\<And>t. pieces_text (lit_data sp) t (take ?N (pieces sp)) = fill (scan s) t 0" by blast
  have "length (prologue_text env ctx) \<le> 4096" using room by simp
  from prologue_start [OF th ctx this]
  obtain pro c b1 where p: "default_prologue env ctx (th_pro th) (tls_scratch (th_buf th)) = Some (pro, c, b1)"
    "cache_ok env c" "rok env b1" "pos b1 = length (prologue_text env ctx)" "in_range 0 (pos b1) pro"
    "iov_bytes (mem b1) pro = prologue_text env ctx" by blast
  obtain as b2 pool2 where r: "make_arg_slots env packer args (b1, ?pool) = Some (as, b2, pool2)" "rok env b2"
    "extends b1 b2" "pos b2 \<le> pos b1 + length (concat ?ts)" "list_all2 (slot_shows (pos b2) (mem b2)) as ?ts"
    using make_arg_slots_ok [OF args p(3), of ?pool] room p(4) by (auto simp: pool_room_def)
  have le: "pos b2 \<le> 4096" using r(4) p(4) room by simp
  have "slot_shows 4096 (mem b2) x t" if "slot_shows (pos b2) (mem b2) x t" for x t
    using that le in_range_mono [of 0 "pos b2" _ 0 4096] unfolding slot_shows_def by blast
  then have slots: "list_all2 (slot_shows 4096 (mem b2)) as ?ts"
    by (rule list_all2_mono [OF r(5)])
  have "hole_count sp \<le> length as" using sp(2) fmt(2) list_all2_lengthD [OF slots] by simp
  from pack_pieces [OF sp(4) this slots]
  obtain ivss where ivss: "those (map (piece_iovs sp as) (take ?N (pieces sp))) = Some ivss"
    "length (concat ivss) \<le> ?N * kPackMax" "\<forall>v \<in> set (concat ivss). in_range 0 4096 v"
    "concat (map (iov_bytes (mem b2)) (concat ivss)) = fill (scan s) (\<lambda>k. ?ts ! k) 0"
    using sp(3,5) by auto
  let ?all = "pro # concat ivss @ [newline]"
  have pro: "in_range 0 4096 pro" "iov_bytes (mem b2) pro = prologue_text env ctx"
    using p(4-6) room in_range_mono [OF p(5), of 0 4096] iov_bytes_extends [OF r(3) p(5)] by simp_all
  have g: "gather (mem b2) ?all = Some (map (iov_bytes (mem b2)) ?all)"
    using pro(1) ivss(3) rok_length4 [OF r(2)] by (intro gather_bytes) auto
  let ?th = "th\<lparr>th_buf := b2, th_pro := c, th_pool := th_pool th\<rparr>"
  have "emit_f_pack env user packer fuel a ctx ?N sp args w th =
      map_option (\<lambda>w'. (w', ?th)) (emit fuel (lc_level ctx) (map (iov_bytes (mem b2)) ?all) a w)"
    unfolding emit_f_pack_def Let_def
    using l p(1) r(1) ivss(1,2) g fmt(4) by (simp add: map_conv_bind_option comp_def)
  moreover have "thread_ok env ?th" using r(2) p(2) by (simp add: thread_ok_def)
  moreover have "concat (map (iov_bytes (mem b2)) ?all) =
      prologue_text env ctx @ fill (scan s) (\<lambda>k. ?ts ! k) 0 @ [CHR 0x0A]"
    using pro(2) ivss(4) by simp
  ultimately show ?thesis
    using sp(1) ivss(2)
    by (intro exI [of _ sp] exI [of _ "map (iov_bytes (mem b2)) ?all"] exI [of _ ?th]) simp
qed

section \<open>Properties\<close>

text \<open>
  C2: One log call with the default prologue, when header and arguments leave 32 bytes of the scratch
  buffer free and ties lead to live loggers: the call returns, ready for the next one, and has
  delivered one line, in two vectors more than the format has pieces: the header, the format with its
  holes filled by the arguments' texts in order, and a newline. It went to the own sinks of exactly the
  loggers reachable through ties, once for each simple chain of them.
\<close>

theorem log_line:
  assumes "thread_ok env th" "ctx_ok env ctx" "\<forall>x \<in> set args. readable env x"
    "length (prologue_text env ctx) + length (concat (map (shown env) args)) + 32 \<le> 4096"
    "heap w a = Some l" "lg_prologue l = Default_Prologue"
    "count_lit_chars s \<le> 65535" "holes (scan s) \<le> length args" "length args \<le> 65535"
    "world_ok w" "closed w" "world_safe w" "visited w = {}" "card (dom (heap w)) < fuel"
  shows "\<exists>spec iov as w' th'. make_spec (count_pieces s) (count_lit_chars s) s = Some spec \<and>
    emit_f_fast env user fuel a ctx (count_pieces s) spec args w th = Some (w', th') \<and> thread_ok env th' \<and>
    length iov = count_pieces s + 2 \<and>
    concat iov = prologue_text env ctx @ fill (scan s) (\<lambda>k. shown env (args ! k)) 0 @ [CHR 0x0A] \<and>
    deliver (lc_level ctx) iov as w = Some w' \<and> visited w' = {} \<and>
    (\<forall>b. count_list as b = card (chains (ties_of w) {} a b)) \<and> set as = {b. (tied (ties_of w))\<^sup>*\<^sup>* a b}"
proof -
  obtain spec iov th' where e: "make_spec (count_pieces s) (count_lit_chars s) s = Some spec" "length iov = count_pieces s + 2"
    "concat iov = prologue_text env ctx @ fill (scan s) (\<lambda>k. shown env (args ! k)) 0 @ [CHR 0x0A]" "thread_ok env th'"
    "emit_f_fast env user fuel a ctx (count_pieces s) spec args w th =
      map_option (\<lambda>w'. (w', th')) (emit fuel (lc_level ctx) iov a w)"
    using emit_f_fast_line [OF assms(1-9)] by blast
  have "a \<in> dom (heap w)" using assms(5) by auto
  from emit_reaches [OF assms(10-13) this assms(14), of "lc_level ctx" iov] e show ?thesis by auto
qed

definition sample_env2 :: renv where
  "sample_env2 = \<lparr>fmt_fixed = \<lambda>_ _. [], fmt_Lg = \<lambda>_. [],
    localtime_r = \<lambda>_. \<lparr>tm_year = 124, tm_mon = 0, tm_mday = 9, tm_hour = 8, tm_min = 7, tm_sec = 6\<rparr>,
    this_thread = 7, gettid = 5, hash_tid = \<lambda>_. 0, user_render = \<lambda>_ _. None, user_text = \<lambda>_. []\<rparr>"

definition sample_thread :: thread where
  "sample_thread = \<lparr>th_buf = \<lparr>mem = replicate 4096 (CHR ''?''), pos = 0, tid_cache = 0\<rparr>,
     th_pro = fresh_cache, th_pool = None\<rparr>"

lemma sample_line_facts:
  "thread_ok sample_env2 sample_thread" "ctx_ok sample_env2 sample_ctx"
  "prologue_text sample_env2 sample_ctx = ''2024-01-09 08:07:06.001500 WARN [5] io.cpp:42 | ''"
proof -
  have "replicate 2 (CHR ''0'') = ''00''" by (simp add: numeral_2_eq_2)
  then show "prologue_text sample_env2 sample_ctx = ''2024-01-09 08:07:06.001500 WARN [5] io.cpp:42 | ''"
    by (simp add: prologue_text_def sample_ctx_def date_text_def zero_pad_def radix_str.simps digit_char_def
        char_of_def bit_Suc_0_iff tid_value_def base_name_def int_str_def sample_env2_def)
  show "ctx_ok sample_env2 sample_ctx" by (simp add: ctx_ok_def sample_ctx_def sample_env2_def tm_ok_def)
  show "thread_ok sample_env2 sample_thread"
    by (simp add: thread_ok_def sample_thread_def rok_def rbuf_ok_def kScratchSize_def cache_ok_def fresh_cache_def)
qed

theorem log_line_witness:
  "\<exists>spec iov as w' th'. make_spec (count_pieces ''{}!'') (count_lit_chars ''{}!'') ''{}!'' = Some spec \<and>
    emit_f_fast sample_env2 (\<lambda>_ _ _. None) 5 1 sample_ctx (count_pieces ''{}!'') spec [VBool True] diamond sample_thread =
      Some (w', th') \<and>
    concat iov = ''2024-01-09 08:07:06.001500 WARN [5] io.cpp:42 | true!'' @ [CHR 0x0A] \<and>
    deliver WARN iov as diamond = Some w' \<and> set as = {b. (tied (ties_of diamond))\<^sup>*\<^sup>* 1 b}"
proof -
  have f: "count_lit_chars ''{}!'' \<le> 65535" "holes (scan ''{}!'') \<le> length [VBool True]"
    "fill (scan ''{}!'') (\<lambda>k. shown sample_env2 ([VBool True] ! k)) 0 = ''true!''"
    by (simp_all add: count_lit_chars_def peek_def)
  have l: "heap diamond 1 = Some (test_logger 3 [2, 3])" by (simp add: diamond_def)
  have room: "length (prologue_text sample_env2 sample_ctx) + length (concat (map (shown sample_env2) [VBool True])) + 32 \<le> 4096"
    unfolding sample_line_facts(3) by simp
  have "lg_prologue (test_logger 3 [2, 3]) = Default_Prologue" by (simp add: test_logger_def new_logger_def)
  from log_line [OF sample_line_facts(1,2) _ room l this f(1,2) _ diamond_facts(1-4), of 5 "\<lambda>_ _ _. None"] diamond_facts(5)
  show ?thesis unfolding f(3) sample_line_facts(3) by (simp add: sample_ctx_def) blast
qed

text \<open>From the rendered arguments on, the two paths assemble and emit the same line.\<close>

lemma assemble_values:
  fixes args :: "val list"
  shows "(do { ps \<leftarrow> those (map (piece_iovs spec (if map Value args = [] then [\<lparr>slot_base = None, slot_count = 0, slot_single = Iov Null 0\<rparr>]
              else map (\<lambda>v. \<lparr>slot_base = None, slot_count = 0, slot_single = v\<rparr>) vs)) (take N (pieces spec)));
         let iov = pro # concat ps @ [newline];
         bytes \<leftarrow> (if length iov \<le> N * kPackMax + 2 then gather (mem b) iov else None);
         w \<leftarrow> emit fuel (lc_level ctx) bytes a w;
         Some (w, th\<lparr>th_buf := b, th_pro := c, th_pool := th_pool th\<rparr>) }) =
      (do { ps \<leftarrow> those (map (piece_iov spec (if args = [] then [Iov Null 0] else vs)) (take N (pieces spec)));
         let iov = pro # ps @ [newline];
         bytes \<leftarrow> (if length iov \<le> N + 2 then gather (mem b) iov else None);
         w \<leftarrow> emit fuel (lc_level ctx) bytes a w;
         Some (w, th\<lparr>th_buf := b, th_pro := c\<rparr>) })"
proof -
  let ?slot = "\<lambda>v. \<lparr>slot_base = None, slot_count = 0, slot_single = v\<rparr>"
  let ?ai = "if args = [] then [Iov Null 0] else vs"
  have slots: "(if map Value args = [] then [?slot (Iov Null 0)] else map ?slot vs) = map ?slot ?ai" by simp
  show ?thesis
  proof (cases "those (map (piece_iov spec ?ai) (take N (pieces spec)))")
    case None
    then show ?thesis unfolding slots piece_iovs_values those_map_option by simp
  next
    case (Some ps)
    have "length ps = length (take N (pieces spec))" using those_length [OF Some] by simp
    then have "length ps \<le> N" by simp
    moreover have "th\<lparr>th_buf := b, th_pro := c, th_pool := th_pool th\<rparr> = th\<lparr>th_buf := b, th_pro := c\<rparr>"
      by (cases th) simp
    ultimately show ?thesis
      unfolding slots piece_iovs_values those_map_option Some
      by (simp add: concat_singles kPackMax_def)
  qed
qed

text \<open>
  C30: When no argument is a pack, the overload for packs does exactly what the fast one does, for every
  prologue, format and state, undefined behaviour included: the two compile-time paths of \<open>emit_f\<close>
  agree.
\<close>

theorem pack_path_agrees:
  "emit_f_pack env user packer fuel a ctx N spec (map Value args) w th =
     emit_f_fast env user fuel a ctx N spec args w th"
proof (cases "heap w a")
  case None
  then show ?thesis by (simp add: emit_f_pack_def emit_f_fast_def)
next
  case (Some l)
  show ?thesis
  proof (cases "call_prologue env user (lg_prologue l) ctx (th_pro th) (tls_scratch (th_buf th))")
    case None
    then show ?thesis using Some by (simp add: emit_f_pack_def emit_f_fast_def)
  next
    case pro: (Some x)
    obtain v c b where x: "x = (v, c, b)" by (cases x)
    show ?thesis
    proof (cases "render_seq (elog_render env) args b")
      case None
      then show ?thesis using Some pro x by (simp add: emit_f_pack_def emit_f_fast_def pack_values_slots Let_def)
    next
      case args: (Some y)
      obtain vs b2 where y: "y = (vs, b2)" by (cases y)
      show ?thesis
        unfolding emit_f_pack_def emit_f_fast_def Some pro x args y pack_values_slots bind.bind_lunit prod.case Let_def
        by (rule assemble_values [unfolded Let_def])
    qed
  qed
qed

text \<open>
  C14: A call with packs: no allocation or array of the call overflows, every pack contributes the bytes
  of its first 32 entries at its hole, the line is otherwise the one of the fast path, and the pool
  pointer of the thread is put back.
\<close>

theorem log_line_packs:
  assumes "thread_ok env th" "ctx_ok env ctx" "\<forall>x \<in> set args. arg_ok env packer packed x"
    "length (prologue_text env ctx) + length (concat (map (arg_text env packed) args)) + 32 \<le> 4096"
    "heap w a = Some l" "lg_prologue l = Default_Prologue"
    "count_lit_chars s \<le> 65535" "holes (scan s) \<le> length args" "length args \<le> 65535" "args \<noteq> []"
  shows "\<exists>spec iov th'. make_spec (count_pieces s) (count_lit_chars s) s = Some spec \<and>
    length iov \<le> count_pieces s * kPackMax + 2 \<and>
    concat iov = prologue_text env ctx @ fill (scan s) (\<lambda>k. map (arg_text env packed) args ! k) 0 @ [CHR 0x0A] \<and>
    thread_ok env th' \<and> th_pool th' = th_pool th \<and>
    emit_f_pack env user packer fuel a ctx (count_pieces s) spec args w th =
      map_option (\<lambda>w'. (w', th')) (emit fuel (lc_level ctx) iov a w)"
  using emit_f_pack_line [OF assms, of user fuel] by blast

text \<open>A user's renderer that writes one character and returns it between two borrowed segments.\<close>

definition sample_packer :: pack_renderers where
  "sample_packer k b pool =
     do { b1 \<leftarrow> put_char (CHR ''#'') b; let (q, pool) = iov_scratch_alloc 3 pool;
          _ \<leftarrow> q;
          Some (\<lparr>pk_base = Some [Iov (Ext ''<'') 1, scratch_iov (pos b) b1, Iov (Ext ''>'') 1], pk_count = 3\<rparr>, b1, pool) }"

lemma sample_packer_ok: "arg_ok env sample_packer (\<lambda>_. ''<#>'') (Packed k)"
proof (simp only: arg_ok.simps, intro allI impI)
  fix b pool assume a: "rok env b \<and> pos b + length ''<#>'' + 32 \<le> 4096 \<and> pool_room kPackMax pool"
  then have fit: "pos b + length ''#'' \<le> length (mem b)" using rok_length4 [of env b] by simp
  then have put: "put_char (CHR ''#'') b = Some (write_str ''#'' b)"
    using put_str_fits [OF fit] by (simp add: put_char_put del: put_str.simps)
  have ext: "extends b (write_str ''#'' b)" by (rule extends_write_str) (use fit in simp)
  have ok: "rok env (write_str ''#'' b)" using a fit by (auto simp: rok_def rbuf_ok_def write_str_def)
  have bytes: "iov_bytes (overwrite (pos b) ''#'' (mem b)) (Iov (Scratch (pos b)) (Suc 0)) = ''#''"
    using iov_bytes_written [OF fit] by simp
  obtain q pool' where al: "iov_scratch_alloc 3 pool = (Some q, pool')"
    using alloc_room [of pool 3] a by (cases "iov_scratch_alloc 3 pool") (auto simp: kPackMax_def)
  then have used: "pool_used pool pool'" using alloc_pool_used [of 3 pool] by (simp add: kPackMax_def)
  show "\<exists>p b' pool'. sample_packer k b pool = Some (p, b', pool') \<and> rok env b' \<and> extends b b' \<and> pool_used pool pool' \<and>
      pos b' \<le> pos b + length ''<#>'' \<and>
      slot_shows (pos b') (mem b') \<lparr>slot_base = pk_base p, slot_count = pk_count p, slot_single = Iov Null 0\<rparr> ''<#>''"
    using put ext ok al bytes used
    by (auto simp: sample_packer_def slot_shows_def slot_iovs_def kPackMax_def in_range_def scratch_iov_def iov_bytes_def [of _ "Iov (Ext _) _"])
qed

theorem log_line_packs_witness:
  "\<exists>spec iov th'. make_spec (count_pieces ''{}{}'') (count_lit_chars ''{}{}'') ''{}{}'' = Some spec \<and>
    concat iov = ''2024-01-09 08:07:06.001500 WARN [5] io.cpp:42 | true<#>'' @ [CHR 0x0A] \<and>
    emit_f_pack sample_env2 (\<lambda>_ _ _. None) sample_packer 5 1 sample_ctx (count_pieces ''{}{}'') spec
        [Value (VBool True), Packed 0] diamond sample_thread =
      map_option (\<lambda>w'. (w', th')) (emit 5 WARN iov 1 diamond)"
proof -
  let ?args = "[Value (VBool True), Packed 0]"
  have f: "count_lit_chars ''{}{}'' \<le> 65535" "holes (scan ''{}{}'') \<le> length ?args" "length ?args \<le> 65535" "?args \<noteq> []"
    "fill (scan ''{}{}'') (\<lambda>k. map (arg_text sample_env2 (\<lambda>_. ''<#>'')) ?args ! k) 0 = ''true<#>''"
    by (simp_all add: count_lit_chars_def peek_def)
  have l: "heap diamond 1 = Some (test_logger 3 [2, 3])" by (simp add: diamond_def)
  have d: "lg_prologue (test_logger 3 [2, 3]) = Default_Prologue" by (simp add: test_logger_def new_logger_def)
  have room: "length (prologue_text sample_env2 sample_ctx) +
      length (concat (map (arg_text sample_env2 (\<lambda>_. ''<#>'')) ?args)) + 32 \<le> 4096"
    unfolding sample_line_facts(3) by simp
  have args: "\<forall>x \<in> set ?args. arg_ok sample_env2 sample_packer (\<lambda>_. ''<#>'') x"
    using sample_packer_ok by (simp del: arg_ok.simps(3))
  from log_line_packs [OF sample_line_facts(1,2) args room l d f(1-4), of "\<lambda>_ _ _. None" 5] show ?thesis
    unfolding f(5) sample_line_facts(3) by (simp add: sample_ctx_def) blast
qed

lemma length_fill: "length (fill xs t k) = chars xs + (\<Sum>i < holes xs. length (t (k + i)))"
  by (induction xs t k rule: fill.induct) (simp_all add: sum.lessThan_Suc_shift del: sum.lessThan_Suc)

text \<open>A format with more holes than \<open>n\<close> has a piece that refers to an argument from \<open>n\<close> on.\<close>

lemma hole_beyond:
  assumes "make_spec (count_pieces s) (count_lit_chars s) s = Some spec" "count_lit_chars s \<le> 65535"
    "holes (scan s) \<le> 65535" "n < holes (scan s)"
  shows "\<exists>p \<in> set (take (count_pieces s) (pieces spec)). lit_offset p = kHoleSentinel \<and> n \<le> unat (arg_idx p)"
proof (rule ccontr)
  let ?ps = "take (count_pieces s) (pieces spec)"
  assume "\<not> ?thesis"
  then have all: "\<forall>p \<in> set ?ps. lit_offset p = kHoleSentinel \<longrightarrow> unat (arg_idx p) < n" by (meson not_le)
  have sp: "pieces_text (lit_data spec) t ?ps = fill (scan s) t 0" for t
    using make_spec_scan [OF assms(2,3)] assms(1) by auto
  let ?t = "\<lambda>j. if j = n then [CHR ''x''] else []"
  have "pieces_text (lit_data spec) ?t ?ps = pieces_text (lit_data spec) (\<lambda>_. []) ?ps"
    using all unfolding pieces_text_def by (intro arg_cong [where f = concat] map_cong) (auto simp: piece_text_def)
  then have "length (fill (scan s) ?t 0) = length (fill (scan s) (\<lambda>_. []) 0)" using sp by simp
  then have "(\<Sum>i < holes (scan s). length (?t i)) = 0" by (simp add: length_fill)
  then have "length (?t n) = 0" using assms(4) by (simp only: sum_eq_0_iff [OF finite_lessThan] lessThan_iff)
  then show False by simp
qed

text \<open>
  A format with more holes than the call has arguments (more than one, when it has none) makes
  \<open>emit_f\<close> read past its array of arguments, whatever they are: nothing compares \<open>hole_count\<close> with them.
\<close>

theorem missing_argument:
  assumes "make_spec (count_pieces s) (count_lit_chars s) s = Some spec" "count_lit_chars s \<le> 65535"
    "holes (scan s) \<le> 65535" "max 1 (length args) < holes (scan s)"
  shows "emit_f_fast env user fuel a ctx (count_pieces s) spec args w th = None"
proof -
  obtain p where p: "p \<in> set (take (count_pieces s) (pieces spec))" "lit_offset p = kHoleSentinel"
    "max 1 (length args) \<le> unat (arg_idx p)"
    using hole_beyond [OF assms] by blast
  have none: "those (map (piece_iov spec (if args = [] then [Iov Null 0] else vs)) (take (count_pieces s) (pieces spec))) = None"
    if "length vs = length args" for vs
    by (rule those_None [OF p(1)]) (use p(2,3) that in \<open>auto simp: piece_iov_def\<close>)
  have len: "render_seq r xs b = Some (vs, b') \<Longrightarrow> length vs = length xs" for r xs b vs b'
    by (induction r xs b arbitrary: vs rule: render_seq.induct) (auto simp: bind_eq_Some_conv)
  show ?thesis
  proof (rule ccontr)
    assume "emit_f_fast env user fuel a ctx (count_pieces s) spec args w th \<noteq> None"
    then obtain r where "emit_f_fast env user fuel a ctx (count_pieces s) spec args w th = Some r" by blast
    then obtain vs b b' ps where "render_seq (elog_render env) args b = Some (vs, b')"
      "those (map (piece_iov spec (if args = [] then [Iov Null 0] else vs)) (take (count_pieces s) (pieces spec))) = Some ps"
      unfolding emit_f_fast_def Let_def bind_eq_Some_conv by (auto split: prod.splits simp: bind_eq_Some_conv)
    then show False using none [OF len] by simp
  qed
qed

theorem missing_argument_witness:
  "emit_f_fast sample_env2 (\<lambda>_ _ _. None) 5 1 sample_ctx (count_pieces ''{}{}'')
     (the (make_spec (count_pieces ''{}{}'') (count_lit_chars ''{}{}'') ''{}{}'')) [VBool True] diamond sample_thread = None"
proof -
  have "count_lit_chars ''{}{}'' \<le> 65535" "holes (scan ''{}{}'') = 2" by (simp_all add: count_lit_chars_def peek_def)
  moreover from this have "make_spec (count_pieces ''{}{}'') (count_lit_chars ''{}{}'') ''{}{}'' =
      Some (the (make_spec (count_pieces ''{}{}'') (count_lit_chars ''{}{}'') ''{}{}''))"
    using make_spec_scan [of "''{}{}''"] by auto
  ultimately show ?thesis by (intro missing_argument) simp_all
qed

end
