(* ===== verification/Elog_Dedup.thy ===== *)
theory Elog_Dedup
  imports Elog_Emit
begin

text \<open>
  The collapsing of repeated log sites, \<open>DedupState\<close> and \<open>DedupRegistry\<close> of \<open>src/aggregate.cpp\<close>. The
  sites live at addresses; \<open>g_last_dedup\<close> is the site of the last line. The first part is one thread:
  the operations thread a world of any type \<open>'w\<close>, and what \<open>flush_summary\<close> does with a count is their
  argument \<open>report\<close>; \<open>report_summary\<close> is the code's. The second part is any number of threads: each atomic
  access is a step of its own.
\<close>

section \<open>State\<close>

text \<open>What a call passes to \<open>tick\<close>: the logger, the level, the file, the line.\<close>

record dedup_call =
  dc_logger :: nat
  dc_level :: Level
  dc_file :: string
  dc_line :: u32

record dedup_state =
  dd_suppressed :: u64
  dd_initialized :: bool
  dd_logger :: "nat option"
  dd_level :: Level
  dd_file :: "string option"
  dd_line :: u32

record dedups =
  dd_site :: "nat \<Rightarrow> dedup_state option"
  g_last_dedup :: "nat option"
  dd_states :: "nat list"

definition fresh_dedup :: dedup_state where
  "fresh_dedup = \<lparr>dd_suppressed = 0, dd_initialized = False, dd_logger = None, dd_level = INFO,
     dd_file = None, dd_line = 0\<rparr>"

definition no_dedups :: dedups where
  "no_dedups = \<lparr>dd_site = \<lambda>_. None, g_last_dedup = None, dd_states = []\<rparr>"

definition update_site :: "nat \<Rightarrow> (dedup_state \<Rightarrow> dedup_state) \<Rightarrow> dedups \<Rightarrow> dedups" where
  "update_site a f ds = ds\<lparr>dd_site := (dd_site ds)(a := map_option f (dd_site ds a))\<rparr>"

text \<open>The constructor: \<open>register_dedup\<close> appends the site to the registry.\<close>

definition register_dedup :: "nat \<Rightarrow> dedups \<Rightarrow> dedups" where
  "register_dedup a ds = ds\<lparr>dd_states := dd_states ds @ [a]\<rparr>"

definition new_dedup :: "nat \<Rightarrow> dedups \<Rightarrow> dedups" where
  "new_dedup a ds = register_dedup a (ds\<lparr>dd_site := (dd_site ds)(a \<mapsto> fresh_dedup)\<rparr>)"

text \<open>The winner of the compare-and-swap on \<open>initialized\<close> stores the identity of the site.\<close>

definition publish :: "dedup_call \<Rightarrow> dedup_state \<Rightarrow> dedup_state" where
  "publish c s = s\<lparr>dd_logger := Some (dc_logger c), dd_level := dc_level c, dd_file := Some (dc_file c),
     dd_line := dc_line c\<rparr>"

definition claim :: "dedup_call \<Rightarrow> dedup_state \<Rightarrow> dedup_state" where
  "claim c s = (if dd_initialized s then s else publish c (s\<lparr>dd_initialized := True\<rparr>))"

definition identity :: "dedup_state \<Rightarrow> dedup_call option" where
  "identity s =
     (if dd_logger s = None \<or> dd_file s = None then None
      else Some \<lparr>dc_logger = the (dd_logger s), dc_level = dd_level s, dc_file = the (dd_file s), dc_line = dd_line s\<rparr>)"

section \<open>Operations\<close>

definition flush_summary ::
    "(dedup_call \<Rightarrow> u64 \<Rightarrow> 'w \<Rightarrow> 'w option) \<Rightarrow> nat \<Rightarrow> dedups \<times> 'w \<Rightarrow> (dedups \<times> 'w) option" where
  "flush_summary report a dw =
     (case dd_site (fst dw) a of
        None \<Rightarrow> None
      | Some s \<Rightarrow>
          let n = dd_suppressed s; ds = update_site a (\<lambda>s. s\<lparr>dd_suppressed := 0\<rparr>) (fst dw) in
          if n = 0 then Some (ds, snd dw)
          else
            case identity s of
              None \<Rightarrow> Some (ds, snd dw)
            | Some c \<Rightarrow> map_option (Pair ds) (report c n (snd dw)))"

definition dedup_tick ::
    "(dedup_call \<Rightarrow> u64 \<Rightarrow> 'w \<Rightarrow> 'w option) \<Rightarrow> nat \<Rightarrow> dedup_call \<Rightarrow> dedups \<times> 'w \<Rightarrow> (bool \<times> dedups \<times> 'w) option" where
  "dedup_tick report a c dw =
     (case dd_site (fst dw) a of
        None \<Rightarrow> None
      | Some _ \<Rightarrow>
          let ds = update_site a (claim c) (fst dw) in
          if g_last_dedup ds = Some a then
            Some (False, update_site a (\<lambda>s. s\<lparr>dd_suppressed := dd_suppressed s + 1\<rparr>) ds, snd dw)
          else
            let prev = g_last_dedup ds; ds = ds\<lparr>g_last_dedup := Some a\<rparr> in
            case prev of
              None \<Rightarrow> Some (True, ds, snd dw)
            | Some p \<Rightarrow>
                if p = a then Some (True, ds, snd dw)
                else map_option (Pair True) (flush_summary report p (ds, snd dw)))"

fun flush_summaries ::
    "(dedup_call \<Rightarrow> u64 \<Rightarrow> 'w \<Rightarrow> 'w option) \<Rightarrow> nat list \<Rightarrow> dedups \<times> 'w \<Rightarrow> (dedups \<times> 'w) option" where
  "flush_summaries report [] dw = Some dw"
| "flush_summaries report (a # as) dw = do { dw \<leftarrow> flush_summary report a dw; flush_summaries report as dw }"

definition flush_all_dedup ::
    "(dedup_call \<Rightarrow> u64 \<Rightarrow> 'w \<Rightarrow> 'w option) \<Rightarrow> dedups \<times> 'w \<Rightarrow> (dedups \<times> 'w) option" where
  "flush_all_dedup report dw =
     do { (ds, w) \<leftarrow> flush_summaries report (dd_states (fst dw)) dw; Some (ds\<lparr>g_last_dedup := None\<rparr>, w) }"

definition flush_dedup ::
    "(dedup_call \<Rightarrow> u64 \<Rightarrow> 'w \<Rightarrow> 'w option) \<Rightarrow> dedups \<times> 'w \<Rightarrow> (dedups \<times> 'w) option" where
  "flush_dedup report dw = flush_all_dedup report dw"

text \<open>What \<open>flush_summary\<close> does with a count: nothing below the logger's level, otherwise a log line.\<close>

definition kFmt :: string where
  "kFmt = ''[suppressed {} occurrences of {}:{}]''"

definition summary_ctx :: "u64 \<Rightarrow> nat \<Rightarrow> dedup_call \<Rightarrow> LogCtx" where
  "summary_ctx tp tid c =
     \<lparr>lc_level = dc_level c, lc_file = Some (dc_file c), lc_line = dc_line c, lc_tp = tp, lc_tid = tid\<rparr>"

definition report_summary ::
    "renv \<Rightarrow> user_prologues \<Rightarrow> nat \<Rightarrow> u64 \<Rightarrow> nat \<Rightarrow> dedup_call \<Rightarrow> u64 \<Rightarrow> world \<times> thread \<Rightarrow> (world \<times> thread) option" where
  "report_summary env user fuel tp tid c n wt =
     do {
       l \<leftarrow> heap (fst wt) (dc_logger c);
       if \<not> enabled l (dc_level c) then Some wt
       else do {
         spec \<leftarrow> make_spec (count_pieces kFmt) (count_lit_chars kFmt) kFmt;
         emit_f_fast env user fuel (dc_logger c) (summary_ctx tp tid c) (count_pieces kFmt) spec
           [VULongLong n, VCStr (Some (dc_file c)), VInt (dc_line c)] (fst wt) (snd wt)
       }
     }"

section \<open>One thread: run-length encoding\<close>

text \<open>
  A program that logs at the sites \<open>cs\<close> one after the other, \<open>site a\<close> being what the call at \<open>a\<close> passes,
  and writes the line of a site with \<open>line\<close> when its gate opens.
\<close>

fun dedup_log ::
    "(dedup_call \<Rightarrow> u64 \<Rightarrow> 'w \<Rightarrow> 'w option) \<Rightarrow> (nat \<Rightarrow> 'w \<Rightarrow> 'w option) \<Rightarrow> (nat \<Rightarrow> dedup_call) \<Rightarrow> nat list \<Rightarrow>
     dedups \<times> 'w \<Rightarrow> (dedups \<times> 'w) option" where
  "dedup_log report line site [] dw = Some dw"
| "dedup_log report line site (a # as) dw =
     do {
       (b, ds, w) \<leftarrow> dedup_tick report a (site a) dw;
       w \<leftarrow> (if b then line a w else Some w);
       dedup_log report line site as (ds, w)
     }"

text \<open>Specification: each run of a site is its line once and then the number of its repetitions.\<close>

datatype entry = Line nat | Suppressed nat u64

fun runs :: "'a list \<Rightarrow> ('a \<times> nat) list" where
  "runs [] = []"
| "runs (x # xs) =
     (case runs xs of (y, n) # rs \<Rightarrow> if x = y then (y, Suc n) # rs else (x, 0) # (y, n) # rs | [] \<Rightarrow> [(x, 0)])"

definition summary :: "nat \<Rightarrow> nat \<Rightarrow> entry list" where
  "summary a n = (if (of_nat n :: u64) = 0 then [] else [Suppressed a (of_nat n)])"

definition script :: "nat list \<Rightarrow> entry list" where
  "script cs = concat (map (\<lambda>(a, n). Line a # summary a n) (runs cs))"

fun play ::
    "(dedup_call \<Rightarrow> u64 \<Rightarrow> 'w \<Rightarrow> 'w option) \<Rightarrow> (nat \<Rightarrow> 'w \<Rightarrow> 'w option) \<Rightarrow> (nat \<Rightarrow> dedup_call) \<Rightarrow> entry list \<Rightarrow>
     'w \<Rightarrow> 'w option" where
  "play report line site [] w = Some w"
| "play report line site (Line a # es) w = do { w \<leftarrow> line a w; play report line site es w }"
| "play report line site (Suppressed a n # es) w = do { w \<leftarrow> report (site a) n w; play report line site es w }"

lemma play_append: "play report line site (es @ fs) w = do { w \<leftarrow> play report line site es w; play report line site fs w }"
  by (induction report line site es w rule: play.induct) (simp_all add: bind_assoc cong: Option.bind_cong)

text \<open>The rest of a script after \<open>k\<close> repetitions of \<open>a\<close>.\<close>

fun rest_script :: "nat \<Rightarrow> nat \<Rightarrow> nat list \<Rightarrow> entry list" where
  "rest_script a k [] = summary a k"
| "rest_script a k (c # cs) =
     (if c = a then rest_script a (Suc k) cs else summary a k @ Line c # rest_script c 0 cs)"

lemma runs_eq_Nil [simp]: "runs xs = [] \<longleftrightarrow> xs = []"
  by (cases xs) (auto split: list.splits)

lemma rest_script_runs:
  "rest_script a k cs =
     (case runs (a # cs) of (b, n) # rs \<Rightarrow> summary a (n + k) @ concat (map (\<lambda>(a, n). Line a # summary a n) rs))"
proof (induction a k cs rule: rest_script.induct)
  case (2 a k c cs)
  show ?case using 2 by (cases "c = a") (auto split: list.splits)
qed simp

lemma script_rest: "script (a # cs) = Line a # rest_script a 0 cs"
proof -
  have "\<exists>n rs. runs (a # cs) = (a, n) # rs" by (auto split: list.splits)
  then show ?thesis unfolding script_def rest_script_runs by auto
qed

text \<open>Between two calls: the sites are registered, and only the last one has a count.\<close>

definition site_ok :: "dedup_call \<Rightarrow> bool \<Rightarrow> dedup_state \<Rightarrow> bool" where
  "site_ok c latest s \<longleftrightarrow> (if dd_initialized s then identity s = Some c else dd_suppressed s = 0) \<and>
     (if latest then dd_initialized s else dd_suppressed s = 0)"

definition dedups_ok :: "(nat \<Rightarrow> dedup_call) \<Rightarrow> dedups \<Rightarrow> bool" where
  "dedups_ok site ds \<longleftrightarrow> distinct (dd_states ds) \<and>
     (\<forall>a \<in> set (dd_states ds). \<exists>s. dd_site ds a = Some s \<and> site_ok (site a) (g_last_dedup ds = Some a) s)"

lemma identity_publish [simp]: "identity (publish c s) = Some c"
  by (simp add: identity_def publish_def)

lemma claim_simps [simp]:
  "dd_suppressed (claim c s) = dd_suppressed s" "dd_initialized (claim c s)"
  by (simp_all add: claim_def publish_def)

lemma identity_claim: "site_ok c l s \<Longrightarrow> identity (claim c s) = Some c"
  by (simp add: claim_def site_ok_def)

lemma dedups_okD:
  assumes "dedups_ok site ds" "a \<in> set (dd_states ds)"
  shows "\<exists>s. dd_site ds a = Some s \<and> site_ok (site a) (g_last_dedup ds = Some a) s"
  using assms unfolding dedups_ok_def by blast

lemma dedups_okI:
  assumes "distinct (dd_states ds)"
    "\<And>a. a \<in> set (dd_states ds) \<Longrightarrow> \<exists>s. dd_site ds a = Some s \<and> site_ok (site a) (g_last_dedup ds = Some a) s"
  shows "dedups_ok site ds"
  using assms unfolding dedups_ok_def by blast

lemma identity_suppressed [simp]: "identity (s\<lparr>dd_suppressed := n\<rparr>) = identity s"
  by (simp add: identity_def)

lemma site_update [simp]:
  "dd_site (update_site a f ds) b = (if b = a then map_option f (dd_site ds a) else dd_site ds b)"
  "g_last_dedup (update_site a f ds) = g_last_dedup ds"
  "dd_states (update_site a f ds) = dd_states ds"
  by (simp_all add: update_site_def)

lemma flush_summary_none:
  assumes "dd_site ds a = Some s" "dd_suppressed s = 0"
  shows "flush_summary report a (ds, w) = Some (ds, w)"
proof -
  have "s\<lparr>dd_suppressed := 0\<rparr> = s" using assms(2) by simp
  then have "update_site a (\<lambda>s. s\<lparr>dd_suppressed := 0\<rparr>) ds = ds"
    using assms(1) by (simp add: update_site_def fun_upd_idem)
  then show ?thesis using assms by (simp add: flush_summary_def Let_def)
qed

lemma flush_summary_some:
  assumes "dd_site ds a = Some s" "dd_suppressed s = of_nat k" "identity s = Some (site a)"
  shows "flush_summary report a (ds, w) =
    map_option (Pair (update_site a (\<lambda>s. s\<lparr>dd_suppressed := 0\<rparr>) ds)) (play report line site (summary a k) w)"
  using assms flush_summary_none [OF assms(1)] unfolding summary_def
  by (auto simp: flush_summary_def Let_def map_conv_bind_option o_def)

lemma flush_summaries_none:
  assumes "\<forall>a \<in> set as. \<exists>s. dd_site ds a = Some s \<and> dd_suppressed s = 0"
  shows "flush_summaries report as (ds, w) = Some (ds, w)"
  using assms
proof (induction as)
  case (Cons a as)
  then show ?case using flush_summary_none [of ds a _ report w] by auto
qed simp

lemma flush_summaries_append:
  "flush_summaries report (as @ bs) dw = do { dw \<leftarrow> flush_summaries report as dw; flush_summaries report bs dw }"
  by (induction as arbitrary: dw) (simp_all add: bind_assoc cong: Option.bind_cong)

lemma flush_all_last:
  assumes ok: "dedups_ok site ds" and a: "g_last_dedup ds = Some a" "a \<in> set (dd_states ds)"
    "dd_site ds a = Some s" "dd_suppressed s = of_nat k"
  shows "map_option snd (flush_all_dedup report (ds, w)) = play report line site (summary a k) w"
proof -
  obtain as bs where split: "dd_states ds = as @ a # bs" using a(2) by (metis split_list)
  let ?ds = "update_site a (\<lambda>s. s\<lparr>dd_suppressed := 0\<rparr>) ds"
  have id: "identity s = Some (site a)" using dedups_okD [OF ok a(2)] a by (auto simp: site_ok_def)
  have others: "\<forall>b \<in> set as \<union> set bs. b \<noteq> a \<and> (\<exists>s. dd_site ds b = Some s \<and> dd_suppressed s = 0)"
  proof
    fix b assume b: "b \<in> set as \<union> set bs"
    then have "b \<noteq> a" using ok unfolding dedups_ok_def split by auto
    moreover obtain u where "dd_site ds b = Some u" "site_ok (site b) (g_last_dedup ds = Some b) u"
      using dedups_okD [OF ok, of b] b split by auto
    ultimately show "b \<noteq> a \<and> (\<exists>s. dd_site ds b = Some s \<and> dd_suppressed s = 0)"
      using a(1) by (simp add: site_ok_def)
  qed
  have "flush_summaries report as (ds, w) = Some (ds, w)" using others by (intro flush_summaries_none) blast
  moreover have "flush_summaries report bs (?ds, w') = Some (?ds, w')" for w'
    using others by (intro flush_summaries_none) auto
  ultimately have "flush_summaries report (dd_states ds) (ds, w) = map_option (Pair ?ds) (play report line site (summary a k) w)"
    unfolding split flush_summaries_append flush_summaries.simps
    using flush_summary_some [where site = site and report = report and w = w and line = line, OF a(3,4) id]
    by (simp add: map_conv_bind_option bind_assoc o_def)
  then show ?thesis by (simp add: flush_all_dedup_def map_conv_bind_option bind_assoc)
qed

lemma tick_same:
  assumes ok: "dedups_ok site ds" and a: "g_last_dedup ds = Some a" "a \<in> set (dd_states ds)"
    "dd_site ds a = Some s" "dd_suppressed s = of_nat k"
  shows "\<exists>ds' s'. dedup_tick report a (site a) (ds, w) = Some (False, ds', w) \<and> dedups_ok site ds' \<and>
    g_last_dedup ds' = Some a \<and> dd_states ds' = dd_states ds \<and>
    dd_site ds' a = Some s' \<and> dd_suppressed s' = of_nat (Suc k)"
proof -
  have s: "site_ok (site a) True s" using dedups_okD [OF ok a(2)] a by auto
  let ?ds = "update_site a (\<lambda>s. s\<lparr>dd_suppressed := dd_suppressed s + 1\<rparr>) (update_site a (claim (site a)) ds)"
  have "dedups_ok site ?ds"
  proof (rule dedups_okI)
    fix b assume "b \<in> set (dd_states ?ds)"
    then obtain u where u: "dd_site ds b = Some u" "site_ok (site b) (g_last_dedup ds = Some b) u"
      using dedups_okD [OF ok] by auto
    show "\<exists>s. dd_site ?ds b = Some s \<and> site_ok (site b) (g_last_dedup ?ds = Some b) s"
      using u a(1,3) s by (cases "b = a") (simp_all add: site_ok_def claim_def)
  qed (use ok in \<open>simp add: dedups_ok_def\<close>)
  then show ?thesis using a(1,3,4) by (simp add: dedup_tick_def Let_def)
qed

text \<open>A call at a site that is not the last claims it and makes it the last.\<close>

lemma claimed:
  assumes ok: "dedups_ok site ds" and a: "a \<in> set (dd_states ds)" "g_last_dedup ds \<noteq> Some a"
  obtains t where "dd_site ds a = Some t" "dd_suppressed t = 0" "identity (claim (site a) t) = Some (site a)"
proof -
  obtain t where t: "dd_site ds a = Some t" "site_ok (site a) False t" using dedups_okD [OF ok a(1)] a(2) by auto
  show ?thesis using that [OF t(1) _ identity_claim [OF t(2)]] t(2) by (simp add: site_ok_def)
qed

text \<open>The count of the last site is reported.\<close>

lemma tick_other:
  assumes ok: "dedups_ok site ds" and p: "g_last_dedup ds = Some p" "p \<in> set (dd_states ds)"
    "dd_site ds p = Some s" "dd_suppressed s = of_nat k"
    and a: "a \<in> set (dd_states ds)" "a \<noteq> p"
  shows "\<exists>ds' s'. dedup_tick report a (site a) (ds, w) =
      map_option (\<lambda>w'. (True, ds', w')) (play report line site (summary p k) w) \<and> dedups_ok site ds' \<and>
    g_last_dedup ds' = Some a \<and> dd_states ds' = dd_states ds \<and>
    dd_site ds' a = Some s' \<and> dd_suppressed s' = 0"
proof -
  obtain t where t: "dd_site ds a = Some t" "dd_suppressed t = 0" "identity (claim (site a) t) = Some (site a)"
    using claimed [OF ok a(1)] p(1) a(2) by (metis option.inject)
  have id: "identity s = Some (site p)" "dd_initialized s"
    using dedups_okD [OF ok p(2)] p by (auto simp: site_ok_def)
  let ?ds2 = "(update_site a (claim (site a)) ds)\<lparr>g_last_dedup := Some a\<rparr>"
  let ?ds3 = "update_site p (\<lambda>s. s\<lparr>dd_suppressed := 0\<rparr>) ?ds2"
  have "dd_site ?ds2 p = Some s" using p(3) a(2) by simp
  then have "flush_summary report p (?ds2, w) = map_option (Pair ?ds3) (play report line site (summary p k) w)"
    using p(4) id(1) by (rule flush_summary_some)
  then have "dedup_tick report a (site a) (ds, w) =
      map_option (\<lambda>w'. (True, ?ds3, w')) (play report line site (summary p k) w)"
    using t(1) p(1) a(2) by (simp add: dedup_tick_def Let_def option.map_comp o_def)
  moreover have "dedups_ok site ?ds3"
  proof (rule dedups_okI)
    fix b assume "b \<in> set (dd_states ?ds3)"
    then obtain u where u: "dd_site ds b = Some u" "site_ok (site b) (g_last_dedup ds = Some b) u"
      using dedups_okD [OF ok] by auto
    show "\<exists>s. dd_site ?ds3 b = Some s \<and> site_ok (site b) (g_last_dedup ?ds3 = Some b) s"
      using u t a(2) p id by (cases "b = a"; cases "b = p") (simp_all add: site_ok_def)
  qed (use ok in \<open>simp add: dedups_ok_def\<close>)
  moreover have "g_last_dedup ?ds3 = Some a" "dd_states ?ds3 = dd_states ds" by simp_all
  moreover have "\<exists>s'. dd_site ?ds3 a = Some s' \<and> dd_suppressed s' = 0" using t a(2) by simp
  ultimately show ?thesis by blast
qed

lemma tick_first:
  assumes ok: "dedups_ok site ds" and "g_last_dedup ds = None" and a: "a \<in> set (dd_states ds)"
  shows "\<exists>ds' s'. dedup_tick report a (site a) (ds, w) = Some (True, ds', w) \<and> dedups_ok site ds' \<and>
    g_last_dedup ds' = Some a \<and> dd_states ds' = dd_states ds \<and>
    dd_site ds' a = Some s' \<and> dd_suppressed s' = 0"
proof -
  obtain t where t: "dd_site ds a = Some t" "dd_suppressed t = 0" "identity (claim (site a) t) = Some (site a)"
    using claimed [OF ok a] assms(2) by (metis option.distinct(1))
  let ?ds = "(update_site a (claim (site a)) ds)\<lparr>g_last_dedup := Some a\<rparr>"
  have "dedups_ok site ?ds"
  proof (rule dedups_okI)
    fix b assume "b \<in> set (dd_states ?ds)"
    then obtain u where u: "dd_site ds b = Some u" "site_ok (site b) (g_last_dedup ds = Some b) u"
      using dedups_okD [OF ok] by auto
    show "\<exists>s. dd_site ?ds b = Some s \<and> site_ok (site b) (g_last_dedup ?ds = Some b) s"
      using u t assms(2) by (cases "b = a") (simp_all add: site_ok_def)
  qed (use ok in \<open>simp add: dedups_ok_def\<close>)
  then show ?thesis using t assms(2) by (simp add: dedup_tick_def Let_def)
qed

text \<open>From a line at \<open>a\<close> repeated \<open>k\<close> times to the end of the program.\<close>

lemma dedup_log_rest:
  assumes "dedups_ok site ds" "g_last_dedup ds = Some a" "a \<in> set (dd_states ds)"
    "dd_site ds a = Some s" "dd_suppressed s = of_nat k" "set cs \<subseteq> set (dd_states ds)"
  shows "do { dw \<leftarrow> dedup_log report line site cs (ds, w); map_option snd (flush_all_dedup report dw) } =
    play report line site (rest_script a k cs) w"
  using assms
proof (induction cs arbitrary: ds a s k w)
  case Nil
  then show ?case using flush_all_last [OF Nil(1-5)] by simp
next
  case (Cons c cs)
  show ?case
  proof (cases "c = a")
    case True
    from tick_same [OF Cons.prems(1-5), of report w] obtain ds' s' where
      "dedup_tick report a (site a) (ds, w) = Some (False, ds', w)" "dedups_ok site ds'"
      "g_last_dedup ds' = Some a" "dd_states ds' = dd_states ds" "dd_site ds' a = Some s'"
      "dd_suppressed s' = of_nat (Suc k)" by blast
    then show ?thesis using Cons.IH [of ds' a s' "Suc k" w] Cons.prems(3,6) True by simp
  next
    case False
    have c: "c \<in> set (dd_states ds)" using Cons.prems(6) by simp
    from tick_other [OF Cons.prems(1-5) c False, of report w line] obtain ds' s' where
      t: "dedup_tick report c (site c) (ds, w) =
        map_option (\<lambda>w'. (True, ds', w')) (play report line site (summary a k) w)" and
      ds': "dedups_ok site ds'" "g_last_dedup ds' = Some c" "dd_states ds' = dd_states ds"
        "dd_site ds' c = Some s'" "dd_suppressed s' = 0" by blast
    have "do { dw \<leftarrow> dedup_log report line site cs (ds', w'); map_option snd (flush_all_dedup report dw) } =
        play report line site (rest_script c 0 cs) w'" for w'
      using Cons.IH [of ds' c s' 0 w'] ds' Cons.prems(6) by simp
    then show ?thesis
      using False t by (simp add: play_append map_conv_bind_option bind_assoc)
  qed
qed

text \<open>A program whose static sites are all there, none of them called yet.\<close>

definition fresh_sites :: "nat list \<Rightarrow> dedups" where
  "fresh_sites as = foldl (\<lambda>ds a. new_dedup a ds) no_dedups as"

lemma fresh_sites_simps:
  "dd_states (fresh_sites as) = as" "g_last_dedup (fresh_sites as) = None"
  "dd_site (fresh_sites as) a = (if a \<in> set as then Some fresh_dedup else None)"
  by (induction as rule: rev_induct) (auto simp: fresh_sites_def no_dedups_def new_dedup_def register_dedup_def)

lemma fresh_sites_ok: "distinct as \<Longrightarrow> dedups_ok site (fresh_sites as)"
  by (simp add: dedups_ok_def site_ok_def fresh_sites_simps fresh_dedup_def)

text \<open>
  C15: A thread that logs at the sites \<open>cs\<close> one after the other and then flushes, as the program does on
  exit, has written the run-length encoding of \<open>cs\<close>: the line of every run once, followed by the number
  of its repetitions before the next line comes, in order, counts modulo \<open>2 ^ 64\<close>. Writing may fail;
  then so does the script.
\<close>

theorem dedup_run_length:
  assumes "distinct as" "set cs \<subseteq> set as"
  shows "do { dw \<leftarrow> dedup_log report line site cs (fresh_sites as, w); map_option snd (flush_all_dedup report dw) } =
    play report line site (script cs) w"
proof (cases cs)
  case Nil
  then show ?thesis
    using flush_summaries_none [of as "fresh_sites as" report w]
    by (simp add: script_def flush_all_dedup_def fresh_sites_simps fresh_dedup_def)
next
  case (Cons c cs')
  have "c \<in> set (dd_states (fresh_sites as))" using assms(2) Cons by (simp add: fresh_sites_simps)
  from tick_first [OF fresh_sites_ok [OF assms(1)] fresh_sites_simps(2) this, where site = site and report = report and w = w, unfolded fresh_sites_simps]
  obtain ds' s' where t: "dedup_tick report c (site c) (fresh_sites as, w) = Some (True, ds', w)" and
    ds': "dedups_ok site ds'" "g_last_dedup ds' = Some c" "dd_states ds' = as"
      "dd_site ds' c = Some s'" "dd_suppressed s' = 0" by blast
  have "do { dw \<leftarrow> dedup_log report line site cs' (ds', w'); map_option snd (flush_all_dedup report dw) } =
      play report line site (rest_script c 0 cs') w'" for w'
    using dedup_log_rest [of site ds' c s' 0 cs'] ds' assms(2) Cons by simp
  then show ?thesis using t by (simp add: Cons script_rest bind_assoc)
qed

definition print_summary :: "dedup_call \<Rightarrow> u64 \<Rightarrow> string \<Rightarrow> string option" where
  "print_summary c n w = Some (w @ dc_file c @ [char_of (48 + unat n)])"

theorem dedup_run_length_witness:
  "do { dw \<leftarrow> dedup_log print_summary (\<lambda>a w. Some (w @ [char_of (48 + a)]))
            (\<lambda>a. \<lparr>dc_logger = 0, dc_level = INFO, dc_file = ''x'', dc_line = 0\<rparr>) [1, 1, 1, 2, 1] (fresh_sites [2, 1], []);
        map_option snd (flush_all_dedup print_summary dw) } = Some ''1x221''"
  by (subst dedup_run_length)
    (simp_all add: script_def summary_def print_summary_def char_of_def bit_Suc_0_iff)

section \<open>The summary line\<close>

lemma kFmt_facts:
  "count_lit_chars kFmt \<le> 65535" "holes (scan kFmt) = 3"
  "fill (scan kFmt) t 0 = ''[suppressed '' @ t 0 @ '' occurrences of '' @ t 1 @ '':'' @ t 2 @ '']''"
  by (simp_all add: kFmt_def count_lit_chars_def peek_def numeral_2_eq_2)

definition summary_text :: "dedup_call \<Rightarrow> u64 \<Rightarrow> string" where
  "summary_text c n = ''[suppressed '' @ radix_str 10 (unat n) @ '' occurrences of '' @ dc_file c @ '':'' @
     int_str (sint (dc_line c)) @ '']''"

lemma report_line:
  assumes "thread_ok env th" "ctx_ok env (summary_ctx tp tid c)"
    "length (prologue_text env (summary_ctx tp tid c)) + length (summary_text c n) \<le> 4000"
    "heap w (dc_logger c) = Some l" "lg_prologue l = Default_Prologue" "enabled l (dc_level c)"
  shows "\<exists>iov th'. concat iov = prologue_text env (summary_ctx tp tid c) @ summary_text c n @ [CHR 0x0A] \<and>
    thread_ok env th' \<and>
    report_summary env user fuel tp tid c n (w, th) =
      map_option (\<lambda>w'. (w', th')) (emit fuel (dc_level c) iov (dc_logger c) w)"
proof -
  let ?args = "[VULongLong n, VCStr (Some (dc_file c)), VInt (dc_line c)]"
  have "length (prologue_text env (summary_ctx tp tid c)) + length (concat (map (shown env) ?args)) + 32 \<le> 4096"
    using assms(3) by (simp add: summary_text_def)
  from emit_f_fast_line [OF assms(1,2) _ this assms(4,5) kFmt_facts(1), of user fuel]
  obtain spec iov th' where
    "make_spec (count_pieces kFmt) (count_lit_chars kFmt) kFmt = Some spec" "thread_ok env th'"
    "concat iov = prologue_text env (summary_ctx tp tid c) @ summary_text c n @ [CHR 0x0A]"
    "emit_f_fast env user fuel (dc_logger c) (summary_ctx tp tid c) (count_pieces kFmt) spec ?args w th =
      map_option (\<lambda>w'. (w', th')) (emit fuel (dc_level c) iov (dc_logger c) w)"
    by (auto simp: kFmt_facts summary_text_def summary_ctx_def)
  then show ?thesis
    using assms(4,6) by (intro exI [of _ iov] exI [of _ th']) (simp add: report_summary_def)
qed

text \<open>Calls at one site, none at another in between; the loggers and levels they pass may differ.\<close>

fun dedup_ticks ::
    "(dedup_call \<Rightarrow> u64 \<Rightarrow> 'w \<Rightarrow> 'w option) \<Rightarrow> nat \<Rightarrow> dedup_call list \<Rightarrow> dedups \<times> 'w \<Rightarrow> (bool list \<times> dedups \<times> 'w) option" where
  "dedup_ticks report a [] dw = Some ([], dw)"
| "dedup_ticks report a (c # cs) dw =
     do { (b, dw) \<leftarrow> dedup_tick report a c dw; (bs, dw) \<leftarrow> dedup_ticks report a cs dw; Some (b # bs, dw) }"

definition counted :: "nat \<Rightarrow> nat \<Rightarrow> dedups \<Rightarrow> dedups" where
  "counted a k ds = update_site a (\<lambda>s. s\<lparr>dd_suppressed := of_nat k\<rparr>) ds"

lemma first_tick_claims:
  assumes "dd_site ds a = Some fresh_dedup" "g_last_dedup ds \<noteq> Some a" "dedup_tick report a c (ds, w) = Some (b, ds', w')"
  shows "b \<and> g_last_dedup ds' = Some a \<and> dd_site ds' a = Some (claim c fresh_dedup)"
proof (cases "g_last_dedup ds")
  case None
  then show ?thesis using assms by (auto simp: dedup_tick_def Let_def)
next
  case (Some p)
  then have "p \<noteq> a" using assms(2) by simp
  then show ?thesis
    using assms Some
    by (auto simp: dedup_tick_def flush_summary_def Let_def split: option.splits if_splits)
qed

lemma later_ticks:
  assumes "g_last_dedup ds = Some a" "dd_site ds a = Some s" "dd_initialized s" "dd_suppressed s = 0"
  shows "dedup_ticks report a cs (counted a k ds, w) = Some (replicate (length cs) False, counted a (k + length cs) ds, w)"
proof (induction cs arbitrary: k)
  case (Cons c cs)
  have "dedup_tick report a c (counted a k ds, w) = Some (False, counted a (Suc k) ds, w)"
    using assms by (simp add: dedup_tick_def counted_def update_site_def claim_def add.commute)
  then show ?case using Cons.IH [of "Suc k"] by simp
qed simp

text \<open>
  C33: The first call of a fresh site passes and is remembered. However many calls follow at that site, with
  whatever loggers and levels, none passes, and when the site is then flushed their number, if it is
  not 0 modulo \<open>2 ^ 64\<close>, is reported with one line at the level and to the logger of the first call, if that
  level is enabled by now: the header as of that call's file and line, and
  \<open>[suppressed n occurrences of file:line]\<close>. Otherwise nothing is written. The count is back at 0 either
  way, and the flush returns exactly when the fan-out of the line does.
\<close>

theorem summary_line:
  assumes "dd_site ds0 a = Some fresh_dedup" "g_last_dedup ds0 \<noteq> Some a"
    "dedup_tick (report_summary env user fuel tp tid) a c (ds0, w0, th0) = Some (b, ds, w, th)"
    "thread_ok env th" "ctx_ok env (summary_ctx tp tid c)"
    "length (prologue_text env (summary_ctx tp tid c)) + length (summary_text c (of_nat (length cs))) \<le> 4000"
    "heap w (dc_logger c) = Some l" "lg_prologue l = Default_Prologue"
  defines "report \<equiv> report_summary env user fuel tp tid" and "n \<equiv> of_nat (length cs)"
  shows "b \<and> (\<exists>ds'. dedup_ticks report a cs (ds, w, th) = Some (replicate (length cs) False, ds', w, th) \<and>
    (if n = 0 \<or> \<not> enabled l (dc_level c) then flush_summary report a (ds', w, th) = Some (ds, w, th)
     else \<exists>iov th'. concat iov = prologue_text env (summary_ctx tp tid c) @ summary_text c n @ [CHR 0x0A] \<and> thread_ok env th' \<and>
       flush_summary report a (ds', w, th) =
         map_option (\<lambda>w'. (ds, w', th')) (emit fuel (dc_level c) iov (dc_logger c) w)))"
proof -
  let ?s = "claim c fresh_dedup"
  have s: "b" "g_last_dedup ds = Some a" "dd_site ds a = Some ?s"
    using first_tick_claims [OF assms(1-3)] by auto
  have z: "dd_initialized ?s" "dd_suppressed ?s = 0" "identity ?s = Some c"
    by (simp_all add: claim_def identity_def publish_def fresh_dedup_def)
  have "?s\<lparr>dd_suppressed := 0\<rparr> = ?s" using z(2) by simp
  then have c0: "counted a 0 ds = ds" using s(3) by (simp add: counted_def update_site_def fun_upd_idem)
  let ?ds = "counted a (length cs) ds"
  have ticks: "dedup_ticks report a cs (ds, w, th) = Some (replicate (length cs) False, ?ds, w, th)"
    using later_ticks [OF s(2,3) z(1,2), of report cs 0 "(w, th)"] c0 by simp
  have reset: "update_site a (\<lambda>s. s\<lparr>dd_suppressed := 0\<rparr>) ?ds = ds"
    using c0 s(3) by (simp add: counted_def update_site_def)
  have flushed: "flush_summary report a (?ds, w, th) = (if n = 0 then Some (ds, w, th) else map_option (Pair ds) (report c n (w, th)))"
    unfolding flush_summary_def using s(3) z(3) reset by (simp add: counted_def n_def Let_def)
  show ?thesis
  proof (cases "n = 0 \<or> \<not> enabled l (dc_level c)")
    case True
    then have "flush_summary report a (?ds, w, th) = Some (ds, w, th)"
      using flushed assms(7) by (auto simp: report_def report_summary_def)
    then show ?thesis using True s(1) ticks by auto
  next
    case False
    from report_line [OF assms(4-8), of user fuel] False obtain iov th' where
      "concat iov = prologue_text env (summary_ctx tp tid c) @ summary_text c n @ [CHR 0x0A]" "thread_ok env th'"
      "report c n (w, th) = map_option (\<lambda>w'. (w', th')) (emit fuel (dc_level c) iov (dc_logger c) w)"
      by (auto simp: n_def report_def)
    then show ?thesis using False s(1) ticks flushed by (auto simp: option.map_comp o_def)
  qed
qed

theorem summary_line_witness:
  "\<exists>iov th' ds ds'. concat iov = ''2024-01-09 08:07:06.001500 WARN [5] io.cpp:42 | [suppressed 3 occurrences of io.cpp:42]'' @ [CHR 0x0A] \<and>
    (let c = \<lparr>dc_logger = 1, dc_level = WARN, dc_file = ''io.cpp'', dc_line = 42\<rparr>; report = report_summary sample_env2 (\<lambda>_ _ _. None) 5 1500000 7 in
      dedup_tick report 0 c (new_dedup 0 no_dedups, diamond, sample_thread) = Some (True, ds, diamond, sample_thread) \<and>
      dedup_ticks report 0 [c\<lparr>dc_level := ERROR\<rparr>, c, c] (ds, diamond, sample_thread) = Some ([False, False, False], ds', diamond, sample_thread) \<and>
      flush_summary report 0 (ds', diamond, sample_thread) = map_option (\<lambda>w'. (ds, w', th')) (emit 5 WARN iov 1 diamond))"
proof -
  let ?c = "\<lparr>dc_logger = 1, dc_level = WARN, dc_file = ''io.cpp'', dc_line = 42\<rparr>"
  let ?ctx = "\<lparr>lc_level = WARN, lc_file = Some ''io.cpp'', lc_line = 42, lc_tp = 1500000, lc_tid = 7\<rparr>"
  let ?report = "report_summary sample_env2 (\<lambda>_ _ _. None) 5 1500000 7" and ?ds0 = "new_dedup 0 no_dedups"
  let ?cs = "[?c\<lparr>dc_level := ERROR\<rparr>, ?c, ?c]"
  have num: "radix_str 10 3 = ''3''" "int_str 42 = ''42''"
    by (simp_all add: int_str_def radix_str.simps digit_char_def char_of_def bit_Suc_0_iff)
  have t: "prologue_text sample_env2 ?ctx = ''2024-01-09 08:07:06.001500 WARN [5] io.cpp:42 | ''"
    using sample_line_facts(3) by (simp add: prologue_text_def sample_ctx_def base_name_def tid_value_def)
  have ok: "ctx_ok sample_env2 ?ctx" using sample_line_facts(2) by (simp add: ctx_ok_def sample_ctx_def)
  have l: "heap diamond 1 = Some (test_logger 3 [2, 3])" by (simp add: diamond_def)
  have p: "lg_prologue (test_logger 3 [2, 3]) = Default_Prologue" "enabled (test_logger 3 [2, 3]) (dc_level ?c)"
    by (simp_all add: test_logger_def new_logger_def enabled_def less_eq_Level_def)
  have d: "dd_site ?ds0 0 = Some fresh_dedup" "g_last_dedup ?ds0 \<noteq> Some 0"
    by (simp_all add: new_dedup_def no_dedups_def register_dedup_def)
  obtain ds where first: "dedup_tick ?report 0 ?c (?ds0, diamond, sample_thread) = Some (True, ds, diamond, sample_thread)"
    by (simp add: dedup_tick_def new_dedup_def no_dedups_def register_dedup_def Let_def)
  have three: "replicate 3 False = [False, False, False]" by (simp add: numeral_3_eq_3)
  from summary_line [OF d first sample_line_facts(1), of ?cs] ok l t num p first three
  show ?thesis by (simp add: summary_ctx_def summary_text_def Let_def del: dedup_ticks.simps) blast
qed

end
