(* ===== verification/Elog_Dedup_Threads.thy ===== *)
theory Elog_Dedup_Threads
  imports Elog_Dedup
begin

text \<open>
  \<open>DedupState\<close> under any number of threads (\<open>src/aggregate.cpp\<close>). Every atomic access of \<open>tick\<close>,
  \<open>flush_summary\<close> and \<open>flush_all\<close> is a step; so is the store of a site's identity by the thread that won
  the compare-and-swap (its four plain stores together: a reader between them is a data race). The
  mutex of the registry makes \<open>flush_all\<close> exclude another one and the registration of a site. The
  counters at the end of the state are ghosts: the calls that returned \<open>false\<close>, and the counts reported,
  withheld because the logger's level was off, and dropped because the site had no identity yet.
\<close>

datatype dd_pc =
    Idle
  | Claim nat dedup_call
  | Publish nat dedup_call
  | LoadLast nat
  | CountOne nat
  | Exchange nat
  | Flush nat "nat list option"
  | Decide nat u64 "nat list option"
  | ResetLast

record dd_threads =
  ds :: dedups
  pcs :: "dd_pc list"
  suppressed_calls :: "nat \<Rightarrow> nat"
  reported :: "nat \<Rightarrow> u64"
  withheld :: "nat \<Rightarrow> u64"
  dropped :: "nat \<Rightarrow> u64"

definition goto :: "nat \<Rightarrow> dd_pc \<Rightarrow> dd_threads \<Rightarrow> dd_threads" where
  "goto i p s = s\<lparr>pcs := (pcs s)[i := p]\<rparr>"

text \<open>Where a thread goes on after one \<open>flush_summary\<close>: back from \<open>tick\<close>, or to the next site of \<open>flush_all\<close>.\<close>

fun after_flush :: "nat list option \<Rightarrow> dd_pc" where
  "after_flush None = Idle"
| "after_flush (Some []) = ResetLast"
| "after_flush (Some (b # bs)) = Flush b (Some bs)"

fun holds_registry :: "dd_pc \<Rightarrow> bool" where
  "holds_registry (Flush _ (Some _)) = True"
| "holds_registry (Decide _ _ (Some _)) = True"
| "holds_registry ResetLast = True"
| "holds_registry _ = False"

definition registry_free :: "dd_threads \<Rightarrow> bool" where
  "registry_free s \<longleftrightarrow> (\<forall>p \<in> set (pcs s). \<not> holds_registry p)"

definition thread_at :: "dd_threads \<Rightarrow> nat \<Rightarrow> dd_pc \<Rightarrow> bool" where
  "thread_at s i p \<longleftrightarrow> i < length (pcs s) \<and> pcs s ! i = p"

definition add_to :: "nat \<Rightarrow> 'n \<Rightarrow> (nat \<Rightarrow> 'n :: plus) \<Rightarrow> nat \<Rightarrow> 'n" where
  "add_to a n f = f(a := f a + n)"

inductive dd_step :: "dd_threads \<Rightarrow> dd_threads \<Rightarrow> bool" where
  Construct: "thread_at s i Idle \<Longrightarrow> dd_site (ds s) a = None \<Longrightarrow> registry_free s \<Longrightarrow>
    dd_step s (s\<lparr>ds := new_dedup a (ds s)\<rparr>)"
| Tick: "thread_at s i Idle \<Longrightarrow> dd_site (ds s) a = Some d \<Longrightarrow>
    dd_step s (goto i (if dd_initialized d then LoadLast a else Claim a c) s)"
| Cas: "thread_at s i (Claim a c) \<Longrightarrow> dd_site (ds s) a = Some d \<Longrightarrow>
    dd_step s
      (if dd_initialized d then goto i (LoadLast a) s
       else goto i (Publish a c) (s\<lparr>ds := update_site a (\<lambda>d. d\<lparr>dd_initialized := True\<rparr>) (ds s)\<rparr>))"
| Store: "thread_at s i (Publish a c) \<Longrightarrow>
    dd_step s (goto i (LoadLast a) (s\<lparr>ds := update_site a (publish c) (ds s)\<rparr>))"
| Load: "thread_at s i (LoadLast a) \<Longrightarrow>
    dd_step s (goto i (if g_last_dedup (ds s) = Some a then CountOne a else Exchange a) s)"
| Suppress: "thread_at s i (CountOne a) \<Longrightarrow>
    dd_step s (goto i Idle
      (s\<lparr>ds := update_site a (\<lambda>d. d\<lparr>dd_suppressed := dd_suppressed d + 1\<rparr>) (ds s),
         suppressed_calls := add_to a 1 (suppressed_calls s)\<rparr>))"
| Swap: "thread_at s i (Exchange a) \<Longrightarrow>
    dd_step s (goto i
      (case g_last_dedup (ds s) of None \<Rightarrow> Idle | Some p \<Rightarrow> if p = a then Idle else Flush p None)
      (s\<lparr>ds := (ds s)\<lparr>g_last_dedup := Some a\<rparr>\<rparr>))"
| Take: "thread_at s i (Flush b r) \<Longrightarrow> dd_site (ds s) b = Some d \<Longrightarrow>
    dd_step s (goto i (Decide b (dd_suppressed d) r)
      (s\<lparr>ds := update_site b (\<lambda>d. d\<lparr>dd_suppressed := 0\<rparr>) (ds s)\<rparr>))"
| Zero: "thread_at s i (Decide b 0 r) \<Longrightarrow> dd_step s (goto i (after_flush r) s)"
| Drop: "thread_at s i (Decide b n r) \<Longrightarrow> dd_site (ds s) b = Some d \<Longrightarrow> n \<noteq> 0 \<Longrightarrow> identity d = None \<Longrightarrow>
    dd_step s (goto i (after_flush r) (s\<lparr>dropped := add_to b n (dropped s)\<rparr>))"
| Withhold: "thread_at s i (Decide b n r) \<Longrightarrow> dd_site (ds s) b = Some d \<Longrightarrow> n \<noteq> 0 \<Longrightarrow> identity d = Some c \<Longrightarrow>
    dd_step s (goto i (after_flush r) (s\<lparr>withheld := add_to b n (withheld s)\<rparr>))"
| Report: "thread_at s i (Decide b n r) \<Longrightarrow> dd_site (ds s) b = Some d \<Longrightarrow> n \<noteq> 0 \<Longrightarrow> identity d = Some c \<Longrightarrow>
    dd_step s (goto i (after_flush r) (s\<lparr>reported := add_to b n (reported s)\<rparr>))"
| FlushAll: "thread_at s i Idle \<Longrightarrow> registry_free s \<Longrightarrow>
    dd_step s (goto i (after_flush (Some (dd_states (ds s)))) s)"
| Reset: "thread_at s i ResetLast \<Longrightarrow>
    dd_step s (goto i Idle (s\<lparr>ds := (ds s)\<lparr>g_last_dedup := None\<rparr>\<rparr>))"

definition dd_start :: "nat \<Rightarrow> dd_threads" where
  "dd_start m = \<lparr>ds = no_dedups, pcs = replicate m Idle, suppressed_calls = \<lambda>_. 0, reported = \<lambda>_. 0,
     withheld = \<lambda>_. 0, dropped = \<lambda>_. 0\<rparr>"

section \<open>Nothing dangles\<close>

fun pc_sites :: "dd_pc \<Rightarrow> nat set" where
  "pc_sites (Claim a _) = {a}"
| "pc_sites (Publish a _) = {a}"
| "pc_sites (LoadLast a) = {a}"
| "pc_sites (CountOne a) = {a}"
| "pc_sites (Exchange a) = {a}"
| "pc_sites (Flush b r) = insert b (case r of None \<Rightarrow> {} | Some bs \<Rightarrow> set bs)"
| "pc_sites (Decide b n r) = insert b (case r of None \<Rightarrow> {} | Some bs \<Rightarrow> set bs)"
| "pc_sites _ = {}"

text \<open>The part of a count a thread carries between the exchange and the decision.\<close>

fun flight :: "nat \<Rightarrow> dd_pc \<Rightarrow> u64" where
  "flight a (Decide b n r) = (if b = a then n else 0)"
| "flight a _ = 0"

definition in_flight :: "nat \<Rightarrow> dd_threads \<Rightarrow> u64" where
  "in_flight a s = (\<Sum>p \<leftarrow> pcs s. flight a p)"

definition pending :: "nat \<Rightarrow> dedups \<Rightarrow> u64" where
  "pending a d = (case dd_site d a of None \<Rightarrow> 0 | Some s \<Rightarrow> dd_suppressed s)"

definition dd_live :: "dd_threads \<Rightarrow> bool" where
  "dd_live s \<longleftrightarrow> set_option (g_last_dedup (ds s)) \<union> set (dd_states (ds s)) \<union> (\<Union>p \<in> set (pcs s). pc_sites p)
     \<subseteq> dom (dd_site (ds s))"

definition dd_balance :: "dd_threads \<Rightarrow> nat \<Rightarrow> bool" where
  "dd_balance s a \<longleftrightarrow> of_nat (suppressed_calls s a) =
     reported s a + withheld s a + dropped s a + in_flight a s + pending a (ds s)"

lemma sum_list_update_add:
  fixes f :: "'a \<Rightarrow> 'b :: comm_monoid_add"
  shows "i < length xs \<Longrightarrow> (\<Sum>x \<leftarrow> xs[i := y]. f x) + f (xs ! i) = (\<Sum>x \<leftarrow> xs. f x) + f y"
proof (induction xs arbitrary: i)
  case (Cons x xs)
  show ?case
  proof (cases i)
    case (Suc j)
    then show ?thesis using Cons.IH [of j] Cons.prems by (simp add: add.assoc add.left_commute)
  qed (simp add: ac_simps)
qed simp

lemma in_flight_goto:
  assumes "thread_at s i p" "pcs s' = pcs s"
  shows "in_flight a (goto i q s') = in_flight a s - flight a p + flight a q"
  using sum_list_update_add [of i "pcs s" "flight a" q] assms
  by (simp add: in_flight_def goto_def thread_at_def algebra_simps eq_diff_eq)

lemma goto_simps [simp]:
  "ds (goto i q s) = ds s" "suppressed_calls (goto i q s) = suppressed_calls s" "reported (goto i q s) = reported s"
  "withheld (goto i q s) = withheld s" "dropped (goto i q s) = dropped s"
  by (simp_all add: goto_def)

lemma in_flight_cong [simp]:
  "in_flight a (s\<lparr>ds := d\<rparr>) = in_flight a s" "in_flight a (s\<lparr>reported := r\<rparr>) = in_flight a s"
  "in_flight a (s\<lparr>withheld := r\<rparr>) = in_flight a s" "in_flight a (s\<lparr>dropped := r\<rparr>) = in_flight a s"
  "in_flight a (s\<lparr>ds := d, suppressed_calls := c\<rparr>) = in_flight a s"
  by (simp_all add: in_flight_def)

lemma flight_after_flush [simp]: "flight a (after_flush r) = 0"
  by (cases r rule: after_flush.cases) simp_all

lemma pending_simps [simp]:
  "pending b (update_site a f d) = (if b = a then (case dd_site d a of None \<Rightarrow> 0 | Some s \<Rightarrow> dd_suppressed (f s)) else pending b d)"
  "pending b (d\<lparr>g_last_dedup := l\<rparr>) = pending b d"
  by (auto simp: pending_def split: option.splits)

lemma live_site: "dd_live s \<Longrightarrow> thread_at s i p \<Longrightarrow> a \<in> pc_sites p \<Longrightarrow> \<exists>d. dd_site (ds s) a = Some d"
  unfolding dd_live_def thread_at_def by (blast dest: nth_mem)

lemma dd_step_balance:
  assumes "dd_step s s'" "dd_live s" "dd_balance s b"
  shows "dd_balance s' b"
  using assms
proof (induction rule: dd_step.induct)
  case (Construct s i a)
  then show ?case by (auto simp: dd_balance_def pending_def new_dedup_def register_dedup_def fresh_dedup_def)
next
  case (Suppress s i a)
  obtain d where "dd_site (ds s) a = Some d" using live_site [OF Suppress(2,1)] by auto
  then show ?case using Suppress(3)
    by (cases "b = a") (simp_all add: dd_balance_def in_flight_goto [OF Suppress(1)] add_to_def pending_def)
next
  case (Tick s i a d c)
  then show ?case by (simp add: dd_balance_def in_flight_goto [OF Tick(1)])
next
  case (Cas s i a c d)
  then show ?case by (simp add: dd_balance_def in_flight_goto [OF Cas(1)] pending_def)
next
  case (Store s i a c)
  then show ?case
    by (simp add: dd_balance_def in_flight_goto [OF Store(1)] pending_def publish_def split: option.splits)
next
  case (Load s i a)
  then show ?case by (simp add: dd_balance_def in_flight_goto [OF Load(1)])
next
  case (Swap s i a)
  then show ?case by (simp add: dd_balance_def in_flight_goto [OF Swap(1)] split: option.splits)
next
  case (Take s i a r d)
  then show ?case by (cases "a = b") (simp_all add: dd_balance_def in_flight_goto [OF Take(1)] pending_def)
next
  case (Zero s i a r)
  then show ?case by (simp add: dd_balance_def in_flight_goto [OF Zero(1)])
next
  case (Drop s i a n r d)
  then show ?case by (simp add: dd_balance_def in_flight_goto [OF Drop(1)] add_to_def)
next
  case (Withhold s i a n r d c)
  then show ?case by (simp add: dd_balance_def in_flight_goto [OF Withhold(1)] add_to_def)
next
  case (Report s i a n r d c)
  then show ?case by (simp add: dd_balance_def in_flight_goto [OF Report(1)] add_to_def)
next
  case (FlushAll s i)
  then show ?case by (simp add: dd_balance_def in_flight_goto [OF FlushAll(1)] del: after_flush.simps)
next
  case (Reset s i)
  then show ?case by (simp add: dd_balance_def in_flight_goto [OF Reset(1)])
qed

lemma dd_live_goto:
  assumes "dd_live s" "thread_at s i p" "pcs s' = pcs s" "dom (dd_site (ds s)) \<subseteq> dom (dd_site (ds s'))"
    "set_option (g_last_dedup (ds s')) \<union> set (dd_states (ds s')) \<union> pc_sites q \<subseteq> dom (dd_site (ds s'))"
  shows "dd_live (goto i q s')"
proof -
  have "x \<in> dom (dd_site (ds s'))" if "r \<in> set ((pcs s)[i := q])" "x \<in> pc_sites r" for r x
    using that assms(1,4,5) set_update_subset_insert [of "pcs s" i q] unfolding dd_live_def by blast
  then show ?thesis using assms(5) unfolding dd_live_def by (auto simp: goto_def assms(3))
qed

lemma dom_update_site [simp]: "dom (dd_site (update_site a f d)) = dom (dd_site d)"
  by (auto simp: update_site_def)

lemma pc_sites_after: "pc_sites (after_flush r) = (case r of None \<Rightarrow> {} | Some bs \<Rightarrow> set bs)"
  by (cases r rule: after_flush.cases) simp_all

lemma dd_step_live:
  assumes "dd_step s s'" "dd_live s"
  shows "dd_live s'"
  using assms
proof (induction rule: dd_step.induct)
  case (Construct s i a)
  then show ?case by (auto simp: dd_live_def new_dedup_def register_dedup_def)
next
  case (Tick s i a d c)
  then show ?case by (intro dd_live_goto [OF _ Tick(1)]) (auto simp: dd_live_def)
next
  case (Cas s i a c d)
  show ?case
  proof (cases "dd_initialized d")
    case True
    then show ?thesis using Cas by simp (intro dd_live_goto [OF _ Cas(1)], auto simp: dd_live_def)
  next
    case False
    then show ?thesis using Cas by simp (intro dd_live_goto [OF _ Cas(1)], auto simp: dd_live_def)
  qed
next
  case (Store s i a c)
  then have "a \<in> dom (dd_site (ds s))" using live_site by fastforce
  with Store show ?case by (intro dd_live_goto [OF _ Store(1)]) (auto simp: dd_live_def)
next
  case (Load s i a)
  then have "a \<in> dom (dd_site (ds s))" using live_site by fastforce
  with Load show ?case by (intro dd_live_goto [OF _ Load(1)]) (auto simp: dd_live_def)
next
  case (Suppress s i a)
  then show ?case by (intro dd_live_goto [OF _ Suppress(1)]) (auto simp: dd_live_def)
next
  case (Swap s i a)
  then have "a \<in> dom (dd_site (ds s))" using live_site by fastforce
  with Swap show ?case by (intro dd_live_goto [OF _ Swap(1)]) (auto simp: dd_live_def split: option.splits)
next
  case (Take s i b r d)
  have "pc_sites (Flush b r) \<subseteq> dom (dd_site (ds s))" using live_site [OF Take(3,1)] by auto
  with Take show ?case by (intro dd_live_goto [OF _ Take(1)]) (auto simp: dd_live_def)
next
  case (Zero s i b r)
  have "pc_sites (Decide b 0 r) \<subseteq> dom (dd_site (ds s))" using live_site [OF Zero(2,1)] by blast
  with Zero show ?case by (intro dd_live_goto [OF _ Zero(1)]) (auto simp: dd_live_def pc_sites_after)
next
  case (Drop s i b n r d)
  have "pc_sites (Decide b n r) \<subseteq> dom (dd_site (ds s))" using live_site [OF Drop(5,1)] by blast
  with Drop show ?case by (intro dd_live_goto [OF _ Drop(1)]) (auto simp: dd_live_def pc_sites_after)
next
  case (Withhold s i b n r d c)
  have "pc_sites (Decide b n r) \<subseteq> dom (dd_site (ds s))" using live_site [OF Withhold(5,1)] by blast
  with Withhold show ?case by (intro dd_live_goto [OF _ Withhold(1)]) (auto simp: dd_live_def pc_sites_after)
next
  case (Report s i b n r d c)
  have "pc_sites (Decide b n r) \<subseteq> dom (dd_site (ds s))" using live_site [OF Report(5,1)] by blast
  with Report show ?case by (intro dd_live_goto [OF _ Report(1)]) (auto simp: dd_live_def pc_sites_after)
next
  case (FlushAll s i)
  then show ?case by (intro dd_live_goto [OF _ FlushAll(1)]) (auto simp: dd_live_def pc_sites_after)
next
  case (Reset s i)
  then show ?case by (intro dd_live_goto [OF _ Reset(1)]) (auto simp: dd_live_def)
qed

lemma dd_reachable: "dd_step\<^sup>*\<^sup>* (dd_start m) s \<Longrightarrow> dd_live s \<and> dd_balance s a"
proof (induction rule: rtranclp_induct)
  case base
  have "in_flight a (dd_start m) = 0" by (simp add: in_flight_def dd_start_def sum_list_replicate)
  then show ?case
    by (simp add: dd_live_def dd_balance_def dd_start_def no_dedups_def pending_def)
next
  case (step s s')
  then show ?case using dd_step_live dd_step_balance by blast
qed

section \<open>Runs\<close>

text \<open>The steps by name, for evaluating a run; a decision with an identity reports.\<close>

datatype move = Construct_Site nat nat | Call_Tick nat nat dedup_call | Call_Flush_All nat | Go nat

definition the_step :: "nat \<Rightarrow> dd_threads \<Rightarrow> dd_threads option" where
  "the_step i s =
     (if i < length (pcs s) then
        case pcs s ! i of
          Idle \<Rightarrow> None
        | Claim a c \<Rightarrow>
            (case dd_site (ds s) a of
               None \<Rightarrow> None
             | Some d \<Rightarrow> Some (if dd_initialized d then goto i (LoadLast a) s
                 else goto i (Publish a c) (s\<lparr>ds := update_site a (\<lambda>d. d\<lparr>dd_initialized := True\<rparr>) (ds s)\<rparr>)))
        | Publish a c \<Rightarrow> Some (goto i (LoadLast a) (s\<lparr>ds := update_site a (publish c) (ds s)\<rparr>))
        | LoadLast a \<Rightarrow> Some (goto i (if g_last_dedup (ds s) = Some a then CountOne a else Exchange a) s)
        | CountOne a \<Rightarrow> Some (goto i Idle
            (s\<lparr>ds := update_site a (\<lambda>d. d\<lparr>dd_suppressed := dd_suppressed d + 1\<rparr>) (ds s),
               suppressed_calls := add_to a 1 (suppressed_calls s)\<rparr>))
        | Exchange a \<Rightarrow> Some (goto i
            (case g_last_dedup (ds s) of None \<Rightarrow> Idle | Some p \<Rightarrow> if p = a then Idle else Flush p None)
            (s\<lparr>ds := (ds s)\<lparr>g_last_dedup := Some a\<rparr>\<rparr>))
        | Flush b r \<Rightarrow>
            (case dd_site (ds s) b of
               None \<Rightarrow> None
             | Some d \<Rightarrow> Some (goto i (Decide b (dd_suppressed d) r)
                 (s\<lparr>ds := update_site b (\<lambda>d. d\<lparr>dd_suppressed := 0\<rparr>) (ds s)\<rparr>)))
        | Decide b n r \<Rightarrow>
            if n = 0 then Some (goto i (after_flush r) s)
            else
              (case dd_site (ds s) b of
                 None \<Rightarrow> None
               | Some d \<Rightarrow> Some (goto i (after_flush r)
                   (if identity d = None then s\<lparr>dropped := add_to b n (dropped s)\<rparr>
                    else s\<lparr>reported := add_to b n (reported s)\<rparr>)))
        | ResetLast \<Rightarrow> Some (goto i Idle (s\<lparr>ds := (ds s)\<lparr>g_last_dedup := None\<rparr>\<rparr>))
      else None)"

fun make_move :: "move \<Rightarrow> dd_threads \<Rightarrow> dd_threads option" where
  "make_move (Construct_Site i a) s =
     (if thread_at s i Idle \<and> dd_site (ds s) a = None \<and> registry_free s then Some (s\<lparr>ds := new_dedup a (ds s)\<rparr>) else None)"
| "make_move (Call_Tick i a c) s =
     (case dd_site (ds s) a of
        None \<Rightarrow> None
      | Some d \<Rightarrow> if thread_at s i Idle then Some (goto i (if dd_initialized d then LoadLast a else Claim a c) s) else None)"
| "make_move (Call_Flush_All i) s =
     (if thread_at s i Idle \<and> registry_free s then Some (goto i (after_flush (Some (dd_states (ds s)))) s) else None)"
| "make_move (Go i) s = the_step i s"

fun make_moves :: "move list \<Rightarrow> dd_threads \<Rightarrow> dd_threads option" where
  "make_moves [] s = Some s"
| "make_moves (m # ms) s = do { s \<leftarrow> make_move m s; make_moves ms s }"

lemma the_step_sound:
  assumes "the_step i s = Some s'"
  shows "dd_step s s'"
proof -
  have i: "i < length (pcs s)" using assms by (simp add: the_step_def split: if_splits)
  show ?thesis
  proof (cases "pcs s ! i")
    case (Claim a c)
    then obtain d where d: "dd_site (ds s) a = Some d" using assms by (auto simp: the_step_def i split: option.splits)
    show ?thesis using dd_step.Cas [of s i a c d] Claim assms i d by (simp add: the_step_def thread_at_def)
  next
    case (Publish a c)
    then show ?thesis using dd_step.Store [of s i a c] assms i by (simp add: the_step_def thread_at_def)
  next
    case (LoadLast a)
    then show ?thesis using dd_step.Load [of s i a] assms i by (simp add: the_step_def thread_at_def)
  next
    case (CountOne a)
    then show ?thesis using dd_step.Suppress [of s i a] assms i by (simp add: the_step_def thread_at_def)
  next
    case (Exchange a)
    then show ?thesis using dd_step.Swap [of s i a] assms i by (simp add: the_step_def thread_at_def)
  next
    case (Flush b r)
    then obtain d where d: "dd_site (ds s) b = Some d" using assms by (auto simp: the_step_def i split: option.splits)
    then show ?thesis using dd_step.Take [of s i b r d] Flush assms i by (simp add: the_step_def thread_at_def)
  next
    case (Decide b n r)
    show ?thesis
    proof (cases "n = 0")
      case True
      then show ?thesis using dd_step.Zero [of s i b r] Decide assms i by (simp add: the_step_def thread_at_def)
    next
      case False
      then obtain d where d: "dd_site (ds s) b = Some d" using Decide assms by (auto simp: the_step_def i split: option.splits)
      show ?thesis
        using dd_step.Drop [of s i b n r d] dd_step.Report [of s i b n r d] Decide False assms i d
        by (cases "identity d") (simp_all add: the_step_def thread_at_def)
    qed
  next
    case ResetLast
    then show ?thesis using dd_step.Reset [of s i] assms i by (simp add: the_step_def thread_at_def)
  qed (use assms i in \<open>simp add: the_step_def\<close>)
qed

lemma make_move_sound: "make_move m s = Some s' \<Longrightarrow> dd_step s s'"
proof (cases m)
  case (Call_Tick i a c)
  assume "make_move m s = Some s'"
  then obtain d where "dd_site (ds s) a = Some d" "thread_at s i Idle"
    "s' = goto i (if dd_initialized d then LoadLast a else Claim a c) s"
    by (auto simp: Call_Tick split: option.splits if_splits)
  then show ?thesis using dd_step.Tick [of s i a d c] by simp
qed (auto split: if_splits intro: dd_step.Construct dd_step.FlushAll the_step_sound simp del: after_flush.simps)

lemma make_moves_sound: "make_moves ms s = Some s' \<Longrightarrow> dd_step\<^sup>*\<^sup>* s s'"
proof (induction ms arbitrary: s)
  case (Cons m ms)
  then obtain t where "dd_step s t" "dd_step\<^sup>*\<^sup>* t s'" by (auto simp: bind_eq_Some_conv dest: make_move_sound)
  then show ?case by (rule converse_rtranclp_into_rtranclp)
qed simp

section \<open>What the counts amount to\<close>

text \<open>
  C11: Under every interleaving of any number of threads, every call the gate of a site suppressed is
  accounted for exactly once: reported, withheld because the level was off, dropped, carried by a thread
  between taking and reporting it, or still pending at the site; and every pointer the threads, the
  registry and \<open>g_last_dedup\<close> hold leads to a site.
\<close>

theorem dedup_counts_conserved:
  assumes "dd_step\<^sup>*\<^sup>* (dd_start m) s"
  shows "of_nat (suppressed_calls s a) =
      reported s a + withheld s a + dropped s a + in_flight a s + pending a (ds s) \<and>
    set_option (g_last_dedup (ds s)) \<union> set (dd_states (ds s)) \<union> (\<Union>p \<in> set (pcs s). pc_sites p)
      \<subseteq> dom (dd_site (ds s))"
  using dd_reachable [OF assms, of a] unfolding dd_live_def dd_balance_def by simp

definition call_at :: "u32 \<Rightarrow> dedup_call" where
  "call_at row = \<lparr>dc_logger = 0, dc_level = INFO, dc_file = ''a.cpp'', dc_line = row\<rparr>"

definition quiet_run :: "move list" where
  "quiet_run = [Construct_Site 0 0, Call_Tick 0 0 (call_at 1), Go 0, Go 0, Go 0, Go 0,
     Call_Tick 0 0 (call_at 1), Go 0, Go 0]"

lemmas run_simps = the_step_def thread_at_def goto_def registry_free_def add_to_def dd_start_def no_dedups_def
  new_dedup_def register_dedup_def fresh_dedup_def update_site_def publish_def identity_def pending_def
  in_flight_def numeral_2_eq_2

theorem dedup_counts_conserved_witness:
  "\<exists>s. dd_step\<^sup>*\<^sup>* (dd_start 1) s \<and> suppressed_calls s 0 = 1 \<and> pending 0 (ds s) + in_flight 0 s = 1"
proof -
  have "\<exists>s. make_moves quiet_run (dd_start 1) = Some s \<and> suppressed_calls s 0 = 1 \<and>
      reported s 0 + withheld s 0 + dropped s 0 = 0"
    by (simp add: quiet_run_def run_simps)
  then obtain s where s: "dd_step\<^sup>*\<^sup>* (dd_start 1) s" "suppressed_calls s 0 = 1"
    "reported s 0 + withheld s 0 + dropped s 0 = 0" using make_moves_sound by blast
  have "pending 0 (ds s) + in_flight 0 s = 1"
    using dedup_counts_conserved [OF s(1), of 0, THEN conjunct1] unfolding s(2,3) by (simp add: add.commute)
  then show ?thesis using s(1,2) by blast
qed

text \<open>
  C39: A count can get lost: a thread wins the compare-and-swap of site 0 and is delayed before it stores
  the identity; a second thread passes and is suppressed there, then logs at site 1, takes the count of
  site 0, finds no logger and forgets it.
\<close>

theorem dedup_count_lost:
  "\<exists>s. dd_step\<^sup>*\<^sup>* (dd_start 2) s \<and> pcs s = [Publish 0 (call_at 1), Idle] \<and> suppressed_calls s 0 = 1 \<and>
     dropped s 0 = 1 \<and> reported s 0 = 0 \<and> withheld s 0 = 0 \<and> pending 0 (ds s) = 0"
proof -
  have "\<exists>s. make_moves
      [Construct_Site 0 0, Call_Tick 0 0 (call_at 1), Go 0,
       Call_Tick 1 0 (call_at 1), Go 1, Go 1, Call_Tick 1 0 (call_at 1), Go 1, Go 1,
       Construct_Site 1 1, Call_Tick 1 1 (call_at 2), Go 1, Go 1, Go 1, Go 1, Go 1, Go 1] (dd_start 2) = Some s \<and>
     pcs s = [Publish 0 (call_at 1), Idle] \<and> suppressed_calls s 0 = 1 \<and>
     dropped s 0 = 1 \<and> reported s 0 = 0 \<and> withheld s 0 = 0 \<and> pending 0 (ds s) = 0"
    by (simp add: run_simps)
  then show ?thesis using make_moves_sound by blast
qed

end
