(* ===== verification/Elog_Gates.thy ===== *)
theory Elog_Gates
  imports Elog_Prelude Complex_Main
begin

text \<open>
  The rate limiters of \<open>include/elog/aggregate.hpp\<close> and \<open>src/aggregate.cpp\<close> that keep their state per
  call site (\<open>EveryNState\<close>, \<open>EveryTimeState\<close>, \<open>FirstNState\<close>, \<open>BurstState\<close>) or per thread
  (\<open>SampledState\<close> with its generator). \<open>fetch_add\<close> and the body under the mutex are atomic, so these
  are functions of the state; the compare-and-swap loop of \<open>EveryTimeState\<close> is an inductive step
  relation over any number of threads, spurious failures included. The clock readings are inputs.
  The arithmetic of \<open>double\<close> is real arithmetic with a rounding function as a parameter.
\<close>

section \<open>Counters\<close>

definition every_n_tick :: "u64 \<Rightarrow> u64 \<Rightarrow> bool \<times> u64" where
  "every_n_tick n count = (if n = 0 then (True, count) else let c = count in (c mod n = 0, count + 1))"

definition first_n_tick :: "u64 \<Rightarrow> u64 \<Rightarrow> bool \<times> u64" where
  "first_n_tick n count = (let c = count in (c < n, count + 1))"

text \<open>The answers to \<open>m\<close> calls, in the order of their \<open>fetch_add\<close>s.\<close>

fun calls :: "('s \<Rightarrow> bool \<times> 's) \<Rightarrow> nat \<Rightarrow> 's \<Rightarrow> bool list \<times> 's" where
  "calls tick 0 s = ([], s)"
| "calls tick (Suc m) s = (let (r, s) = tick s; (rs, s) = calls tick m s in (r # rs, s))"

text \<open>A gate that decides by the number of the call, or lets everything pass without counting.\<close>

locale counting_gate =
  fixes tick :: "u64 \<Rightarrow> bool \<times> u64"
    and passes :: "nat \<Rightarrow> bool"
  assumes tick: "tick c = (passes (unat c), c + 1) \<or> tick c = (True, c) \<and> passes = (\<lambda>_. True)"
begin

lemma calls_from: "unat c + m \<le> 2 ^ 64 \<Longrightarrow> fst (calls tick m c) = map passes [unat c ..< unat c + m]"
proof (induction m arbitrary: c)
  case (Suc m)
  note unroll = upt_conv_Cons [of "unat c" "unat c + Suc m"]
  show ?case
  proof (cases "m = 0")
    case True
    then show ?thesis using tick [of c] by (auto simp: split_beta Let_def)
  next
    case False
    then have "unat c + 1 < 2 ^ 64" using Suc.prems by simp
    then have u: "unat (c + 1) = unat c + 1" by (simp only: unat_word_ariths) simp
    from tick [of c] show ?thesis
    proof
      assume t: "tick c = (passes (unat c), c + 1)"
      then show ?thesis using Suc.IH [of "c + 1"] Suc.prems u unroll by (simp add: split_beta Let_def)
    next
      assume t: "tick c = (True, c) \<and> passes = (\<lambda>_. True)"
      then have "fst (calls tick m c) = map (\<lambda>_. True) [unat c ..< unat c + m]" using Suc by simp
      then show ?thesis using t by (simp add: split_beta Let_def map_replicate_const)
    qed
  qed
qed simp

lemma first_calls: "m \<le> 2 ^ 64 \<Longrightarrow> fst (calls tick m 0) = map passes [0 ..< m]"
  using calls_from [of 0 m] by simp

end

interpretation every_n: counting_gate "every_n_tick n" "\<lambda>k. n = 0 \<or> k mod unat n = 0" for n
  by unfold_locales (auto simp: every_n_tick_def fun_eq_iff Let_def simp flip: unat_mod unat_eq_zero)

interpretation first_n: counting_gate "first_n_tick n" "\<lambda>k. k < unat n" for n
  by unfold_locales (simp add: first_n_tick_def word_less_nat_alt)

lemma multiples_below:
  assumes "0 < n"
  shows "length (filter (\<lambda>k. k mod n = 0) [0 ..< m]) = (m + n - 1) div n"
proof (induction m)
  case (Suc m)
  have "Suc (m + n - 1) = m + n" using assms by simp
  then have "Suc (m + n - 1) mod n = m mod n" by (simp only: mod_add_self2)
  then have "Suc (m + n - 1) div n = (if m mod n = 0 then Suc ((m + n - 1) div n) else (m + n - 1) div n)"
    by (simp only: div_Suc)
  moreover have "Suc m + n - 1 = Suc (m + n - 1)" using assms by simp
  ultimately show ?case using Suc by simp
qed (use assms in simp)

text \<open>
  Of the first \<open>m\<close> calls of an EVERY_N site, whatever threads make them, exactly the calls
  \<open>0, n, 2 n, ...\<close> pass, which is \<open>m / n\<close> rounded up; with \<open>n = 0\<close> every call passes.
\<close>

theorem every_n_pattern:
  assumes "m \<le> 2 ^ 64"
  shows "fst (calls (every_n_tick n) m 0) = map (\<lambda>k. n = 0 \<or> k mod unat n = 0) [0 ..< m] \<and>
    length (filter id (fst (calls (every_n_tick n) m 0))) =
      (if n = 0 then m else (m + unat n - 1) div unat n)"
proof (cases "n = 0")
  case True
  then show ?thesis using every_n.first_calls [OF assms, of n] by (simp add: filter_map o_def)
next
  case False
  then have "0 < unat n" by (simp add: unat_gt_0)
  then show ?thesis
    using every_n.first_calls [OF assms, of n] False multiples_below [of "unat n" m] by (simp add: filter_map o_def)
qed

theorem every_n_pattern_witness:
  "length (filter id (fst (calls (every_n_tick 3) 7 0))) = 3"
  using every_n_pattern [of 7 3, THEN conjunct2] by simp

text \<open>
  Of the first \<open>2 ^ 64\<close> calls of a FIRST_N or ONCE site exactly the first \<open>n\<close> pass.
\<close>

theorem first_n_pattern:
  assumes "m \<le> 2 ^ 64"
  shows "fst (calls (first_n_tick n) m 0) = replicate (min m (unat n)) True @ replicate (m - unat n) False"
proof -
  have "map (\<lambda>k. k < unat n) [0 ..< m] = replicate (min m (unat n)) True @ replicate (m - unat n) False"
    by (rule nth_equalityI) (auto simp: nth_append)
  then show ?thesis using first_n.first_calls [OF assms, of n] by simp
qed

theorem first_n_pattern_witness:
  "fst (calls (first_n_tick 2) 4 0) = replicate 2 True @ replicate 2 False"
  using first_n_pattern [of 4 2] by (simp add: min_def)

section \<open>At most one line per period\<close>

text \<open>
  A call of \<open>EveryTimeState::tick\<close> reads the clock, loads \<open>next_ns\<close>, and then compares and swaps until
  it is rejected or its swap succeeds; a weak compare-and-swap may fail without a reason, and a failure
  loads the current value. \<open>et_clock\<close> is the steady clock, \<open>et_passed\<close> the clock readings of the calls
  that passed, last one first. Times are nanoseconds in signed 64-bit integers: the sum \<open>now + period_ns\<close>
  is undefined when it overflows, whether the swap that uses it succeeds or not; from then on
  \<open>et_undefined\<close> holds.
\<close>

definition add_i64 :: "int \<Rightarrow> int \<Rightarrow> int option" where
  "add_i64 x y = (if - (2 ^ 63) \<le> x + y \<and> x + y < 2 ^ 63 then Some (x + y) else None)"

datatype et_pc = Outside | Clocked int | Looping int int

record et_state =
  et_next_ns :: int
  et_clock :: int
  et_pc :: "nat \<Rightarrow> et_pc"
  et_passed :: "int list"
  et_undefined :: bool

definition et_init :: et_state where
  "et_init = \<lparr>et_next_ns = 0, et_clock = 0, et_pc = \<lambda>_. Outside, et_passed = [], et_undefined = False\<rparr>"

inductive et_step :: "int \<Rightarrow> et_state \<Rightarrow> et_state \<Rightarrow> bool" for period where
  Clock: "et_clock s \<le> t \<Longrightarrow> et_step period s (s\<lparr>et_clock := t\<rparr>)"
| Now: "et_pc s i = Outside \<Longrightarrow> et_step period s (s\<lparr>et_pc := (et_pc s)(i := Clocked (et_clock s))\<rparr>)"
| Load: "et_pc s i = Clocked now \<Longrightarrow>
    et_step period s (s\<lparr>et_pc := (et_pc s)(i := Looping now (et_next_ns s))\<rparr>)"
| Reject: "et_pc s i = Looping now expected \<Longrightarrow> now < expected \<Longrightarrow>
    et_step period s (s\<lparr>et_pc := (et_pc s)(i := Outside)\<rparr>)"
| Overflow: "et_pc s i = Looping now expected \<Longrightarrow> \<not> now < expected \<Longrightarrow> add_i64 now period = None \<Longrightarrow>
    et_step period s (s\<lparr>et_undefined := True\<rparr>)"
| Swap: "et_pc s i = Looping now expected \<Longrightarrow> \<not> now < expected \<Longrightarrow> add_i64 now period = Some desired \<Longrightarrow>
    et_next_ns s = expected \<Longrightarrow>
    et_step period s (s\<lparr>et_pc := (et_pc s)(i := Outside), et_next_ns := desired,
                        et_passed := now # et_passed s\<rparr>)"
| Fail: "et_pc s i = Looping now expected \<Longrightarrow> \<not> now < expected \<Longrightarrow> add_i64 now period = Some desired \<Longrightarrow>
    et_step period s (s\<lparr>et_pc := (et_pc s)(i := Looping now (et_next_ns s))\<rparr>)"

inductive_cases et_stepE: "et_step period s s'"

text \<open>A call no other thread interferes with; \<open>None\<close> is the overflow.\<close>

definition every_time_tick :: "int \<Rightarrow> int \<Rightarrow> int \<Rightarrow> (bool \<times> int) option" where
  "every_time_tick period now next_ns =
     (if now < next_ns then Some (False, next_ns) else map_option (Pair True) (add_i64 now period))"

fun spaced :: "int \<Rightarrow> int list \<Rightarrow> bool" where
  "spaced d [] \<longleftrightarrow> True"
| "spaced d [x] \<longleftrightarrow> True"
| "spaced d (x # y # xs) \<longleftrightarrow> y + d \<le> x \<and> spaced d (y # xs)"

fun pc_now :: "et_pc \<Rightarrow> int option" where
  "pc_now Outside = None"
| "pc_now (Clocked now) = Some now"
| "pc_now (Looping now e) = Some now"

definition et_inv :: "int \<Rightarrow> et_state \<Rightarrow> bool" where
  "et_inv period s \<longleftrightarrow> spaced period (et_passed s) \<and>
     et_next_ns s = (case et_passed s of [] \<Rightarrow> 0 | x # _ \<Rightarrow> x + period) \<and>
     0 \<le> et_clock s \<and> (\<forall>x \<in> set (et_passed s). 0 \<le> x \<and> x \<le> et_clock s) \<and>
     (\<forall>i now. pc_now (et_pc s i) = Some now \<longrightarrow> 0 \<le> now \<and> now \<le> et_clock s) \<and>
     (et_undefined s \<longrightarrow> 0 \<le> period \<longrightarrow> 2 ^ 63 \<le> et_clock s + period)"

lemma add_i64_Some: "add_i64 x y = Some z \<longleftrightarrow> z = x + y \<and> - (2 ^ 63) \<le> x + y \<and> x + y < 2 ^ 63"
  by (auto simp: add_i64_def)

lemma et_step_inv: "et_step period s s' \<Longrightarrow> et_inv period s \<Longrightarrow> et_inv period s'"
proof (induction rule: et_step.induct)
  case (Swap s i now expected desired)
  have "0 \<le> now \<and> now \<le> et_clock s" using Swap(1,5) unfolding et_inv_def by (metis pc_now.simps(3))
  then show ?case using Swap by (cases "et_passed s") (auto simp: et_inv_def add_i64_Some)
next
  case (Overflow s i now expected)
  have "0 \<le> now \<and> now \<le> et_clock s" using Overflow(1,4) unfolding et_inv_def by (metis pc_now.simps(3))
  then show ?case using Overflow(3,4) by (auto simp: et_inv_def add_i64_def split: if_splits)
next
  case (Load s i now)
  have "0 \<le> now \<and> now \<le> et_clock s" using Load unfolding et_inv_def by (metis pc_now.simps(2))
  then show ?case using Load by (auto simp: et_inv_def)
next
  case (Fail s i now expected desired)
  have "0 \<le> now \<and> now \<le> et_clock s" using Fail unfolding et_inv_def by (metis pc_now.simps(3))
  then show ?case using Fail by (auto simp: et_inv_def)
next
  case (Clock s t)
  then show ?case unfolding et_inv_def by (auto intro: order_trans)
qed (auto simp: et_inv_def)

lemma et_reachable_inv: "(et_step period)\<^sup>*\<^sup>* et_init s \<Longrightarrow> et_inv period s"
proof (induction rule: rtranclp_induct)
  case base
  show ?case by (simp add: et_inv_def et_init_def)
qed (rule et_step_inv)

lemma spaced_nth:
  assumes "spaced d xs" "0 \<le> d" "i < j" "j < length xs"
  shows "xs ! j + d * int (j - i) \<le> xs ! i"
  using assms(1,3,4)
proof (induction d xs arbitrary: i j rule: spaced.induct)
  case (3 d x y xs)
  have ih: "(y # xs) ! j' + d * int (j' - i') \<le> (y # xs) ! i'" if "i' < j'" "j' < length (y # xs)" for i' j'
    using 3 that by simp
  obtain j' where j: "j = Suc j'" using 3(3) by (cases j) auto
  show ?case
  proof (cases i)
    case 0
    have "(y # xs) ! j' + d * int j' \<le> y"
      using ih [of 0 j'] 3(4) j by (cases "j' = 0") auto
    then show ?thesis using 0 j 3(2) by (simp add: algebra_simps)
  next
    case (Suc i')
    then show ?thesis using ih [of i' j'] 3(3,4) j by simp
  qed
qed auto

text \<open>
  C16: Whatever the interleaving of any number of threads, as long as the clock is more than a period away
  from \<open>2 ^ 63\<close> ns: no sum overflows, and the lines an EVERY_N_SEC or EVERY_N_MS site lets through are at
  least a period apart, \<open>k + 1\<close> passes spanning \<open>k\<close> periods of the steady clock.
\<close>

theorem every_time_spacing:
  assumes "(et_step period)\<^sup>*\<^sup>* et_init s" "0 \<le> period" "et_clock s + period < 2 ^ 63"
  shows "\<not> et_undefined s \<and>
    (\<forall>i j. i < j \<and> j < length (et_passed s) \<longrightarrow> et_passed s ! j + period * int (j - i) \<le> et_passed s ! i)"
  using et_reachable_inv [OF assms(1)] spaced_nth [OF _ assms(2)] assms(2,3) by (auto simp: et_inv_def)

text \<open>
  The other side: on a clock that has got that far, the first call of a site overflows.
\<close>

lemma every_time_overflow:
  assumes "0 \<le> now" "0 \<le> period" "2 ^ 63 \<le> now + period"
  shows "every_time_tick period now 0 = None" "\<exists>s. (et_step period)\<^sup>*\<^sup>* et_init s \<and> et_undefined s"
proof -
  show "every_time_tick period now 0 = None" using assms by (simp add: every_time_tick_def add_i64_def)
  let ?s1 = "et_init\<lparr>et_clock := now\<rparr>"
  let ?s2 = "?s1\<lparr>et_pc := (et_pc ?s1)(0 := Clocked now)\<rparr>"
  let ?s3 = "?s2\<lparr>et_pc := (et_pc ?s2)(0 := Looping now (et_next_ns ?s2))\<rparr>"
  have 1: "et_step period et_init ?s1" by (rule et_step.Clock) (simp add: et_init_def assms)
  have "et_step period ?s1 (?s1\<lparr>et_pc := (et_pc ?s1)(0 := Clocked (et_clock ?s1))\<rparr>)"
    by (rule et_step.Now) (simp add: et_init_def)
  then have 2: "et_step period ?s1 ?s2" by simp
  have 3: "et_step period ?s2 ?s3" by (rule et_step.Load) simp
  have 4: "et_step period ?s3 (?s3\<lparr>et_undefined := True\<rparr>)"
    by (rule et_step.Overflow [where i = 0 and now = now and expected = 0]) (use assms in \<open>simp_all add: et_init_def add_i64_def\<close>)
  have "(et_step period)\<^sup>*\<^sup>* et_init (?s3\<lparr>et_undefined := True\<rparr>)"
    using 1 2 3 4 by (meson rtranclp.rtrancl_into_rtrancl rtranclp.rtrancl_refl)
  moreover have "et_undefined (?s3\<lparr>et_undefined := True\<rparr>)" by simp
  ultimately show "\<exists>s. (et_step period)\<^sup>*\<^sup>* et_init s \<and> et_undefined s" by blast
qed

lemma et_call_alone:
  assumes "et_pc s i = Outside" "every_time_tick period (et_clock s) (et_next_ns s) = Some (b, t)"
  shows "\<exists>s'. (et_step period)\<^sup>*\<^sup>* s s' \<and> et_pc s' = et_pc s \<and> et_clock s' = et_clock s \<and>
    et_next_ns s' = t \<and> et_passed s' = (if b then et_clock s # et_passed s else et_passed s)"
proof -
  let ?now = "et_clock s" and ?e = "et_next_ns s"
  let ?s1 = "s\<lparr>et_pc := (et_pc s)(i := Clocked ?now)\<rparr>"
  let ?s2 = "?s1\<lparr>et_pc := (et_pc ?s1)(i := Looping ?now (et_next_ns ?s1))\<rparr>"
  have 1: "et_step period s ?s1" by (rule et_step.Now [OF assms(1)])
  have 2: "et_step period ?s1 ?s2" by (rule et_step.Load) simp
  have to2: "(et_step period)\<^sup>*\<^sup>* s ?s2" using 1 2 by (rule converse_rtranclp_into_rtranclp [of "et_step period", OF _ r_into_rtranclp [of "et_step period"]])
  show ?thesis
  proof (cases "?now < ?e")
    case True
    let ?s3 = "?s2\<lparr>et_pc := (et_pc ?s2)(i := Outside)\<rparr>"
    have 3: "et_step period ?s2 ?s3" by (rule et_step.Reject [where now = ?now and expected = ?e]) (simp_all add: True)
    have "(et_step period)\<^sup>*\<^sup>* s ?s3" by (rule rtranclp.rtrancl_into_rtrancl [of "et_step period", OF to2 3])
    then show ?thesis
      using True assms by (intro exI [of _ ?s3]) (auto simp: every_time_tick_def fun_upd_idem)
  next
    case False
    have bt: "b" "add_i64 ?now period = Some t" using assms(2) False by (auto simp: every_time_tick_def)
    let ?s3 = "?s2\<lparr>et_pc := (et_pc ?s2)(i := Outside), et_next_ns := t, et_passed := ?now # et_passed ?s2\<rparr>"
    have 3: "et_step period ?s2 ?s3" by (rule et_step.Swap [where expected = ?e]) (simp_all add: False bt)
    have "(et_step period)\<^sup>*\<^sup>* s ?s3" by (rule rtranclp.rtrancl_into_rtrancl [of "et_step period", OF to2 3])
    then show ?thesis
      using False assms(1) bt by (intro exI [of _ ?s3]) (simp add: fun_upd_idem)
  qed
qed

theorem every_time_spacing_witness:
  "\<exists>s. (et_step 5)\<^sup>*\<^sup>* et_init s \<and> length (et_passed s) = 2 \<and> et_passed s ! 1 + 5 \<le> et_passed s ! 0"
proof -
  obtain s1 where s1: "(et_step 5)\<^sup>*\<^sup>* et_init s1" "et_pc s1 = et_pc et_init" "et_clock s1 = 0"
    "et_next_ns s1 = 5" "et_passed s1 = [0]"
    using et_call_alone [of et_init 0 5 True 5] by (auto simp: et_init_def every_time_tick_def add_i64_def)
  let ?s2 = "s1\<lparr>et_clock := 7\<rparr>"
  have 2: "et_step 5 s1 ?s2" by (rule et_step.Clock) (simp add: s1)
  obtain s3 where s3: "(et_step 5)\<^sup>*\<^sup>* ?s2 s3" "et_passed s3 = [7, 0]" "et_clock s3 = 7"
    using et_call_alone [of ?s2 0 5 True 12] s1 by (auto simp: et_init_def every_time_tick_def add_i64_def)
  have r: "(et_step 5)\<^sup>*\<^sup>* et_init s3"
    using s1(1) 2 s3(1) by (meson rtranclp.rtrancl_into_rtrancl rtranclp_trans)
  have "\<forall>i j. i < j \<and> j < length (et_passed s3) \<longrightarrow> et_passed s3 ! j + 5 * int (j - i) \<le> et_passed s3 ! i"
    using every_time_spacing [OF r] s3(3) by simp
  then have "et_passed s3 ! 1 + 5 * int (1 - 0) \<le> et_passed s3 ! 0" using s3(2) by (metis length_Cons lessI list.size(3) One_nat_def)
  then show ?thesis using r s3(2) by auto
qed

text \<open>
  A call other threads leave alone returns, unless its sum overflows, with the decision of
  \<open>every_time_tick\<close>: rejected before the time stored, otherwise passed with the time moved a period
  ahead; so the first call of a site passes.
\<close>

theorem every_time_call_returns:
  assumes "et_pc s i = Outside" "every_time_tick period (et_clock s) (et_next_ns s) = Some (b, t)"
  shows "\<exists>s'. (et_step period)\<^sup>*\<^sup>* s s' \<and> et_pc s' i = Outside \<and> et_next_ns s' = t \<and>
    (et_passed s' \<noteq> et_passed s \<longleftrightarrow> et_next_ns s \<le> et_clock s)"
proof -
  obtain s' where "(et_step period)\<^sup>*\<^sup>* s s'" "et_pc s' = et_pc s" "et_next_ns s' = t"
    "et_passed s' = (if b then et_clock s # et_passed s else et_passed s)"
    using et_call_alone [OF assms] by blast
  moreover have "b \<longleftrightarrow> et_next_ns s \<le> et_clock s"
    using assms(2) by (auto simp: every_time_tick_def split: if_splits)
  ultimately show ?thesis using assms(1) by (intro exI [of _ s']) auto
qed

theorem every_time_call_returns_witness:
  "\<exists>s'. (et_step 5)\<^sup>*\<^sup>* et_init s' \<and> et_passed s' \<noteq> []"
proof -
  have "et_pc et_init 0 = Outside" "every_time_tick 5 (et_clock et_init) (et_next_ns et_init) = Some (True, 5)"
    by (simp_all add: et_init_def every_time_tick_def add_i64_def)
  from every_time_call_returns [OF this] show ?thesis by (auto simp: et_init_def)
qed

section \<open>Sampling\<close>

definition rng_seed :: "u64 \<Rightarrow> u64" where
  "rng_seed seed = (if seed \<noteq> 0 then seed else 0x9E3779B97F4A7C15)"

text \<open>The generator of a thread starts from two draws of \<open>std::random_device\<close>.\<close>

definition tls_rng :: "u32 \<Rightarrow> u32 \<Rightarrow> u64" where
  "tls_rng rd1 rd2 = rng_seed (push_bit 32 (ucast rd1) XOR ucast rd2)"

definition xorshift_next :: "u64 \<Rightarrow> u64" where
  "xorshift_next s =
     (let x = s; x = xor x (push_bit 13 x); x = xor x (drop_bit 7 x); x = xor x (push_bit 17 x) in x)"

text \<open>The state is the thread's generator.\<close>

definition sampled_tick :: "u32 \<Rightarrow> u64 \<Rightarrow> bool \<times> u64" where
  "sampled_tick prob_percent s =
     (if prob_percent = 0 then (False, s)
      else if prob_percent \<ge> 100 then (True, s)
      else let r = xorshift_next s in (r mod 100 < ucast prob_percent, r))"

lemma xor_push_zero:
  assumes "xor x (push_bit k x) = (0 :: u64)" "0 < k"
  shows "x = 0"
proof -
  have "\<not> bit x n" for n
  proof (induction n rule: less_induct)
    case (less n)
    show ?case
    proof (cases "n < 64")
      case True
      have "bit x n \<longleftrightarrow> k \<le> n \<and> bit x (n - k)"
        using arg_cong [OF assms(1), of "\<lambda>w. bit w n"] True by (auto simp: bit_xor_iff bit_push_bit_iff)
      then show ?thesis using less [of "n - k"] assms(2) by auto
    qed (use bit_imp_le_length [of x n] in auto)
  qed
  then show ?thesis by (simp add: bit_eq_iff)
qed

lemma xor_drop_zero:
  assumes "xor x (drop_bit k x) = (0 :: u64)" "0 < k"
  shows "x = 0"
proof -
  have "\<not> bit x n" for n
  proof (induction "64 - n" arbitrary: n rule: less_induct)
    case less
    show ?case
    proof (cases "n < 64")
      case True
      have "bit x n \<longleftrightarrow> bit x (n + k)"
        using arg_cong [OF assms(1), of "\<lambda>w. bit w n"] by (auto simp: bit_xor_iff bit_drop_bit_eq add.commute)
      then show ?thesis using less [of "n + k"] assms(2) True by auto
    qed (use bit_imp_le_length [of x n] in auto)
  qed
  then show ?thesis by (simp add: bit_eq_iff)
qed

lemma xor_eq_zero: "xor x y = (0 :: u64) \<longleftrightarrow> x = y"
  by (auto simp: bit_eq_iff bit_xor_iff)

lemma push_xor_cancel:
  assumes "xor x (push_bit k x) = xor y (push_bit k (y :: u64))" "0 < k"
  shows "x = y"
proof -
  have "xor (xor x y) (push_bit k (xor x y)) = xor (xor x (push_bit k x)) (xor y (push_bit k y))"
    by (simp only: push_bit_xor xor.assoc xor.left_commute)
  also have "\<dots> = 0" by (simp add: assms(1))
  finally show ?thesis using xor_push_zero [OF _ assms(2)] xor_eq_zero by blast
qed

lemma drop_xor_cancel:
  assumes "xor x (drop_bit k x) = xor y (drop_bit k (y :: u64))" "0 < k"
  shows "x = y"
proof -
  have "xor (xor x y) (drop_bit k (xor x y)) = xor (xor x (drop_bit k x)) (xor y (drop_bit k y))"
    by (simp only: drop_bit_xor xor.assoc xor.left_commute)
  also have "\<dots> = 0" by (simp add: assms(1))
  finally show ?thesis using xor_drop_zero [OF _ assms(2)] xor_eq_zero by blast
qed

lemma inj_xorshift_next: "inj xorshift_next"
proof (rule injI)
  fix x y assume "xorshift_next x = xorshift_next y"
  then have "xor (xor x (push_bit 13 x)) (drop_bit 7 (xor x (push_bit 13 x))) =
      xor (xor y (push_bit 13 y)) (drop_bit 7 (xor y (push_bit 13 y)))"
    unfolding xorshift_next_def Let_def by (rule push_xor_cancel) simp
  then have "xor x (push_bit 13 x) = xor y (push_bit 13 y)" by (rule drop_xor_cancel) simp
  then show "x = y" by (rule push_xor_cancel) simp
qed

text \<open>
  C38: The generator is a permutation of the 64-bit states that fixes zero, so a state seeded nonzero
  never gets stuck at zero; 0 percent never passes and 100 percent or more always, both without
  drawing a number, and every percentage between draws exactly one.
\<close>

theorem sampling_never_degenerates:
  "bij xorshift_next \<and> (xorshift_next s = 0 \<longleftrightarrow> s = 0) \<and> rng_seed seed \<noteq> 0 \<and>
   (xorshift_next ^^ n) (rng_seed seed) \<noteq> 0 \<and>
   sampled_tick 0 s = (False, s) \<and> sampled_tick (max 100 p) s = (True, s) \<and>
   snd (sampled_tick p s) = (if p = 0 \<or> 100 \<le> p then s else xorshift_next s)"
proof -
  have b: "bij xorshift_next" using inj_xorshift_next by (simp add: finite_UNIV_inj_surj bij_def)
  have z: "xorshift_next 0 = 0" by (simp add: xorshift_next_def)
  have nz: "xorshift_next t = 0 \<longleftrightarrow> t = 0" for t
    using inj_xorshift_next z by (metis injD)
  have seed: "rng_seed seed \<noteq> 0" by (simp add: rng_seed_def)
  have "(xorshift_next ^^ n) (rng_seed seed) \<noteq> 0" by (induction n) (simp_all add: seed nz)
  moreover have "sampled_tick (max 100 p) s = (True, s)"
  proof -
    have "100 \<le> max 100 p" by (rule max.cobounded1)
    moreover from this have "max 100 p \<noteq> 0" by (cases "max 100 p = 0") simp_all
    ultimately show ?thesis by (simp add: sampled_tick_def)
  qed
  ultimately show ?thesis using b nz seed by (simp add: sampled_tick_def Let_def)
qed

end
