(* ===== verification/Elog_Burst.thy ===== *)
theory Elog_Burst
  imports Elog_Gates
begin

text \<open>
  The token bucket of \<open>BurstState\<close> (\<open>src/aggregate.cpp\<close>). Its fields \<open>tokens\<close> and \<open>elapsed\<close> are doubles:
  they are real numbers here, and every operation rounds its exact result with \<open>round_double\<close>, to the
  nearest double and ties to even, as the hardware does. Overflow to infinity is out of reach: tokens
  stay below the burst. What the bucket needs of rounding is the interface \<open>rounding\<close>.
\<close>

section \<open>Rounding to double\<close>

definition round_even :: "real \<Rightarrow> int" where
  "round_even x = (let n = \<lfloor>x\<rfloor>; r = x - of_int n in if r < 1 / 2 \<or> r = 1 / 2 \<and> even n then n else n + 1)"

text \<open>The exponent of the last place of a double next to \<open>x\<close>, subnormals included.\<close>

definition last_place :: "real \<Rightarrow> int" where
  "last_place x = max (\<lfloor>log 2 x\<rfloor> - 52) (- 1074)"

definition round_pos :: "real \<Rightarrow> real" where
  "round_pos x = (let e = last_place x in of_int (round_even (x / 2 powr of_int e)) * 2 powr of_int e)"

definition round_double :: "real \<Rightarrow> real" where
  "round_double x = (if x = 0 then 0 else if x < 0 then - round_pos (- x) else round_pos x)"

lemma round_even_of_int [simp]: "round_even (of_int n) = n"
  by (simp add: round_even_def)

lemma round_even_near: "of_int (round_even x) \<le> x + 1 / 2" "x - 1 / 2 \<le> of_int (round_even x)"
  unfolding round_even_def Let_def by (auto; linarith)+

lemma round_even_mono:
  assumes "x \<le> y"
  shows "round_even x \<le> round_even y"
proof (cases "\<lfloor>x\<rfloor> = \<lfloor>y\<rfloor>")
  case True
  then show ?thesis using assms unfolding round_even_def Let_def by auto
next
  case False
  then have "\<lfloor>x\<rfloor> < \<lfloor>y\<rfloor>" using floor_mono [OF assms] by simp
  then show ?thesis unfolding round_even_def Let_def by auto
qed

lemma round_even_le: "x \<le> of_int n \<Longrightarrow> round_even x \<le> n"
  using round_even_mono [of x "of_int n"] by simp

lemma round_even_ge: "of_int n \<le> x \<Longrightarrow> n \<le> round_even x"
  using round_even_mono [of "of_int n" x] by simp

lemma powr_floor_log:
  assumes "0 < x"
  shows "2 powr of_int \<lfloor>log 2 x\<rfloor> \<le> x" "x < 2 powr of_int (\<lfloor>log 2 x\<rfloor> + 1)"
proof -
  have "of_int \<lfloor>log 2 x\<rfloor> \<le> log 2 x" by (rule of_int_floor_le)
  then show "2 powr of_int \<lfloor>log 2 x\<rfloor> \<le> x" using assms by (simp only: le_log_iff [of 2 x] one_less_numeral_iff semiring_norm)
  have "log 2 x < of_int (\<lfloor>log 2 x\<rfloor> + 1)" by linarith
  then show "x < 2 powr of_int (\<lfloor>log 2 x\<rfloor> + 1)" using assms
    by (simp only: log_less_iff [of 2 x] one_less_numeral_iff semiring_norm)
qed

lemma round_pos_nonneg: "0 < x \<Longrightarrow> 0 \<le> round_pos x"
  unfolding round_pos_def Let_def by (simp add: round_even_ge [of 0, simplified])

lemma round_pos_upper:
  assumes "0 < x"
  shows "round_pos x \<le> 2 powr of_int (last_place x + 53)"
proof -
  let ?e = "last_place x"
  have "x < 2 powr of_int (\<lfloor>log 2 x\<rfloor> + 1)" by (rule powr_floor_log [OF assms])
  also have "\<dots> \<le> 2 powr of_int (?e + 53)" by (simp add: last_place_def)
  also have "\<dots> = 2 powr of_int ?e * 2 ^ 53" by (simp add: powr_add powr_numeral)
  finally have "x / 2 powr of_int ?e \<le> of_int (2 ^ 53)" by (simp add: field_simps)
  then have "round_even (x / 2 powr of_int ?e) \<le> 2 ^ 53" by (rule round_even_le)
  then have "of_int (round_even (x / 2 powr of_int ?e)) \<le> (2 :: real) ^ 53"
    by (metis of_int_le_iff of_int_numeral of_int_power)
  then show ?thesis unfolding round_pos_def Let_def by (simp add: powr_add powr_numeral mult.commute)
qed

lemma round_pos_lower:
  assumes "0 < x" "- 1074 < last_place x"
  shows "2 powr of_int (last_place x + 52) \<le> round_pos x"
proof -
  let ?e = "last_place x"
  have "?e + 52 = \<lfloor>log 2 x\<rfloor>" using assms(2) by (simp add: last_place_def max_def split: if_splits)
  then have "2 powr of_int (?e + 52) \<le> x" using powr_floor_log(1) [OF assms(1)] by simp
  moreover have "(2 :: real) powr of_int (?e + 52) = 2 powr of_int ?e * 2 ^ 52" by (simp add: powr_add powr_numeral)
  ultimately have "of_int (2 ^ 52) \<le> x / 2 powr of_int ?e" by (simp add: field_simps)
  then have "2 ^ 52 \<le> round_even (x / 2 powr of_int ?e)" by (rule round_even_ge)
  then have "(2 :: real) ^ 52 \<le> of_int (round_even (x / 2 powr of_int ?e))"
    by (metis of_int_le_iff of_int_numeral of_int_power)
  then show ?thesis unfolding round_pos_def Let_def by (simp add: powr_add powr_numeral mult.commute)
qed

lemma round_pos_mono:
  assumes "0 < x" "x \<le> y"
  shows "round_pos x \<le> round_pos y"
proof (cases "last_place x = last_place y")
  case True
  have "x / 2 powr of_int (last_place y) \<le> y / 2 powr of_int (last_place y)" using assms by (simp add: field_simps)
  then show ?thesis unfolding round_pos_def Let_def True
    by (intro mult_right_mono) (simp_all add: round_even_mono)
next
  case False
  have "last_place x \<le> last_place y"
    using assms unfolding last_place_def by (intro max.mono diff_right_mono floor_mono) simp_all
  with False have e: "last_place x + 53 \<le> last_place y + 52" by simp
  moreover have "- 1074 \<le> last_place x" by (simp add: last_place_def)
  ultimately have "2 powr of_int (last_place y + 52) \<le> round_pos y"
    using assms by (intro round_pos_lower) simp_all
  moreover have "(2 :: real) powr of_int (last_place x + 53) \<le> 2 powr of_int (last_place y + 52)"
    using e by (intro powr_mono) (simp_all only: of_int_le_iff one_le_numeral)
  ultimately show ?thesis using round_pos_upper [OF assms(1)] by linarith
qed

lemma round_double_mono: "x \<le> y \<Longrightarrow> round_double x \<le> round_double y"
  using round_pos_mono [of x y] round_pos_mono [of "- y" "- x"] round_pos_nonneg [of y] round_pos_nonneg [of "- x"]
  unfolding round_double_def by auto

lemma round_pos_nat:
  assumes "0 < n" "n < 2 ^ 53"
  shows "round_pos (of_nat n) = of_nat n"
proof -
  let ?e = "last_place (of_nat n)"
  have "real n < 2 powr 53" using assms(2) by (simp add: powr_numeral)
  then have "log 2 (of_nat n) < 53" using assms(1) by (simp add: log_less_iff)
  then have "?e \<le> 0" unfolding last_place_def by linarith
  then obtain k where k: "?e = - int k" by (metis nonpos_int_cases)
  have "of_nat n / 2 powr of_int ?e = (of_int (int n * 2 ^ k) :: real)"
    by (simp add: k powr_minus powr_realpow field_simps)
  then show ?thesis unfolding round_pos_def Let_def
    by (simp only: round_even_of_int) (simp add: k powr_minus powr_realpow)
qed

lemma round_double_nat: "n < 2 ^ 53 \<Longrightarrow> round_double (of_nat n) = of_nat n"
  by (cases "n = 0") (simp_all add: round_double_def round_pos_nat)

text \<open>What the bucket relies on; real arithmetic without rounding has it too.\<close>

locale rounding =
  fixes rnd :: "real \<Rightarrow> real"
  assumes rnd_mono: "x \<le> y \<Longrightarrow> rnd x \<le> rnd y"
    and rnd_nat: "n < 2 ^ 53 \<Longrightarrow> rnd (of_nat n) = of_nat n"

section \<open>The bucket\<close>

record burst_state =
  bs_tokens :: real
  bs_last_ns :: int
  bs_initialized :: bool

text \<open>\<open>static_cast<double>(burst)\<close>, exact.\<close>

definition capacity :: "u32 \<Rightarrow> real" where
  "capacity burst = of_nat (unat burst)"

lemma capacity_nonneg [simp]: "0 \<le> capacity burst"
  by (simp only: capacity_def of_nat_0_le_iff)

lemma unat_u32_less: "unat (x :: u32) < 2 ^ 53"
  using unsigned_less [where ?'a = nat and w = x] by simp

definition burst_init :: burst_state where
  "burst_init = \<lparr>bs_tokens = 0, bs_last_ns = 0, bs_initialized = False\<rparr>"

definition elapsed_seconds :: "(real \<Rightarrow> real) \<Rightarrow> int \<Rightarrow> real" where
  "elapsed_seconds rnd ns = rnd (rnd (of_int ns) / 10 ^ 9)"

definition burst_refill :: "(real \<Rightarrow> real) \<Rightarrow> u32 \<Rightarrow> real \<Rightarrow> int \<Rightarrow> burst_state \<Rightarrow> burst_state" where
  "burst_refill rnd burst refill_per_sec now s =
     (if \<not> bs_initialized s then \<lparr>bs_tokens = capacity burst, bs_last_ns = now, bs_initialized = True\<rparr>
      else
        let elapsed = elapsed_seconds rnd (now - bs_last_ns s) in
        if 0 < elapsed then
          let t = rnd (bs_tokens s + rnd (elapsed * refill_per_sec)) in
          s\<lparr>bs_tokens := (if capacity burst < t then capacity burst else t), bs_last_ns := now\<rparr>
        else s)"

definition burst_tick :: "(real \<Rightarrow> real) \<Rightarrow> u32 \<Rightarrow> real \<Rightarrow> int \<Rightarrow> burst_state \<Rightarrow> bool \<times> burst_state" where
  "burst_tick rnd burst refill_per_sec now s =
     (let s = burst_refill rnd burst refill_per_sec now s in
      if 1 \<le> bs_tokens s then (True, s\<lparr>bs_tokens := rnd (bs_tokens s - 1)\<rparr>) else (False, s))"

text \<open>Calls at the given readings of the clock, in the order they take the mutex.\<close>

fun burst_calls :: "(real \<Rightarrow> real) \<Rightarrow> u32 \<Rightarrow> real \<Rightarrow> int list \<Rightarrow> burst_state \<Rightarrow> bool list \<times> burst_state" where
  "burst_calls rnd burst r [] s = ([], s)"
| "burst_calls rnd burst r (now # ns) s =
     (let (b, s) = burst_tick rnd burst r now s; (bs, s) = burst_calls rnd burst r ns s in (b # bs, s))"

definition bucket_ok :: "u32 \<Rightarrow> burst_state \<Rightarrow> bool" where
  "bucket_ok burst s \<longleftrightarrow> (bs_initialized s \<longrightarrow> 0 \<le> bs_tokens s \<and> bs_tokens s \<le> capacity burst)"

context rounding begin

lemma rnd_0: "rnd 0 = 0"
  using rnd_nat [of 0] by simp

lemma rnd_1: "rnd 1 = 1"
  using rnd_nat [of 1] by simp

lemma rnd_nonneg: "0 \<le> x \<Longrightarrow> 0 \<le> rnd x"
  using rnd_mono [of 0 x] by (simp add: rnd_0)

lemma rnd_burst: "rnd (capacity burst) = capacity burst"
  unfolding capacity_def by (rule rnd_nat [OF unat_u32_less])

lemma refill_ok:
  assumes "bucket_ok burst s" "0 \<le> r"
  shows "bucket_ok burst (burst_refill rnd burst r now s)"
  using assms unfolding bucket_ok_def burst_refill_def
  by (auto simp: Let_def intro!: rnd_nonneg add_nonneg_nonneg mult_nonneg_nonneg)

lemma tick_ok:
  assumes "bucket_ok burst s" "0 \<le> r"
  shows "bucket_ok burst (snd (burst_tick rnd burst r now s))"
proof -
  let ?s = "burst_refill rnd burst r now s"
  have ok: "bucket_ok burst ?s" by (rule refill_ok [OF assms])
  have "0 \<le> rnd (bs_tokens ?s - 1)" if "1 \<le> bs_tokens ?s" using that by (intro rnd_nonneg) simp
  moreover have "rnd (bs_tokens ?s - 1) \<le> capacity burst" if "bs_tokens ?s \<le> capacity burst"
    using rnd_mono [of "bs_tokens ?s - 1" "capacity burst"] that rnd_burst by simp
  ultimately show ?thesis using ok unfolding burst_tick_def bucket_ok_def by (auto simp: Let_def)
qed

lemma calls_ok:
  assumes "bucket_ok burst s" "0 \<le> r"
  shows "bucket_ok burst (snd (burst_calls rnd burst r ns s))"
  using assms
proof (induction ns arbitrary: s)
  case (Cons now ns)
  then show ?case using tick_ok [of burst s r now] by (simp add: split_beta Let_def)
qed simp

text \<open>Readings that do not move the clock forward refill nothing.\<close>

lemma calls_standing_still:
  assumes "bs_initialized s" "bs_tokens s = of_nat k" "k \<le> unat burst" "\<forall>now \<in> set ns. now \<le> bs_last_ns s"
  shows "fst (burst_calls rnd burst r ns s) =
    replicate (min (length ns) k) True @ replicate (length ns - k) False"
  using assms
proof (induction ns arbitrary: s k)
  case (Cons now ns)
  have "rnd (of_int (now - bs_last_ns s)) \<le> 0" using rnd_mono [of "of_int (now - bs_last_ns s)" 0] Cons.prems(4) by (simp add: rnd_0)
  then have "elapsed_seconds rnd (now - bs_last_ns s) \<le> 0"
    unfolding elapsed_seconds_def using rnd_mono [of "rnd (of_int (now - bs_last_ns s)) / 10 ^ 9" 0] by (simp add: rnd_0)
  then have still: "burst_refill rnd burst r now s = s" using Cons.prems(1) by (simp add: burst_refill_def Let_def)
  show ?case
  proof (cases k)
    case 0
    then show ?thesis using Cons.IH [of s 0] Cons.prems still by (simp add: burst_tick_def split_beta Let_def)
  next
    case (Suc j)
    have "rnd (of_nat j) = of_nat j"
      using Cons.prems(3) Suc unat_u32_less [of burst] by (intro rnd_nat) simp
    then show ?thesis
      using Cons.IH [of "s\<lparr>bs_tokens := of_nat j\<rparr>" j] Cons.prems still Suc
      by (simp add: burst_tick_def split_beta Let_def)
  qed
qed simp

lemma at_once:
  "fst (burst_calls rnd burst r (replicate m now) burst_init) =
     replicate (min m (unat burst)) True @ replicate (m - unat burst) False"
proof (cases m)
  case (Suc n)
  let ?s = "\<lparr>bs_tokens = capacity burst, bs_last_ns = now, bs_initialized = True\<rparr>"
  have "burst_refill rnd burst r now burst_init = burst_refill rnd burst r now ?s"
    by (simp add: burst_refill_def burst_init_def elapsed_seconds_def rnd_0)
  then have "burst_calls rnd burst r (replicate m now) burst_init = burst_calls rnd burst r (replicate m now) ?s"
    by (simp add: Suc burst_tick_def)
  then show ?thesis using calls_standing_still [of ?s "unat burst" burst "replicate m now" r]
    by (simp add: capacity_def)
qed simp

text \<open>A pause of \<open>k\<close> seconds that is worth a token opens the gate again.\<close>

lemma opens_again:
  assumes "bucket_ok burst s" "0 < burst" "0 \<le> r" "1 \<le> of_nat k * r" "10 ^ 9 * k < 2 ^ 53"
    "bs_initialized s \<Longrightarrow> bs_last_ns s + 10 ^ 9 * int k \<le> now"
  shows "fst (burst_tick rnd burst r now s)"
proof -
  have "1 \<le> unat burst" using assms(2) by (simp add: word_less_nat_alt)
  then have b: "1 \<le> capacity burst" using of_nat_le_iff [of 1 "unat burst"] by (simp add: capacity_def del: of_nat_le_iff)
  have "1 \<le> bs_tokens (burst_refill rnd burst r now s)"
  proof (cases "bs_initialized s")
    case False
    then show ?thesis using b by (simp add: burst_refill_def)
  next
    case True
    let ?d = "now - bs_last_ns s" and ?el = "elapsed_seconds rnd (now - bs_last_ns s)"
    have "int (10 ^ 9 * k) \<le> ?d" using assms(6) [OF True] by simp
    then have "of_nat (10 ^ 9 * k) \<le> rnd (of_int ?d)"
      using rnd_mono [of "of_nat (10 ^ 9 * k)" "of_int ?d"] rnd_nat [OF assms(5)]
      by (metis of_int_le_iff of_int_of_nat_eq)
    then have "of_nat k \<le> rnd (of_int ?d) / 10 ^ 9"by (simp add: field_simps)
    moreover have "k < 2 ^ 53" using assms(5) by simp
    ultimately have el: "of_nat k \<le> ?el" unfolding elapsed_seconds_def using rnd_mono rnd_nat by metis
    have "0 < k" using assms(4) by (cases k) simp_all
    then have pos: "0 < ?el" using el by (simp add: less_le_trans)
    have "1 \<le> ?el * r" using assms(3,4) el mult_right_mono [OF el assms(3)] by linarith
    then have "1 \<le> rnd (?el * r)" using rnd_mono [of 1 "?el * r"] by (simp add: rnd_1)
    then have "1 \<le> rnd (bs_tokens s + rnd (?el * r))"
      using rnd_mono [of 1 "bs_tokens s + rnd (?el * r)"] assms(1) True by (simp add: bucket_ok_def rnd_1)
    then show ?thesis using True pos b by (simp add: burst_refill_def Let_def)
  qed
  then show ?thesis by (simp add: burst_tick_def Let_def)
qed

end

interpretation double: rounding round_double
  by unfold_locales (simp_all add: round_double_mono round_double_nat)

interpretation exact: rounding "\<lambda>x. x"
  by unfold_locales simp_all

text \<open>Without rounding errors, a token spent is a token of the burst or one refilled since.\<close>

lemma exact_tick:
  assumes "bs_initialized s" "bs_last_ns s \<le> t" "now \<le> t" "0 \<le> r"
    "burst_tick (\<lambda>x. x) burst r now s = (b, s')"
  shows "bs_initialized s' \<and> bs_last_ns s' \<le> t \<and>
    of_bool b + bs_tokens s' + r * of_int (t - bs_last_ns s') / 10 ^ 9 \<le>
      bs_tokens s + r * of_int (t - bs_last_ns s) / 10 ^ 9"
  using assms
  by (auto simp: burst_tick_def burst_refill_def elapsed_seconds_def Let_def algebra_simps diff_divide_distrib
      split: if_splits)

lemma exact_calls:
  assumes "bs_initialized s" "bs_last_ns s \<le> t" "\<forall>now \<in> set ns. now \<le> t" "0 \<le> r" "bucket_ok burst s"
  shows "of_nat (length (filter id (fst (burst_calls (\<lambda>x. x) burst r ns s)))) \<le>
    bs_tokens s + r * of_int (t - bs_last_ns s) / 10 ^ 9"
  using assms
proof (induction ns arbitrary: s)
  case Nil
  then show ?case by (simp add: bucket_ok_def)
next
  case (Cons now ns)
  obtain b s' where s': "burst_tick (\<lambda>x. x) burst r now s = (b, s')" by fastforce
  note step = exact_tick [OF Cons.prems(1,2) _ Cons.prems(4) s'] 
  have "bucket_ok burst s'" using exact.tick_ok [OF Cons.prems(5,4), of now] s' by simp
  then show ?case using Cons.IH [of s'] Cons.prems(3,4) step s' by (auto simp: split_beta Let_def)
qed

section \<open>What a burst site does\<close>

text \<open>
  C28: A burst site that is called again and again at one reading of the clock lets exactly \<open>burst\<close>
  calls pass, and then none, whatever its rate.
\<close>

theorem burst_at_once:
  "fst (burst_calls round_double burst r (replicate m now) burst_init) =
     replicate (min m (unat burst)) True @ replicate (m - unat burst) False"
  by (rule double.at_once)

text \<open>
  C27: The tokens of a site stay between zero and \<open>burst\<close>, rounding included, whatever readings its
  calls have, also when they take the mutex in another order than they read the clock.
\<close>

theorem burst_bucket_bounds:
  assumes "0 \<le> r"
  shows "bs_tokens (snd (burst_calls round_double burst r ns burst_init)) \<in> {0 .. capacity burst}"
proof -
  have "bucket_ok burst burst_init" by (simp add: bucket_ok_def burst_init_def)
  from double.calls_ok [OF this assms, of ns] have ok: "bucket_ok burst (snd (burst_calls round_double burst r ns burst_init))" .
  show ?thesis
  proof (cases ns)
    case Nil
    then show ?thesis by (simp add: burst_init_def)
  next
    case (Cons now ns')
    have keep: "bs_initialized s \<Longrightarrow> bs_initialized (snd (burst_calls rnd burst r ns s))" for rnd ns s
      by (induction ns arbitrary: s) (simp_all add: burst_tick_def burst_refill_def split_beta Let_def)
    have "bs_initialized (snd (burst_tick round_double burst r now burst_init))"
      by (simp add: burst_tick_def burst_refill_def burst_init_def Let_def)
    then have "bs_initialized (snd (burst_calls round_double burst r ns burst_init))"
      using keep unfolding Cons by (simp add: split_beta Let_def)
    then show ?thesis using ok by (simp add: bucket_ok_def)
  qed
qed

theorem burst_bucket_bounds_witness:
  "bs_tokens (snd (burst_calls round_double 3 2 [5, 4, 1000000009] burst_init)) \<in> {0 .. capacity 3}"
  by (rule burst_bucket_bounds) simp

text \<open>
  A site never starves: when \<open>k\<close> seconds are worth a token and the clock moved \<open>k\<close> seconds since the
  last refill, the next call passes, rounding included.
\<close>

theorem burst_opens_again:
  assumes "0 \<le> r" "1 \<le> of_nat k * r" "10 ^ 9 * k < 2 ^ 53" "0 < burst"
    "s = snd (burst_calls round_double burst r ns burst_init)" "bs_last_ns s + 10 ^ 9 * int k \<le> now"
  shows "fst (burst_tick round_double burst r now s)"
proof -
  have "bucket_ok burst burst_init" by (simp add: bucket_ok_def burst_init_def)
  then have "bucket_ok burst s" using assms(1,5) double.calls_ok by simp
  then show ?thesis by (rule double.opens_again [OF _ assms(4,1-3) assms(6)])
qed

theorem burst_opens_again_witness:
  "fst (burst_tick round_double 1 (1 / 2) 2000000007 (snd (burst_calls round_double 1 (1 / 2) [7, 7] burst_init)))"
proof -
  have "bs_last_ns (snd (burst_calls round_double 1 (1 / 2) [7, 7] burst_init)) = 7"
    by (simp add: burst_tick_def burst_refill_def burst_init_def elapsed_seconds_def double.rnd_0 Let_def)
  then show ?thesis
    by (intro burst_opens_again [of "1 / 2" 2 1 _ "[7, 7]" 2000000007, OF _ _ _ _ refl]) (simp_all only:, simp_all)
qed

text \<open>
  In exact arithmetic a burst site keeps its rate: when the first call reads \<open>t0\<close> and no call reads
  later than \<open>t\<close>, at most \<open>burst + rate * (t - t0)\<close> calls pass.
\<close>

theorem burst_rate_bound:
  assumes "0 \<le> r" "\<forall>now \<in> set (t0 # ns). now \<le> t"
  shows "of_nat (length (filter id (fst (burst_calls (\<lambda>x. x) burst r (t0 # ns) burst_init)))) \<le>
    capacity burst + r * of_int (t - t0) / 10 ^ 9"
proof -
  let ?s = "\<lparr>bs_tokens = capacity burst, bs_last_ns = t0, bs_initialized = True\<rparr>"
  have "burst_refill (\<lambda>x. x) burst r t0 burst_init = burst_refill (\<lambda>x. x) burst r t0 ?s"
    by (simp add: burst_refill_def burst_init_def elapsed_seconds_def)
  then have "burst_calls (\<lambda>x. x) burst r (t0 # ns) burst_init = burst_calls (\<lambda>x. x) burst r (t0 # ns) ?s"
    by (simp add: burst_tick_def)
  then show ?thesis
    using exact_calls [of ?s t "t0 # ns" r burst] assms by (simp add: bucket_ok_def del: burst_calls.simps)
qed

theorem burst_rate_bound_witness:
  "length (filter id (fst (burst_calls (\<lambda>x. x) 2 1 [0, 0, 0, 1000000000, 1000000000] burst_init))) \<le> 3"
  using burst_rate_bound [of 1 0 "[0, 0, 1000000000, 1000000000]" 1000000000 2]
  by (simp add: capacity_def del: burst_calls.simps)

end
