(* ===== verification/Elog_Macros.thy ===== *)
theory Elog_Macros
  imports Elog_Registry Elog_Burst Elog_Dedup
begin

text \<open>
  The logging macros of \<open>include/elog/macros.hpp\<close>. A macro call is a function of the state of the
  program: the process with its loggers, the calling thread, the static state of the call sites, the
  thread's random generator, and the user's own state \<open>'u\<close>. Logger expression, arguments and condition
  are functions of that state, so what they do, and that they are not evaluated, is visible. A call
  site has an address for its static state and its file and line; the readings of the clocks are
  inputs. \<open>None\<close> is undefined behaviour, exhausted fuel, or a format that does not compile.
\<close>

record runtime =
  rt_env :: renv
  rt_prologues :: user_prologues
  rt_packs :: pack_renderers
  rt_fuel :: nat

record site =
  st_addr :: nat
  st_file :: string
  st_line :: u32

record clocks =
  ck_steady :: int
  ck_summary :: u64
  ck_line :: u64

record 'u app =
  ap_proc :: process
  ap_thread :: thread
  ap_counts :: "nat \<Rightarrow> u64"
  ap_next_ns :: "nat \<Rightarrow> int"
  ap_bursts :: "nat \<Rightarrow> burst_state"
  ap_rng :: u64
  ap_dedups :: dedups
  ap_user :: 'u

type_synonym 'u gate = "nat \<Rightarrow> 'u app \<Rightarrow> (bool \<times> 'u app) option"
type_synonym 'u logger_expr = "'u app \<Rightarrow> nat \<times> 'u app"
type_synonym 'u args = "'u app \<Rightarrow> arg list \<times> 'u app"

section \<open>The two overloads of \<open>emit_f\<close>\<close>

fun plain_value :: "arg \<Rightarrow> val option" where
  "plain_value (Value v) = Some v"
| "plain_value _ = None"

text \<open>The fast overload is chosen when no argument is a pack or is rendered to one.\<close>

definition emit_f ::
    "runtime \<Rightarrow> nat \<Rightarrow> LogCtx \<Rightarrow> nat \<Rightarrow> fmt_spec \<Rightarrow> arg list \<Rightarrow> world \<Rightarrow> thread \<Rightarrow> (world \<times> thread) option" where
  "emit_f rt a ctx N spec args w th =
     (case those (map plain_value args) of
        Some vs \<Rightarrow> emit_f_fast (rt_env rt) (rt_prologues rt) (rt_fuel rt) a ctx N spec vs w th
      | None \<Rightarrow> emit_f_pack (rt_env rt) (rt_prologues rt) (rt_packs rt) (rt_fuel rt) a ctx N spec args w th)"

section \<open>The skeleton of a macro\<close>

definition line_ctx :: "runtime \<Rightarrow> site \<Rightarrow> clocks \<Rightarrow> Level \<Rightarrow> LogCtx" where
  "line_ctx rt st ck lvl = \<lparr>lc_level = lvl, lc_file = Some (st_file st), lc_line = st_line st, lc_tp = ck_line ck,
     lc_tid = this_thread (rt_env rt)\<rparr>"

definition log_call ::
    "'u gate \<Rightarrow> runtime \<Rightarrow> site \<Rightarrow> clocks \<Rightarrow> 'u logger_expr \<Rightarrow> Level \<Rightarrow> string \<Rightarrow> 'u args \<Rightarrow> 'u app \<Rightarrow> 'u app option" where
  "log_call gate rt st ck logger_expr lvl fmt args s =
     (let (a, s) = logger_expr s in
      do {
        l \<leftarrow> heap (wld (ap_proc s)) a;
        if \<not> enabled l lvl then Some s
        else do {
          (pass, s) \<leftarrow> gate a s;
          if \<not> pass then Some s
          else do {
            spec \<leftarrow> make_spec (count_pieces fmt) (count_lit_chars fmt) fmt;
            let (xs, s) = args s;
            (w, th) \<leftarrow> emit_f rt a (line_ctx rt st ck lvl) (count_pieces fmt) spec xs (wld (ap_proc s)) (ap_thread s);
            Some (s\<lparr>ap_proc := (ap_proc s)\<lparr>wld := w\<rparr>, ap_thread := th\<rparr>)
          }
        }
      })"

text \<open>The expression \<open>default_logger()\<close> of the short forms, and the logger of the \<open>LOGGER_\<close> forms.\<close>

definition the_default :: "'u logger_expr" where
  "the_default s = (let (a, p) = default_logger (ap_proc s) in (a, s\<lparr>ap_proc := p\<rparr>))"

section \<open>The gates\<close>

definition every_n_gate :: "nat \<Rightarrow> u64 \<Rightarrow> 'u gate" where
  "every_n_gate st n a s =
     (let (b, c) = every_n_tick n (ap_counts s st) in Some (b, s\<lparr>ap_counts := (ap_counts s)(st := c)\<rparr>))"

definition first_n_gate :: "nat \<Rightarrow> u64 \<Rightarrow> 'u gate" where
  "first_n_gate st n a s =
     (let (b, c) = first_n_tick n (ap_counts s st) in Some (b, s\<lparr>ap_counts := (ap_counts s)(st := c)\<rparr>))"

text \<open>The period is computed here, after the level check; \<open>None\<close> is an overflow of its product, or of the sum in
  \<open>tick\<close>.\<close>

definition every_time_gate :: "nat \<Rightarrow> int \<Rightarrow> int option \<Rightarrow> 'u gate" where
  "every_time_gate st now period_val a s =
     do {
       period \<leftarrow> period_val;
       (b, t) \<leftarrow> every_time_tick period now (ap_next_ns s st);
       Some (b, s\<lparr>ap_next_ns := (ap_next_ns s)(st := t)\<rparr>)
     }"

definition sampled_gate :: "u32 \<Rightarrow> 'u gate" where
  "sampled_gate prob a s = (let (b, r) = sampled_tick prob (ap_rng s) in Some (b, s\<lparr>ap_rng := r\<rparr>))"

definition burst_gate :: "nat \<Rightarrow> int \<Rightarrow> u32 \<Rightarrow> real \<Rightarrow> 'u gate" where
  "burst_gate st now burst refill a s =
     (let (b, t) = burst_tick round_double burst refill now (ap_bursts s st)
      in Some (b, s\<lparr>ap_bursts := (ap_bursts s)(st := t)\<rparr>))"

text \<open>The first call that gets here constructs the static \<open>DedupState\<close>.\<close>

definition dedup_gate :: "runtime \<Rightarrow> site \<Rightarrow> clocks \<Rightarrow> Level \<Rightarrow> 'u gate" where
  "dedup_gate rt st ck lvl a s =
     (let d = ap_dedups s;
          d = (if dd_site d (st_addr st) = None then new_dedup (st_addr st) d else d);
          report = report_summary (rt_env rt) (rt_prologues rt) (rt_fuel rt) (ck_summary ck) (this_thread (rt_env rt));
          call = \<lparr>dc_logger = a, dc_level = lvl, dc_file = st_file st, dc_line = st_line st\<rparr>
      in
        do {
          (b, d, w, th) \<leftarrow> dedup_tick report (st_addr st) call (d, wld (ap_proc s), ap_thread s);
          Some (b, s\<lparr>ap_dedups := d, ap_proc := (ap_proc s)\<lparr>wld := w\<rparr>, ap_thread := th\<rparr>)
        })"

definition if_gate :: "('u app \<Rightarrow> bool \<times> 'u app) \<Rightarrow> 'u gate" where
  "if_gate cond a s = Some (cond s)"

section \<open>The macros\<close>

definition elog_internal_f ::
    "runtime \<Rightarrow> site \<Rightarrow> clocks \<Rightarrow> 'u logger_expr \<Rightarrow> Level \<Rightarrow> string \<Rightarrow> 'u args \<Rightarrow> 'u app \<Rightarrow> 'u app option" where
  "elog_internal_f = log_call (\<lambda>_ s. Some (True, s))"

definition elog_internal_every_n ::
    "u64 \<Rightarrow> runtime \<Rightarrow> site \<Rightarrow> clocks \<Rightarrow> 'u logger_expr \<Rightarrow> Level \<Rightarrow> string \<Rightarrow> 'u args \<Rightarrow> 'u app \<Rightarrow> 'u app option" where
  "elog_internal_every_n n rt st = log_call (every_n_gate (st_addr st) n) rt st"

definition elog_internal_every_time ::
    "int option \<Rightarrow> runtime \<Rightarrow> site \<Rightarrow> clocks \<Rightarrow> 'u logger_expr \<Rightarrow> Level \<Rightarrow> string \<Rightarrow> 'u args \<Rightarrow> 'u app \<Rightarrow> 'u app option" where
  "elog_internal_every_time period rt st ck = log_call (every_time_gate (st_addr st) (ck_steady ck) period) rt st ck"

definition elog_internal_first_n ::
    "u64 \<Rightarrow> runtime \<Rightarrow> site \<Rightarrow> clocks \<Rightarrow> 'u logger_expr \<Rightarrow> Level \<Rightarrow> string \<Rightarrow> 'u args \<Rightarrow> 'u app \<Rightarrow> 'u app option" where
  "elog_internal_first_n n rt st = log_call (first_n_gate (st_addr st) n) rt st"

definition elog_internal_sampled ::
    "u32 \<Rightarrow> runtime \<Rightarrow> site \<Rightarrow> clocks \<Rightarrow> 'u logger_expr \<Rightarrow> Level \<Rightarrow> string \<Rightarrow> 'u args \<Rightarrow> 'u app \<Rightarrow> 'u app option" where
  "elog_internal_sampled prob = log_call (sampled_gate prob)"

definition elog_internal_burst ::
    "u32 \<Rightarrow> real \<Rightarrow> runtime \<Rightarrow> site \<Rightarrow> clocks \<Rightarrow> 'u logger_expr \<Rightarrow> Level \<Rightarrow> string \<Rightarrow> 'u args \<Rightarrow> 'u app \<Rightarrow> 'u app option" where
  "elog_internal_burst burst refill rt st ck = log_call (burst_gate (st_addr st) (ck_steady ck) burst refill) rt st ck"

definition elog_internal_dedup ::
    "runtime \<Rightarrow> site \<Rightarrow> clocks \<Rightarrow> 'u logger_expr \<Rightarrow> Level \<Rightarrow> string \<Rightarrow> 'u args \<Rightarrow> 'u app \<Rightarrow> 'u app option" where
  "elog_internal_dedup rt st ck logger_expr lvl = log_call (dedup_gate rt st ck lvl) rt st ck logger_expr lvl"

definition elog_internal_if ::
    "('u app \<Rightarrow> bool \<times> 'u app) \<Rightarrow> runtime \<Rightarrow> site \<Rightarrow> clocks \<Rightarrow> 'u logger_expr \<Rightarrow> Level \<Rightarrow> string \<Rightarrow> 'u args \<Rightarrow> 'u app \<Rightarrow>
     'u app option" where
  "elog_internal_if cond = log_call (if_gate cond)"

text \<open>
  The macros the user writes: \<open>LOG_\<close> forms for the six levels and the default logger, \<open>LOGGER_\<close> forms
  for any logger and level. A period is a product of 64-bit integers.
\<close>

definition period_ns :: "int \<Rightarrow> int \<Rightarrow> int option" where
  "period_ns k unit_ns = (let p = k * unit_ns in if - (2 ^ 63) \<le> p \<and> p < 2 ^ 63 then Some p else None)"

text \<open>
  A period that is accepted may still be too long: with the longest number of seconds, the first call of
  a site overflows once the clock has run for a second.
\<close>

lemma long_period_overflows:
  "854775808 \<le> now \<Longrightarrow> ap_next_ns s st = 0 \<Longrightarrow> every_time_gate st now (period_ns 9223372036 1000000000) a s = None"
  by (simp add: every_time_gate_def period_ns_def every_time_tick_def add_i64_def)

definition LOG_F ::
    "Level \<Rightarrow> runtime \<Rightarrow> site \<Rightarrow> clocks \<Rightarrow> string \<Rightarrow> 'u args \<Rightarrow> 'u app \<Rightarrow> 'u app option" where
  "LOG_F lvl rt st ck = elog_internal_f rt st ck the_default lvl"

definition LOGGER_F ::
    "'u logger_expr \<Rightarrow> Level \<Rightarrow> runtime \<Rightarrow> site \<Rightarrow> clocks \<Rightarrow> string \<Rightarrow> 'u args \<Rightarrow> 'u app \<Rightarrow> 'u app option" where
  "LOGGER_F logger lvl rt st ck = elog_internal_f rt st ck logger lvl"

definition LOG_EVERY_N ::
    "Level \<Rightarrow> u64 \<Rightarrow> runtime \<Rightarrow> site \<Rightarrow> clocks \<Rightarrow> string \<Rightarrow> 'u args \<Rightarrow> 'u app \<Rightarrow> 'u app option" where
  "LOG_EVERY_N lvl n rt st ck = elog_internal_every_n n rt st ck the_default lvl"

definition LOGGER_EVERY_N ::
    "'u logger_expr \<Rightarrow> Level \<Rightarrow> u64 \<Rightarrow> runtime \<Rightarrow> site \<Rightarrow> clocks \<Rightarrow> string \<Rightarrow> 'u args \<Rightarrow> 'u app \<Rightarrow> 'u app option" where
  "LOGGER_EVERY_N logger lvl n rt st ck = elog_internal_every_n n rt st ck logger lvl"

definition LOG_EVERY_N_SEC ::
    "Level \<Rightarrow> int \<Rightarrow> runtime \<Rightarrow> site \<Rightarrow> clocks \<Rightarrow> string \<Rightarrow> 'u args \<Rightarrow> 'u app \<Rightarrow> 'u app option" where
  "LOG_EVERY_N_SEC lvl k rt st ck = elog_internal_every_time (period_ns k 1000000000) rt st ck the_default lvl"

definition LOGGER_EVERY_N_SEC ::
    "'u logger_expr \<Rightarrow> Level \<Rightarrow> int \<Rightarrow> runtime \<Rightarrow> site \<Rightarrow> clocks \<Rightarrow> string \<Rightarrow> 'u args \<Rightarrow> 'u app \<Rightarrow> 'u app option" where
  "LOGGER_EVERY_N_SEC logger lvl k rt st ck = elog_internal_every_time (period_ns k 1000000000) rt st ck logger lvl"

definition LOG_EVERY_N_MS ::
    "Level \<Rightarrow> int \<Rightarrow> runtime \<Rightarrow> site \<Rightarrow> clocks \<Rightarrow> string \<Rightarrow> 'u args \<Rightarrow> 'u app \<Rightarrow> 'u app option" where
  "LOG_EVERY_N_MS lvl k rt st ck = elog_internal_every_time (period_ns k 1000000) rt st ck the_default lvl"

definition LOGGER_EVERY_N_MS ::
    "'u logger_expr \<Rightarrow> Level \<Rightarrow> int \<Rightarrow> runtime \<Rightarrow> site \<Rightarrow> clocks \<Rightarrow> string \<Rightarrow> 'u args \<Rightarrow> 'u app \<Rightarrow> 'u app option" where
  "LOGGER_EVERY_N_MS logger lvl k rt st ck = elog_internal_every_time (period_ns k 1000000) rt st ck logger lvl"

definition LOG_FIRST_N ::
    "Level \<Rightarrow> u64 \<Rightarrow> runtime \<Rightarrow> site \<Rightarrow> clocks \<Rightarrow> string \<Rightarrow> 'u args \<Rightarrow> 'u app \<Rightarrow> 'u app option" where
  "LOG_FIRST_N lvl n rt st ck = elog_internal_first_n n rt st ck the_default lvl"

definition LOGGER_FIRST_N ::
    "'u logger_expr \<Rightarrow> Level \<Rightarrow> u64 \<Rightarrow> runtime \<Rightarrow> site \<Rightarrow> clocks \<Rightarrow> string \<Rightarrow> 'u args \<Rightarrow> 'u app \<Rightarrow> 'u app option" where
  "LOGGER_FIRST_N logger lvl n rt st ck = elog_internal_first_n n rt st ck logger lvl"

definition LOG_ONCE ::
    "Level \<Rightarrow> runtime \<Rightarrow> site \<Rightarrow> clocks \<Rightarrow> string \<Rightarrow> 'u args \<Rightarrow> 'u app \<Rightarrow> 'u app option" where
  "LOG_ONCE lvl rt st ck = elog_internal_first_n 1 rt st ck the_default lvl"

definition LOGGER_ONCE ::
    "'u logger_expr \<Rightarrow> Level \<Rightarrow> runtime \<Rightarrow> site \<Rightarrow> clocks \<Rightarrow> string \<Rightarrow> 'u args \<Rightarrow> 'u app \<Rightarrow> 'u app option" where
  "LOGGER_ONCE logger lvl rt st ck = elog_internal_first_n 1 rt st ck logger lvl"

definition LOG_SAMPLED ::
    "Level \<Rightarrow> u32 \<Rightarrow> runtime \<Rightarrow> site \<Rightarrow> clocks \<Rightarrow> string \<Rightarrow> 'u args \<Rightarrow> 'u app \<Rightarrow> 'u app option" where
  "LOG_SAMPLED lvl prob rt st ck = elog_internal_sampled prob rt st ck the_default lvl"

definition LOGGER_SAMPLED ::
    "'u logger_expr \<Rightarrow> Level \<Rightarrow> u32 \<Rightarrow> runtime \<Rightarrow> site \<Rightarrow> clocks \<Rightarrow> string \<Rightarrow> 'u args \<Rightarrow> 'u app \<Rightarrow> 'u app option" where
  "LOGGER_SAMPLED logger lvl prob rt st ck = elog_internal_sampled prob rt st ck logger lvl"

definition LOG_BURST ::
    "Level \<Rightarrow> u32 \<Rightarrow> real \<Rightarrow> runtime \<Rightarrow> site \<Rightarrow> clocks \<Rightarrow> string \<Rightarrow> 'u args \<Rightarrow> 'u app \<Rightarrow> 'u app option" where
  "LOG_BURST lvl burst refill rt st ck = elog_internal_burst burst refill rt st ck the_default lvl"

definition LOGGER_BURST ::
    "'u logger_expr \<Rightarrow> Level \<Rightarrow> u32 \<Rightarrow> real \<Rightarrow> runtime \<Rightarrow> site \<Rightarrow> clocks \<Rightarrow> string \<Rightarrow> 'u args \<Rightarrow> 'u app \<Rightarrow> 'u app option" where
  "LOGGER_BURST logger lvl burst refill rt st ck = elog_internal_burst burst refill rt st ck logger lvl"

definition LOG_DEDUP ::
    "Level \<Rightarrow> runtime \<Rightarrow> site \<Rightarrow> clocks \<Rightarrow> string \<Rightarrow> 'u args \<Rightarrow> 'u app \<Rightarrow> 'u app option" where
  "LOG_DEDUP lvl rt st ck = elog_internal_dedup rt st ck the_default lvl"

definition LOGGER_DEDUP ::
    "'u logger_expr \<Rightarrow> Level \<Rightarrow> runtime \<Rightarrow> site \<Rightarrow> clocks \<Rightarrow> string \<Rightarrow> 'u args \<Rightarrow> 'u app \<Rightarrow> 'u app option" where
  "LOGGER_DEDUP logger lvl rt st ck = elog_internal_dedup rt st ck logger lvl"

definition LOG_IF ::
    "Level \<Rightarrow> ('u app \<Rightarrow> bool \<times> 'u app) \<Rightarrow> runtime \<Rightarrow> site \<Rightarrow> clocks \<Rightarrow> string \<Rightarrow> 'u args \<Rightarrow> 'u app \<Rightarrow> 'u app option" where
  "LOG_IF lvl cond rt st ck = elog_internal_if cond rt st ck the_default lvl"

definition LOGGER_IF ::
    "'u logger_expr \<Rightarrow> Level \<Rightarrow> ('u app \<Rightarrow> bool \<times> 'u app) \<Rightarrow> runtime \<Rightarrow> site \<Rightarrow> clocks \<Rightarrow> string \<Rightarrow> 'u args \<Rightarrow> 'u app \<Rightarrow> 'u app option" where
  "LOGGER_IF logger lvl cond rt st ck = elog_internal_if cond rt st ck logger lvl"

section \<open>One line to one file\<close>

text \<open>
  The logger at \<open>a\<close> has level \<open>lv\<close>, no ties, the default prologue, and one sink, the file or terminal
  behind \<open>k\<close>, with colours or without.
\<close>

definition logs_to_file :: "runtime \<Rightarrow> nat \<Rightarrow> Level \<Rightarrow> fd_sink \<Rightarrow> 'u app \<Rightarrow> bool" where
  "logs_to_file rt a lv k s \<longleftrightarrow>
     (\<exists>l. heap (wld (ap_proc s)) a = Some l \<and> lg_level l = lv \<and> lg_sinks l = [Fd k] \<and> lg_ties l = [] \<and> lg_tie_count l = 0 \<and>
        lg_prologue l = Default_Prologue) \<and>
     fd_inv k (sys (wld (ap_proc s))) \<and> thread_ok (rt_env rt) (ap_thread s)"

definition file_text :: "fd_sink \<Rightarrow> 'u app \<Rightarrow> byte list" where
  "file_text k s = fd_contents (fs_fd k) (sys (wld (ap_proc s)))"

definition line_body :: "runtime \<Rightarrow> site \<Rightarrow> Level \<Rightarrow> string \<Rightarrow> clocks \<times> val list \<Rightarrow> string" where
  "line_body rt st lvl fmt = (\<lambda>(ck, vs). prologue_text (rt_env rt) (line_ctx rt st ck lvl) @
     fill (scan fmt) (\<lambda>k. shown (rt_env rt) (vs ! k)) 0)"

text \<open>The bytes of a line as a sink lays them out; the newline is outside the colours.\<close>

definition laid_out :: "fd_sink \<Rightarrow> Level \<Rightarrow> string \<Rightarrow> byte list" where
  "laid_out k lvl body = (if fs_colored k then level_color lvl @ body @ level_color_reset else body) @ [CHR 0x0A]"

definition line_text :: "fd_sink \<Rightarrow> runtime \<Rightarrow> site \<Rightarrow> Level \<Rightarrow> string \<Rightarrow> clocks \<times> val list \<Rightarrow> string" where
  "line_text k rt st lvl fmt c = laid_out k lvl (line_body rt st lvl fmt c)"

text \<open>A call with clock readings \<open>ck\<close> and argument values \<open>vs\<close> that the scratch buffer has room for.\<close>

definition call_fits :: "runtime \<Rightarrow> site \<Rightarrow> Level \<Rightarrow> string \<Rightarrow> clocks \<times> val list \<Rightarrow> bool" where
  "call_fits rt st lvl fmt = (\<lambda>(ck, vs). ctx_ok (rt_env rt) (line_ctx rt st ck lvl) \<and>
     (\<forall>v \<in> set vs. readable (rt_env rt) v) \<and> holes (scan fmt) \<le> length vs \<and> length vs \<le> 65535 \<and>
     length (prologue_text (rt_env rt) (line_ctx rt st ck lvl)) + length (concat (map (shown (rt_env rt)) vs)) + 32 \<le> 4096)"

definition format_fits :: "string \<Rightarrow> bool" where
  "format_fits fmt \<longleftrightarrow> count_lit_chars fmt \<le> 65535 \<and> count_pieces fmt + 4 \<le> IOV_MAX"

abbreviation these :: "val list \<Rightarrow> 'u args" where
  "these vs s \<equiv> (map Value vs, s)"

lemma plain_values: "those (map plain_value (map Value vs)) = Some vs"
  by (induction vs) simp_all

lemma payload_laid_out:
  assumes "iov \<noteq> []" "concat iov = body @ [CHR 0x0A]" "last iov = [CHR 0x0A]"
  shows "fd_payload k lvl iov = laid_out k lvl body"
proof -
  have "concat iov = concat (butlast iov) @ last iov"
    using append_butlast_last_id [OF assms(1)] by (metis concat.simps concat_append append_Nil2)
  then have "concat (butlast iov) = body" using assms(2,3) by simp
  then show ?thesis using assms by (simp add: fd_payload_def laid_out_def)
qed

lemma emit_to_file:
  assumes "heap w a = Some l" "lg_sinks l = [Fd k]" "lg_tie_count l = 0"
    "fd_inv k (sys w)" "length iov + 2 \<le> IOV_MAX" "0 < fuel"
  shows "\<exists>w'. emit fuel lvl iov a w = Some w' \<and> heap w' = heap w \<and> fd_inv k (sys w') \<and>
    fd_contents (fs_fd k) (sys w') = fd_contents (fs_fd k) (sys w) @ fd_payload k lvl iov"
proof -
  obtain f where f: "fuel = Suc f" using assms(6) by (cases fuel) simp_all
  have "l\<lparr>lg_sinks := [Fd k]\<rparr> = l" using assms(2) by simp
  then have "emit fuel lvl iov a w = Some (w\<lparr>sys := fd_write k lvl iov (sys w)\<rparr>)"
    using assms(1-3) by (simp add: f write_own_def fun_upd_idem)
  then show ?thesis
    using fd_sink.inv_write [OF assms(4), of iov lvl] fd_sink.keeps [OF assms(4), of iov lvl] assms(5)
    by (simp add: fd_fits_def)
qed

text \<open>The arguments rendered and assembled, up to the fan-out of the line.\<close>

lemma emit_f_assembles:
  assumes "thread_ok (rt_env rt) (ap_thread s)" "heap (wld (ap_proc s)) a = Some l" "lg_prologue l = Default_Prologue"
    "call_fits rt st lvl fmt (ck, vs)" "format_fits fmt"
  shows "\<exists>spec iov th. make_spec (count_pieces fmt) (count_lit_chars fmt) fmt = Some spec \<and>
    thread_ok (rt_env rt) th \<and> iov \<noteq> [] \<and> length iov + 2 \<le> IOV_MAX \<and>
    concat iov = line_body rt st lvl fmt (ck, vs) @ [CHR 0x0A] \<and> last iov = [CHR 0x0A] \<and>
    emit_f rt a (line_ctx rt st ck lvl) (count_pieces fmt) spec (map Value vs) (wld (ap_proc s)) (ap_thread s) =
      map_option (\<lambda>w. (w, th)) (emit (rt_fuel rt) lvl iov a (wld (ap_proc s)))"
proof -
  let ?env = "rt_env rt" and ?ctx = "line_ctx rt st ck lvl" and ?w = "wld (ap_proc s)"
  have fits: "ctx_ok ?env ?ctx" "\<forall>v \<in> set vs. readable ?env v" "holes (scan fmt) \<le> length vs" "length vs \<le> 65535"
    "length (prologue_text ?env ?ctx) + length (concat (map (shown ?env) vs)) + 32 \<le> 4096"
    using assms(4) by (auto simp: call_fits_def)
  have "count_lit_chars fmt \<le> 65535" using assms(5) by (simp add: format_fits_def)
  from emit_f_fast_line [OF assms(1) fits(1,2,5) assms(2,3) this fits(3,4), of "rt_prologues rt" "rt_fuel rt"]
  obtain spec iov th where e: "make_spec (count_pieces fmt) (count_lit_chars fmt) fmt = Some spec"
    "length iov = count_pieces fmt + 2" "concat iov = line_body rt st lvl fmt (ck, vs) @ [CHR 0x0A]"
    "last iov = [CHR 0x0A]" "thread_ok ?env th"
    "emit_f_fast ?env (rt_prologues rt) (rt_fuel rt) a ?ctx (count_pieces fmt) spec vs ?w (ap_thread s) =
      map_option (\<lambda>w'. (w', th)) (emit (rt_fuel rt) lvl iov a ?w)"
    by (auto simp: line_body_def line_ctx_def)
  have "length iov + 2 \<le> IOV_MAX" "iov \<noteq> []" using e(2) assms(5) by (auto simp: format_fits_def)
  with e show ?thesis using plain_values by (intro exI [of _ spec] exI [of _ iov] exI [of _ th]) (simp add: emit_f_def)
qed

text \<open>The line in the file, however it was assembled.\<close>

lemma assembled_to_file:
  assumes "logs_to_file rt a lv k s" "0 < rt_fuel rt" "thread_ok (rt_env rt) th"
    "iov \<noteq> []" "length iov + 2 \<le> IOV_MAX" "concat iov = body @ [CHR 0x0A]" "last iov = [CHR 0x0A]"
    "emit_f rt a ctx N spec xs (wld (ap_proc s)) (ap_thread s) =
       map_option (\<lambda>w. (w, th)) (emit (rt_fuel rt) lvl iov a (wld (ap_proc s)))"
  shows "\<exists>w. emit_f rt a ctx N spec xs (wld (ap_proc s)) (ap_thread s) = Some (w, th) \<and>
    logs_to_file rt a lv k (s\<lparr>ap_proc := (ap_proc s)\<lparr>wld := w\<rparr>, ap_thread := th\<rparr>) \<and>
    file_text k (s\<lparr>ap_proc := (ap_proc s)\<lparr>wld := w\<rparr>, ap_thread := th\<rparr>) = file_text k s @ laid_out k lvl body"
proof -
  let ?w = "wld (ap_proc s)"
  obtain l where l: "heap ?w a = Some l" "lg_level l = lv" "lg_sinks l = [Fd k]" "lg_tie_count l = 0"
    "lg_prologue l = Default_Prologue" "lg_ties l = []" and k: "fd_inv k (sys ?w)"
    using assms(1) by (auto simp: logs_to_file_def)
  from emit_to_file [OF l(1,3,4) k assms(5,2), of lvl]
  obtain w' where "emit (rt_fuel rt) lvl iov a ?w = Some w'" "heap w' = heap ?w" "fd_inv k (sys w')"
    "fd_contents (fs_fd k) (sys w') = fd_contents (fs_fd k) (sys ?w) @ laid_out k lvl body"
    using payload_laid_out [OF assms(4,6,7), of k lvl] by auto
  then show ?thesis using assms(3,8) l by (auto simp: logs_to_file_def file_text_def)
qed

lemma emit_f_to_file:
  assumes "logs_to_file rt a lv k s" "call_fits rt st lvl fmt (ck, vs)" "format_fits fmt" "0 < rt_fuel rt"
  shows "\<exists>spec w th. make_spec (count_pieces fmt) (count_lit_chars fmt) fmt = Some spec \<and>
    emit_f rt a (line_ctx rt st ck lvl) (count_pieces fmt) spec (map Value vs) (wld (ap_proc s)) (ap_thread s) =
      Some (w, th) \<and>
    logs_to_file rt a lv k (s\<lparr>ap_proc := (ap_proc s)\<lparr>wld := w\<rparr>, ap_thread := th\<rparr>) \<and>
    file_text k (s\<lparr>ap_proc := (ap_proc s)\<lparr>wld := w\<rparr>, ap_thread := th\<rparr>) = file_text k s @ line_text k rt st lvl fmt (ck, vs)"
proof -
  obtain l where l: "heap (wld (ap_proc s)) a = Some l" "lg_prologue l = Default_Prologue" "thread_ok (rt_env rt) (ap_thread s)"
    using assms(1) by (auto simp: logs_to_file_def)
  from emit_f_assembles [OF l(3,1,2) assms(2,3)] obtain spec iov th where
    e: "make_spec (count_pieces fmt) (count_lit_chars fmt) fmt = Some spec" "thread_ok (rt_env rt) th"
      "iov \<noteq> []" "length iov + 2 \<le> IOV_MAX" "concat iov = line_body rt st lvl fmt (ck, vs) @ [CHR 0x0A]" "last iov = [CHR 0x0A]"
      "emit_f rt a (line_ctx rt st ck lvl) (count_pieces fmt) spec (map Value vs) (wld (ap_proc s)) (ap_thread s) =
        map_option (\<lambda>w. (w, th)) (emit (rt_fuel rt) lvl iov a (wld (ap_proc s)))" by blast
  from assembled_to_file [OF assms(1,4) e(2-7)] e(1) show ?thesis by (auto simp: line_text_def)
qed

section \<open>One call\<close>

text \<open>A gate changes its own state only; the default logger exists and the level of the call is on.\<close>

lemma log_call_prints:
  assumes ready: "logs_to_file rt a lv k s" "default_instance (ap_proc s) = Some a" "lv \<le> lvl"
      "call_fits rt st lvl fmt (ck, vs)" "format_fits fmt" "0 < rt_fuel rt"
    and gate: "gate a s = Some (b, g)" "ap_proc g = ap_proc s" "ap_thread g = ap_thread s"
  shows "\<exists>w th. let s' = g\<lparr>ap_proc := (ap_proc s)\<lparr>wld := w\<rparr>, ap_thread := th\<rparr> in
    log_call gate rt st ck the_default lvl fmt (these vs) s = Some s' \<and> logs_to_file rt a lv k s' \<and>
    file_text k s' = file_text k s @ (if b then line_text k rt st lvl fmt (ck, vs) else [])"
proof -
  obtain l where l: "heap (wld (ap_proc s)) a = Some l" "enabled l lvl"
    using ready(1,3) by (auto simp: logs_to_file_def enabled_def)
  have d: "the_default s = (a, s)" using ready(2) by (simp add: the_default_def default_logger_def)
  have r: "logs_to_file rt a lv k g" "file_text k g = file_text k s"
    using ready(1) gate(2,3) by (simp_all add: logs_to_file_def file_text_def)
  show ?thesis
  proof (cases b)
    case True
    from emit_f_to_file [OF r(1) ready(4-6)] obtain spec w th where
      "make_spec (count_pieces fmt) (count_lit_chars fmt) fmt = Some spec"
      "emit_f rt a (line_ctx rt st ck lvl) (count_pieces fmt) spec (map Value vs) (wld (ap_proc g)) (ap_thread g) = Some (w, th)"
      "logs_to_file rt a lv k (g\<lparr>ap_proc := (ap_proc g)\<lparr>wld := w\<rparr>, ap_thread := th\<rparr>)"
      "file_text k (g\<lparr>ap_proc := (ap_proc g)\<lparr>wld := w\<rparr>, ap_thread := th\<rparr>) = file_text k g @ line_text k rt st lvl fmt (ck, vs)"
      by blast
    with True l d r(2) gate show ?thesis by (intro exI [of _ w] exI [of _ th]) (simp add: log_call_def)
  next
    case False
    have "g\<lparr>ap_proc := ap_proc s, ap_thread := ap_thread s\<rparr> = g" using gate(2,3) by (cases g) simp
    then have "logs_to_file rt a lv k (g\<lparr>ap_proc := ap_proc s, ap_thread := ap_thread s\<rparr>)"
      "file_text k (g\<lparr>ap_proc := ap_proc s, ap_thread := ap_thread s\<rparr>) = file_text k s"
      "Some g = Some (g\<lparr>ap_proc := ap_proc s, ap_thread := ap_thread s\<rparr>)" by (simp_all only: r)
    with False l d gate show ?thesis
      by (intro exI [of _ "wld (ap_proc s)"] exI [of _ "ap_thread s"]) (simp add: log_call_def Let_def)
  qed
qed

section \<open>A site with a counter\<close>

text \<open>The gate is the only thing that looks at the counter of the site.\<close>

lemma count_gate_call:
  assumes "\<And>a s. gate a s = (let (b, c) = tick (ap_counts s n) in Some (b, s\<lparr>ap_counts := (ap_counts s)(n := c)\<rparr>))"
    and ready: "logs_to_file rt a lv k s" "default_instance (ap_proc s) = Some a" "lv \<le> lvl"
      "call_fits rt st lvl fmt (ck, vs)" "format_fits fmt" "0 < rt_fuel rt"
  shows "\<exists>s'. log_call gate rt st ck the_default lvl fmt (these vs) s = Some s' \<and> logs_to_file rt a lv k s' \<and>
    default_instance (ap_proc s') = Some a \<and> ap_counts s' = (ap_counts s)(n := snd (tick (ap_counts s n))) \<and>
    ap_next_ns s' = ap_next_ns s \<and> ap_dedups s' = ap_dedups s \<and>
    file_text k s' = file_text k s @ (if fst (tick (ap_counts s n)) then line_text k rt st lvl fmt (ck, vs) else [])"
proof -
  obtain b c where bc: "tick (ap_counts s n) = (b, c)" by fastforce
  then have "gate a s = Some (b, s\<lparr>ap_counts := (ap_counts s)(n := c)\<rparr>)" by (simp add: assms(1))
  from log_call_prints [of rt a lv k s lvl st fmt ck vs gate, OF ready this] obtain w th where
    "log_call gate rt st ck the_default lvl fmt (these vs) s =
       Some (s\<lparr>ap_counts := (ap_counts s)(n := c), ap_proc := (ap_proc s)\<lparr>wld := w\<rparr>, ap_thread := th\<rparr>)"
    "logs_to_file rt a lv k (s\<lparr>ap_counts := (ap_counts s)(n := c), ap_proc := (ap_proc s)\<lparr>wld := w\<rparr>, ap_thread := th\<rparr>)"
    "file_text k (s\<lparr>ap_counts := (ap_counts s)(n := c), ap_proc := (ap_proc s)\<lparr>wld := w\<rparr>, ap_thread := th\<rparr>) =
       file_text k s @ (if b then line_text k rt st lvl fmt (ck, vs) else [])"
    by (auto simp: Let_def)
  then show ?thesis using bc ready(2) by simp
qed

lemma count_gate_off:
  assumes "logs_to_file rt a lv k s" "default_instance (ap_proc s) = Some a" "\<not> lv \<le> lvl"
  shows "log_call gate rt st ck the_default lvl fmt args s = Some s"
  using assms by (auto simp: logs_to_file_def log_call_def the_default_def default_logger_def enabled_def)

lemma level_changes:
  assumes "logs_to_file rt a lv k s"
  shows "\<exists>w. set_level a lv' (wld (ap_proc s)) = Some w \<and> logs_to_file rt a lv' k (s\<lparr>ap_proc := (ap_proc s)\<lparr>wld := w\<rparr>\<rparr>) \<and>
    file_text k (s\<lparr>ap_proc := (ap_proc s)\<lparr>wld := w\<rparr>\<rparr>) = file_text k s"
  using assms by (auto simp: logs_to_file_def set_level_def update_logger_def file_text_def)

text \<open>
  The same site called again and again, with the given readings and arguments; before each call the
  logger gets some level.
\<close>

fun log_all ::
    "nat \<Rightarrow> (clocks \<Rightarrow> 'u args \<Rightarrow> 'u app \<Rightarrow> 'u app option) \<Rightarrow> (Level \<times> clocks \<times> val list) list \<Rightarrow> 'u app \<Rightarrow> 'u app option" where
  "log_all a call [] s = Some s"
| "log_all a call ((lv, ck, vs) # cs) s =
     do {
       w \<leftarrow> set_level a lv (wld (ap_proc s));
       s \<leftarrow> call ck (these vs) (s\<lparr>ap_proc := (ap_proc s)\<lparr>wld := w\<rparr>\<rparr>);
       log_all a call cs s
     }"

text \<open>The calls whose level is on.\<close>

definition on_calls :: "Level \<Rightarrow> (Level \<times> clocks \<times> val list) list \<Rightarrow> (clocks \<times> val list) list" where
  "on_calls lvl cs = map snd (filter (\<lambda>c. fst c \<le> lvl) cs)"

lemma count_gate_calls:
  assumes gate: "\<And>a s. gate a s = (let (b, c) = tick (ap_counts s n) in Some (b, s\<lparr>ap_counts := (ap_counts s)(n := c)\<rparr>))"
    and ready: "logs_to_file rt a lv k s" "default_instance (ap_proc s) = Some a"
      "\<forall>c \<in> set cs. call_fits rt st lvl fmt (snd c)" "format_fits fmt" "0 < rt_fuel rt"
  shows "\<exists>s'. log_all a (\<lambda>ck args s. log_call gate rt st ck the_default lvl fmt args s) cs s = Some s' \<and>
    file_text k s' = file_text k s @
      concat (map (\<lambda>(b, c). if b then line_text k rt st lvl fmt c else [])
        (zip (fst (calls tick (length (on_calls lvl cs)) (ap_counts s n))) (on_calls lvl cs)))"
  using ready
proof (induction cs arbitrary: lv s)
  case Nil
  then show ?case by (simp add: on_calls_def)
next
  case (Cons c cs)
  let ?log = "log_all a (\<lambda>ck args s. log_call gate rt st ck the_default lvl fmt args s)"
  obtain lv' ck vs where c: "c = (lv', ck, vs)" by (cases c)
  have fits: "call_fits rt st lvl fmt (ck, vs)" "\<forall>c \<in> set cs. call_fits rt st lvl fmt (snd c)" using Cons.prems(3) c by simp_all
  obtain w where w: "set_level a lv' (wld (ap_proc s)) = Some w"
    "logs_to_file rt a lv' k (s\<lparr>ap_proc := (ap_proc s)\<lparr>wld := w\<rparr>\<rparr>)"
    "file_text k (s\<lparr>ap_proc := (ap_proc s)\<lparr>wld := w\<rparr>\<rparr>) = file_text k s"
    using level_changes [OF Cons.prems(1)] by blast
  let ?s = "s\<lparr>ap_proc := (ap_proc s)\<lparr>wld := w\<rparr>\<rparr>"
  have d: "default_instance (ap_proc ?s) = Some a" using Cons.prems(2) by simp
  show ?case
  proof (cases "lv' \<le> lvl")
    case True
    from count_gate_call [of gate tick n, OF gate w(2) d True fits(1) Cons.prems(4,5)] obtain s1 where
      s1: "log_call gate rt st ck the_default lvl fmt (these vs) ?s = Some s1" "logs_to_file rt a lv' k s1"
        "default_instance (ap_proc s1) = Some a" "ap_counts s1 = (ap_counts s)(n := snd (tick (ap_counts s n)))"
        "file_text k s1 = file_text k s @ (if fst (tick (ap_counts s n)) then line_text k rt st lvl fmt (ck, vs) else [])"
      using w(3) by auto
    from Cons.IH [OF s1(2,3) fits(2) Cons.prems(4,5)] obtain s' where "?log cs s1 = Some s'"
      "file_text k s' = file_text k s1 @
        concat (map (\<lambda>(b, c). if b then line_text k rt st lvl fmt c else [])
          (zip (fst (calls tick (length (on_calls lvl cs)) (ap_counts s1 n))) (on_calls lvl cs)))" by blast
    moreover obtain b c1 bs c2 where "tick (ap_counts s n) = (b, c1)" "calls tick (length (on_calls lvl cs)) c1 = (bs, c2)"
      by fastforce
    ultimately show ?thesis using s1 w(1) True by (simp add: c on_calls_def)
  next
    case False
    from Cons.IH [OF w(2) d fits(2) Cons.prems(4,5)] obtain s' where "?log cs ?s = Some s'"
      "file_text k s' = file_text k ?s @
        concat (map (\<lambda>(b, c). if b then line_text k rt st lvl fmt c else [])
          (zip (fst (calls tick (length (on_calls lvl cs)) (ap_counts ?s n))) (on_calls lvl cs)))" by blast
    then show ?thesis using w(1,3) count_gate_off [OF w(2) d False] False by (simp add: c on_calls_def)
  qed
qed

text \<open>Which lines a list of answers lets through.\<close>

lemma length_on_calls: "length cs \<le> m \<Longrightarrow> length (on_calls lvl cs) \<le> m"
  unfolding on_calls_def by (simp add: le_trans [OF length_filter_le])

lemma concat_if: "concat (map (\<lambda>i. if P i then g i else []) js) = concat (map g (filter P js))"
  by (induction js) simp_all

lemma zip_passing:
  "concat (map (\<lambda>(b, c). if b then g c else []) (zip (map P [0 ..< length cs]) cs)) =
     concat (map (\<lambda>i. g (cs ! i)) (filter P [0 ..< length cs]))"
proof -
  have "map (\<lambda>(b, c). if b then g c else []) (zip (map P [0 ..< length cs]) cs) =
      map (\<lambda>i. if P i then g (cs ! i) else []) [0 ..< length cs]"
    by (rule nth_equalityI) simp_all
  then show ?thesis by (simp only: concat_if)
qed

lemma first_passing: "map (\<lambda>i. g (cs ! i)) (filter (\<lambda>i. i < m) [0 ..< length cs]) = map g (take m cs)"
proof -
  have "filter (\<lambda>i. i < m) [0 ..< n] = [0 ..< min m n]" for n
  proof (induction n)
    case (Suc n)
    have "min m n = n \<and> min m (Suc n) = Suc n" if "n < m" using that by simp
    moreover have "min m (Suc n) = min m n" if "\<not> n < m" using that by simp
    ultimately show ?case using Suc by (cases "n < m") simp_all
  qed simp
  then show ?thesis by (auto intro: nth_equalityI)
qed

end
