(* ===== verification/Elog_Programs.thy ===== *)
theory Elog_Programs
  imports Elog_Macros
begin

text \<open>
  The example programs \<open>examples/basic.cpp\<close> and \<open>examples/aggregation.cpp\<close> from beginning to end, on
  the state of \<open>Elog_Macros\<close>, and what they leave on the terminal. The clock readings are inputs, named
  by line of the source and iteration; \<open>file\<close> is what \<open>__FILE__\<close> expands to.
\<close>

section \<open>Statements of a program\<close>

definition in_world :: "(world \<Rightarrow> world option) \<Rightarrow> 'u app \<Rightarrow> 'u app option" where
  "in_world f s = do { w \<leftarrow> f (wld (ap_proc s)); Some (s\<lparr>ap_proc := (ap_proc s)\<lparr>wld := w\<rparr>\<rparr>) }"

primrec repeat :: "(nat \<Rightarrow> 's \<Rightarrow> 's option) \<Rightarrow> nat \<Rightarrow> 's \<Rightarrow> 's option" where
  "repeat f 0 s = Some s"
| "repeat f (Suc n) s = do { s \<leftarrow> repeat f n s; f n s }"

text \<open>A call site, by \<open>__FILE__\<close> and \<open>__LINE__\<close>.\<close>

definition at_line :: "string \<Rightarrow> nat \<Rightarrow> site" where
  "at_line file n = \<lparr>st_addr = n, st_file = file, st_line = of_nat n\<rparr>"

definition flush_dedup_call :: "runtime \<Rightarrow> u64 \<Rightarrow> 'u app \<Rightarrow> 'u app option" where
  "flush_dedup_call rt tp s =
     do {
       (d, w, th) \<leftarrow> flush_dedup (report_summary (rt_env rt) (rt_prologues rt) (rt_fuel rt) tp (this_thread (rt_env rt)))
         (ap_dedups s, wld (ap_proc s), ap_thread s);
       Some (s\<lparr>ap_dedups := d, ap_proc := (ap_proc s)\<lparr>wld := w\<rparr>, ap_thread := th\<rparr>)
     }"

section \<open>\<open>basic.cpp\<close>\<close>

definition pi_bits :: u64 where
  "pi_bits = 0x400921F9F01B866E" \<comment> \<open>\<open>3.14159\<close>\<close>

definition basic_main :: "runtime \<Rightarrow> string \<Rightarrow> (nat \<Rightarrow> clocks) \<Rightarrow> 'u app \<Rightarrow> 'u app option" where
  "basic_main rt file ck s =
     (let (l, s) = the_default s in
      do {
        s \<leftarrow> in_world (set_level l DEBUG) s;
        s \<leftarrow> LOG_F INFO rt (at_line file 9) (ck 9) ''user {} logged in from {}''
               (these [VString ''alice'', VLiteral (''10.0.0.1'' @ [CHR 0x00])]) s;
        s \<leftarrow> LOG_F DEBUG rt (at_line file 10) (ck 10) ''token = {}'' (these [VQuoted (string_ref_of (Some ''abc123''))]) s;
        s \<leftarrow> LOG_F WARN rt (at_line file 11) (ck 11) ''retry {}/{} after {}ms'' (these [VInt 3, VInt 5, VInt 250]) s;
        let x = 0xCAFE;
        s \<leftarrow> LOG_F INFO rt (at_line file 14) (ck 14) ''x = {} (hex={}, bin={})'' (these [VInt x, VHex (scast x), VBin (scast x)]) s;
        LOG_F INFO rt (at_line file 15) (ck 15) ''pi = {}'' (these [VFixed pi_bits 2]) s
      })"

section \<open>\<open>aggregation.cpp\<close>\<close>

text \<open>
  \<open>while (steady_clock::now() - t0 < milliseconds(250))\<close>: each reading of the loop with the clocks of
  the call that follows; the sleep only moves the clock. Running out of readings is \<open>None\<close>.
\<close>

fun throttle_loop :: "('c \<Rightarrow> 's \<Rightarrow> 's option) \<Rightarrow> int \<Rightarrow> (int \<times> 'c) list \<Rightarrow> 's \<Rightarrow> 's option" where
  "throttle_loop body t0 [] s = None"
| "throttle_loop body t0 ((now, c) # rs) s =
     (if now - t0 < 250000000 then do { s \<leftarrow> body c s; throttle_loop body t0 rs s } else Some s)"

definition aggregation_main ::
    "runtime \<Rightarrow> string \<Rightarrow> (nat \<Rightarrow> nat \<Rightarrow> clocks) \<Rightarrow> int \<Rightarrow> (int \<times> clocks) list \<Rightarrow> 'u app \<Rightarrow> 'u app option" where
  "aggregation_main rt file ck t0 rs s =
     (let (l, s) = the_default s in
      do {
        s \<leftarrow> in_world (set_level l DEBUG) s;
        s \<leftarrow> repeat (\<lambda>i. LOG_EVERY_N INFO 100 rt (at_line file 11) (ck 11 i) ''every-100th: i = {}'' (these [VInt (of_nat i)])) 1000 s;
        s \<leftarrow> repeat (\<lambda>i. LOG_FIRST_N INFO 3 rt (at_line file 15) (ck 15 i) ''first 3 only: i = {}'' (these [VInt (of_nat i)])) 100 s;
        s \<leftarrow> repeat (\<lambda>i. LOG_ONCE INFO rt (at_line file 19) (ck 19 i) ''this prints once even in a loop ({})'' (these [VInt (of_nat i)])) 10 s;
        s \<leftarrow> throttle_loop (\<lambda>c. LOG_EVERY_N_MS INFO 50 rt (at_line file 24) c ''throttled to 50ms cadence'' (these [])) t0 rs s;
        s \<leftarrow> repeat (\<lambda>i. LOG_DEDUP INFO rt (at_line file 29) (ck 29 i) ''repeated message'' (these [])) 100 s;
        s \<leftarrow> in_world (flush (rt_fuel rt) l) s;
        flush_dedup_call rt (ck_line (ck 32 0)) s
      })"

section \<open>Runs of printing statements\<close>

text \<open>The clock readings give a printable time and leave room for the arguments.\<close>

definition header_fits :: "runtime \<Rightarrow> string \<Rightarrow> clocks \<Rightarrow> bool" where
  "header_fits rt file ck \<longleftrightarrow> (\<forall>lvl n. ctx_ok (rt_env rt) (line_ctx rt (at_line file n) ck lvl) \<and>
     length (prologue_text (rt_env rt) (line_ctx rt (at_line file n) ck lvl)) \<le> 3000)"

lemma call_fitsI:
  assumes "header_fits rt file ck" "\<forall>v \<in> set vs. readable (rt_env rt) v" "holes (scan fmt) \<le> length vs"
    "length vs \<le> 65535" "length (concat (map (shown (rt_env rt)) vs)) \<le> 1000"
  shows "call_fits rt (at_line file n) lvl fmt (ck, vs)"
proof -
  have "ctx_ok (rt_env rt) (line_ctx rt (at_line file n) ck lvl)"
    "length (prologue_text (rt_env rt) (line_ctx rt (at_line file n) ck lvl)) \<le> 3000"
    using assms(1) by (simp_all add: header_fits_def)
  then show ?thesis using assms(2-5) by (simp add: call_fits_def)
qed

lemma length_int_str [size_simps]: "length (int_str (sint (v :: u32))) \<le> 12"
proof -
  have "- (2 ^ 31) \<le> sint v" "sint v < 2 ^ 31" using sint_ge [of v] sint_lt [of v] by simp_all
  then have "nat (- sint v) < 10 ^ 11" "nat (sint v) < 10 ^ 11" by simp_all
  then have "length (radix_str 10 (nat (- sint v))) \<le> 11" "length (radix_str 10 (nat (sint v))) \<le> 11"
    by (auto intro: length_radix_str [of 10 _ 11])
  then show ?thesis by (simp add: int_str_def)
qed

text \<open>The default logger of a program that has just started and set its level.\<close>

definition printing :: "runtime \<Rightarrow> 'u app \<Rightarrow> bool" where
  "printing rt s \<longleftrightarrow> logs_to_file rt 0 DEBUG (make_stderr_sink True) s \<and> default_instance (ap_proc s) = Some 0"

abbreviation terminal :: "'u app \<Rightarrow> byte list" where
  "terminal s \<equiv> file_text (make_stderr_sink True) s"

abbreviation terminal_line :: "runtime \<Rightarrow> string \<Rightarrow> nat \<Rightarrow> Level \<Rightarrow> string \<Rightarrow> clocks \<times> val list \<Rightarrow> byte list" where
  "terminal_line rt file n \<equiv> line_text (make_stderr_sink True) rt (at_line file n)"

lemma start_printing:
  assumes "ap_proc s = initial os" "fd_inv (make_stderr_sink True) os" "thread_ok (rt_env rt) (ap_thread s)"
  shows "\<exists>p s'. the_default s = (0, s\<lparr>ap_proc := p\<rparr>) \<and> in_world (set_level 0 DEBUG) (s\<lparr>ap_proc := p\<rparr>) = Some s' \<and>
    printing rt s' \<and> terminal s' = fd_contents 2 os \<and> ap_counts s' = ap_counts s \<and> ap_next_ns s' = ap_next_ns s \<and>
    ap_dedups s' = ap_dedups s"
  using assms
  by (intro exI [of _ "snd (default_logger (ap_proc s))"])
    (simp add: the_default_def default_logger_def default_logger_init_def register_logger_def put_logger_def initial_def
      in_world_def set_level_def update_logger_def printing_def logs_to_file_def file_text_def new_logger_def make_stderr_sink_def)

lemma repeat_prints:
  assumes "\<And>i s. i < n \<Longrightarrow> Q i s \<Longrightarrow> \<exists>s'. f i s = Some s' \<and> Q (Suc i) s' \<and> terminal s' = terminal s @ t i" "Q 0 s"
  shows "\<exists>s'. repeat f n s = Some s' \<and> Q n s' \<and> terminal s' = terminal s @ concat (map t [0 ..< n])"
  using assms(1)
proof (induction n)
  case 0
  then show ?case using assms(2) by simp
next
  case (Suc n)
  then have "\<exists>s'. repeat f n s = Some s' \<and> Q n s' \<and> terminal s' = terminal s @ concat (map t [0 ..< n])" by simp
  then obtain s1 where s1: "repeat f n s = Some s1" "Q n s1" "terminal s1 = terminal s @ concat (map t [0 ..< n])" by blast
  from Suc.prems [OF lessI s1(2)] s1 show ?case by auto
qed

text \<open>What a phase of a program leaves alone.\<close>

definition same_sites :: "nat set \<Rightarrow> 'u app \<Rightarrow> 'u app \<Rightarrow> bool" where
  "same_sites N s s' \<longleftrightarrow> (\<forall>n. n \<notin> N \<longrightarrow> ap_counts s' n = ap_counts s n \<and> ap_next_ns s' n = ap_next_ns s n) \<and>
     ap_dedups s' = ap_dedups s"

lemma same_sites_trans: "same_sites M s s' \<Longrightarrow> same_sites N s' s'' \<Longrightarrow> same_sites (M \<union> N) s s''"
  by (simp add: same_sites_def)

lemma counted_loop:
  assumes gate: "\<And>a s. gate a s = (let (b, c) = tick (ap_counts s n) in Some (b, s\<lparr>ap_counts := (ap_counts s)(n := c)\<rparr>))"
    and tick: "\<And>c. tick c = (passes (unat c), c + 1)"
    and ready: "printing rt s" "ap_counts s n = 0" "DEBUG \<le> lvl" "format_fits fmt" "0 < rt_fuel rt" "m < 2 ^ 64"
    and fits: "\<And>i. i < m \<Longrightarrow> call_fits rt st lvl fmt (ck i, vs i)"
  shows "\<exists>s'. repeat (\<lambda>i. log_call gate rt st (ck i) the_default lvl fmt (these (vs i))) m s = Some s' \<and>
    printing rt s' \<and> same_sites {n} s s' \<and>
    terminal s' = terminal s @ concat (map (\<lambda>i. if passes i then line_text (make_stderr_sink True) rt st lvl fmt (ck i, vs i) else []) [0 ..< m])"
proof -
  let ?Q = "\<lambda>i s'. printing rt s' \<and> same_sites {n} s s' \<and> ap_counts s' n = of_nat i"
  have "\<exists>s2. log_call gate rt st (ck i) the_default lvl fmt (these (vs i)) s1 = Some s2 \<and> ?Q (Suc i) s2 \<and>
      terminal s2 = terminal s1 @ (if passes i then line_text (make_stderr_sink True) rt st lvl fmt (ck i, vs i) else [])"
    if i: "i < m" and Q: "?Q i s1" for i s1
  proof -
    have "unat (of_nat i :: u64) = i" using i ready(6) by (simp add: unsigned_of_nat take_bit_nat_eq_self)
    then have t: "tick (ap_counts s1 n) = (passes i, of_nat (Suc i))" using Q by (simp add: tick add.commute)
    from count_gate_call [of gate tick n rt 0 DEBUG "make_stderr_sink True" s1 lvl st fmt "ck i" "vs i", OF gate _ _ ready(3) fits [OF i] ready(4,5)]
    show ?thesis using Q t by (auto simp: printing_def same_sites_def)
  qed
  from repeat_prints [of m ?Q, OF this] ready(1,2)
  show ?thesis by (auto simp: same_sites_def)
qed

text \<open>A line of the program on the terminal: header and message between the colours.\<close>

definition message_line :: "runtime \<Rightarrow> string \<Rightarrow> nat \<Rightarrow> Level \<Rightarrow> clocks \<Rightarrow> string \<Rightarrow> byte list" where
  "message_line rt file n lvl ck msg =
     laid_out (make_stderr_sink True) lvl (prologue_text (rt_env rt) (line_ctx rt (at_line file n) ck lvl) @ msg)"

lemma terminal_line_message:
  "terminal_line rt file n lvl fmt (ck, vs) =
     message_line rt file n lvl ck (fill (scan fmt) (\<lambda>k. shown (rt_env rt) (vs ! k)) 0)"
  by (simp add: line_text_def line_body_def message_line_def)

lemma LOG_F_prints:
  assumes "printing rt s" "DEBUG \<le> lvl" "format_fits fmt" "0 < rt_fuel rt" "header_fits rt file ck"
    "\<forall>v \<in> set vs. readable (rt_env rt) v" "holes (scan fmt) \<le> length vs"
    "length vs \<le> 65535" "length (concat (map (shown (rt_env rt)) vs)) \<le> 1000"
  shows "\<exists>s'. LOG_F lvl rt (at_line file n) ck fmt (these vs) s = Some s' \<and> printing rt s' \<and>
    terminal s' = terminal s @ message_line rt file n lvl ck (fill (scan fmt) (\<lambda>k. shown (rt_env rt) (vs ! k)) 0)"
proof -
  have "logs_to_file rt 0 DEBUG (make_stderr_sink True) s" "default_instance (ap_proc s) = Some 0"
    using assms(1) by (simp_all add: printing_def)
  from log_call_prints [of rt 0 DEBUG _ s lvl "at_line file n" fmt ck vs "\<lambda>_ s. Some (True, s)" True s,
      OF this assms(2) call_fitsI [OF assms(5-9)] assms(3,4)]
  show ?thesis
    using assms(1) by (auto simp: Let_def LOG_F_def elog_internal_f_def printing_def terminal_line_message)
qed

lemma basic_formats:
  "format_fits ''user {} logged in from {}''" "format_fits ''token = {}''" "format_fits ''retry {}/{} after {}ms''"
  "format_fits ''x = {} (hex={}, bin={})''" "format_fits ''pi = {}''"
  by (simp_all add: format_fits_def IOV_MAX_def count_lit_chars_def count_pieces_def peek_def)

lemma cafe_digits: "radix_str 10 51966 = ''51966''" "radix_str 16 51966 = ''cafe''" "radix_str 2 51966 = ''1100101011111110''"
  by (simp_all add: radix_large radix_small digit_char_def char_of_def bit_Suc_0_iff)

lemma basic_messages:
  "fill (scan ''user {} logged in from {}'') (\<lambda>k. shown env ([VString ''alice'', VLiteral (''10.0.0.1'' @ [CHR 0x00])] ! k)) 0 =
     ''user alice logged in from 10.0.0.1''"
  "fill (scan ''token = {}'') (\<lambda>k. shown env ([VQuoted (string_ref_of (Some ''abc123''))] ! k)) 0 =
     ''token = '' @ [CHR 0x22] @ ''abc123'' @ [CHR 0x22]"
  "fill (scan ''x = {} (hex={}, bin={})'') (\<lambda>k. shown env ([VInt 0xCAFE, VHex (scast (0xCAFE :: u32)), VBin (scast (0xCAFE :: u32))] ! k)) 0 =
     ''x = 51966 (hex=cafe, bin=1100101011111110)''"
  "fill (scan ''pi = {}'') (\<lambda>k. shown env ([VFixed pi_bits 2] ! k)) 0 = ''pi = '' @ fmt_fixed env 2 pi_bits"
  by (simp_all add: peek_def string_ref_of_def cafe_digits int_str_def)

lemma retry_digits: "int_str 3 = ''3''" "int_str 5 = ''5''" "int_str 250 = ''250''"
  by (simp_all add: int_str_def radix_large radix_small digit_char_def char_of_def bit_Suc_0_iff)

lemma int_str_index: "i < 2 ^ 31 \<Longrightarrow> int_str (sint (of_nat i :: u32)) = radix_str 10 i"
proof -
  assume i: "i < 2 ^ 31"
  have "sint (of_nat i :: u32) = int i"
    using i by (simp add: signed_of_nat signed_take_bit_int_eq_self)
  then show ?thesis by (simp add: int_str_def)
qed

lemma flush_prints:
  assumes "printing rt s" "0 < fuel"
  shows "\<exists>s'. in_world (flush fuel 0) s = Some s' \<and> printing rt s' \<and> terminal s' = terminal s \<and> same_sites {} s s'"
proof -
  let ?k = "make_stderr_sink True" and ?w = "wld (ap_proc s)"
  obtain f where f: "fuel = Suc f" using assms(2) by (cases fuel) simp_all
  obtain l where l: "heap ?w 0 = Some l" "lg_sinks l = [Fd ?k]" "lg_ties l = []" and k: "fd_inv ?k (sys ?w)"
    using assms(1) by (auto simp: printing_def logs_to_file_def)
  have "l\<lparr>lg_sinks := [Fd ?k]\<rparr> = l" using l(2) by simp
  then have o: "flush_own 0 ?w = Some (?w\<lparr>sys := fd_flush ?k (sys ?w)\<rparr>)"
    using l(1,2) by (simp add: flush_own_def fun_upd_idem)
  define w' where "w' = ?w\<lparr>sys := fd_flush ?k (sys ?w), visited := (if 0 \<in> visited ?w then visited ?w else visited ?w - {0})\<rparr>"
  have "flush fuel 0 ?w = Some w'"
    using l(1,3) o by (simp add: f w'_def)
  then have "in_world (flush fuel 0) s = Some (s\<lparr>ap_proc := (ap_proc s)\<lparr>wld := w'\<rparr>\<rparr>)" by (simp add: in_world_def)
  then show ?thesis
    using assms(1) fd_sink.inv_flush [OF k] fd_sink.held_flush [OF k]
    by (auto simp: w'_def printing_def logs_to_file_def file_text_def same_sites_def)
qed

section \<open>The timed loop and the repeated line\<close>

text \<open>Which calls of an undisturbed EVERY_N_MS site pass, from the clock readings.\<close>

fun throttled :: "int \<Rightarrow> int \<Rightarrow> clocks list \<Rightarrow> clocks list" where
  "throttled period t [] = []"
| "throttled period t (c # cs) =
     (if ck_steady c < t then throttled period t cs else c # throttled period (ck_steady c + period) cs)"

text \<open>A steady clock that has not run for 146 years: no next time overflows.\<close>

definition steady_ok :: "clocks \<Rightarrow> bool" where
  "steady_ok c \<longleftrightarrow> 0 \<le> ck_steady c \<and> ck_steady c < 2 ^ 62"

lemma throttle_prints:
  assumes "printing rt s" "\<exists>r \<in> set rs. 250000000 \<le> fst r - t0"
    "\<forall>r \<in> set rs. header_fits rt file (snd r) \<and> steady_ok (snd r)" "0 < rt_fuel rt"
    "format_fits fmt" "holes (scan fmt) = 0"
  shows "\<exists>s'. throttle_loop (\<lambda>c. LOG_EVERY_N_MS INFO 50 rt (at_line file n) c fmt (these [])) t0 rs s = Some s' \<and>
    printing rt s' \<and> same_sites {n} s s' \<and>
    terminal s' = terminal s @ concat (map (\<lambda>c. terminal_line rt file n INFO fmt (c, []))
      (throttled 50000000 (ap_next_ns s n) (map snd (takeWhile (\<lambda>r. fst r - t0 < 250000000) rs))))"
  using assms(1-3)
proof (induction rs arbitrary: s)
  case (Cons r rs)
  obtain now c where r: "r = (now, c)" by (cases r)
  show ?case
  proof (cases "now - t0 < 250000000")
    case False
    then show ?thesis using Cons.prems(1) by (auto simp: r same_sites_def)
  next
    case True
    let ?t = "ap_next_ns s n" and ?gate = "every_time_gate n (ck_steady c) (period_ns 50 1000000)"
    have ready: "logs_to_file rt 0 DEBUG (make_stderr_sink True) s" "default_instance (ap_proc s) = Some 0" "DEBUG \<le> INFO"
      using Cons.prems(1) by (simp_all add: printing_def less_eq_Level_def)
    have fits: "call_fits rt (at_line file n) INFO fmt (c, [])"
      using Cons.prems(3) assms(6) by (intro call_fitsI) (auto simp: r)
    define t' where "t' = (if ck_steady c < ?t then ?t else ck_steady c + 50000000)"
    have g: "?gate 0 s = Some (\<not> ck_steady c < ?t, s\<lparr>ap_next_ns := (ap_next_ns s)(n := t')\<rparr>)"
      using Cons.prems(3) by (simp add: every_time_gate_def period_ns_def every_time_tick_def add_i64_def steady_ok_def r t'_def)
    from log_call_prints [OF ready fits assms(5,4), of ?gate, OF g] obtain s1 where
      s1: "LOG_EVERY_N_MS INFO 50 rt (at_line file n) c fmt (these []) s = Some s1" "printing rt s1" "same_sites {n} s s1"
        "ap_next_ns s1 n = t'"
        "terminal s1 = terminal s @ (if \<not> ck_steady c < ?t then terminal_line rt file n INFO fmt (c, []) else [])"
      using ready(2) by (auto simp: LOG_EVERY_N_MS_def elog_internal_every_time_def at_line_def Let_def printing_def same_sites_def)
    have "\<exists>r \<in> set rs. 250000000 \<le> fst r - t0" "\<forall>r \<in> set rs. header_fits rt file (snd r) \<and> steady_ok (snd r)"
      using Cons.prems(2,3) True by (auto simp: r)
    from Cons.IH [OF s1(2) this] obtain s2 where
      s2: "throttle_loop (\<lambda>c. LOG_EVERY_N_MS INFO 50 rt (at_line file n) c fmt (these [])) t0 rs s1 = Some s2"
        "printing rt s2" "same_sites {n} s1 s2"
        "terminal s2 = terminal s1 @ concat (map (\<lambda>c. terminal_line rt file n INFO fmt (c, []))
          (throttled 50000000 t' (map snd (takeWhile (\<lambda>r. fst r - t0 < 250000000) rs))))"
      using s1(4) by auto
    have "same_sites {n} s s2" using same_sites_trans [OF s1(3) s2(3)] by simp
    then show ?thesis using True s1(1,5) s2 by (auto simp: r t'_def)
  qed
qed simp

text \<open>The state of the sites when one site has been called \<open>m + 1\<close> times.\<close>

definition repeated :: "nat \<Rightarrow> dedup_call \<Rightarrow> nat \<Rightarrow> dedups" where
  "repeated a c m = \<lparr>dd_site = [a \<mapsto> (claim c fresh_dedup)\<lparr>dd_suppressed := of_nat m\<rparr>], g_last_dedup = Some a, dd_states = [a]\<rparr>"

lemma dedup_gate_repeated:
  "ap_dedups s = no_dedups \<Longrightarrow>
      dedup_gate rt st ck lvl a s = Some (True, s\<lparr>ap_dedups := repeated (st_addr st) \<lparr>dc_logger = a, dc_level = lvl, dc_file = st_file st, dc_line = st_line st\<rparr> 0\<rparr>)"
  "ap_dedups s = repeated (st_addr st) \<lparr>dc_logger = a, dc_level = lvl, dc_file = st_file st, dc_line = st_line st\<rparr> m \<Longrightarrow>
      dedup_gate rt st ck lvl a s = Some (False, s\<lparr>ap_dedups := repeated (st_addr st) \<lparr>dc_logger = a, dc_level = lvl, dc_file = st_file st, dc_line = st_line st\<rparr> (Suc m)\<rparr>)"
  by (simp_all add: dedup_gate_def no_dedups_def new_dedup_def register_dedup_def dedup_tick_def update_site_def repeated_def
      claim_def publish_def fresh_dedup_def add.commute)

lemma dedup_loop:
  assumes "printing rt s" "ap_dedups s = no_dedups" "DEBUG \<le> lvl" "format_fits fmt" "holes (scan fmt) = 0" "0 < rt_fuel rt"
    "\<And>i. header_fits rt file (ck i)" "0 < m"
  shows "\<exists>s'. repeat (\<lambda>i. LOG_DEDUP lvl rt (at_line file n) (ck i) fmt (these [])) m s = Some s' \<and> printing rt s' \<and>
    ap_dedups s' = repeated n \<lparr>dc_logger = 0, dc_level = lvl, dc_file = file, dc_line = of_nat n\<rparr> (m - 1) \<and>
    terminal s' = terminal s @ terminal_line rt file n lvl fmt (ck 0, [])"
proof -
  let ?c = "\<lparr>dc_logger = 0, dc_level = lvl, dc_file = file, dc_line = of_nat n\<rparr>"
  let ?Q = "\<lambda>i s. printing rt s \<and> ap_dedups s = (if i = 0 then no_dedups else repeated n ?c (i - 1))"
  let ?t = "\<lambda>i. if i = 0 then terminal_line rt file n lvl fmt (ck i, []) else []"
  have "\<exists>s'. LOG_DEDUP lvl rt (at_line file n) (ck i) fmt (these []) s = Some s' \<and> ?Q (Suc i) s' \<and> terminal s' = terminal s @ ?t i"
    if Q: "?Q i s" for i s
  proof -
    have ready: "logs_to_file rt 0 DEBUG (make_stderr_sink True) s" "default_instance (ap_proc s) = Some 0"
      using Q by (simp_all add: printing_def)
    have fits: "call_fits rt (at_line file n) lvl fmt (ck i, [])" using assms(5,7) by (intro call_fitsI) auto
    let ?gate = "dedup_gate rt (at_line file n) (ck i) lvl"
    have g: "?gate 0 s = Some (i = 0, s\<lparr>ap_dedups := repeated n ?c i\<rparr>)"
      using Q dedup_gate_repeated [where s = s and st = "at_line file n" and a = 0 and lvl = lvl] by (cases i) (simp_all add: at_line_def)
    from log_call_prints [OF ready assms(3) fits assms(4,6), of ?gate, OF g] show ?thesis
      using ready(2) by (auto simp: LOG_DEDUP_def elog_internal_dedup_def Let_def printing_def)
  qed
  from repeat_prints [of m ?Q, OF this] assms(1,2) obtain s' where
    "repeat (\<lambda>i. LOG_DEDUP lvl rt (at_line file n) (ck i) fmt (these [])) m s = Some s'" "?Q m s'"
    "terminal s' = terminal s @ concat (map ?t [0 ..< m])" by auto
  moreover have "concat (map ?t [0 ..< m]) = ?t 0"
    using assms(8) by (simp add: upt_conv_Cons)
  ultimately show ?thesis using assms(8) by auto
qed

lemma summary_prints:
  assumes "printing rt s" "ap_dedups s = repeated n \<lparr>dc_logger = 0, dc_level = lvl, dc_file = file, dc_line = of_nat n\<rparr> m"
    "0 < m" "m < 2 ^ 64" "DEBUG \<le> lvl" "header_fits rt file ck" "length file \<le> 900" "0 < rt_fuel rt"
  shows "\<exists>s'. flush_dedup_call rt (ck_line ck) s = Some s' \<and>
    terminal s' = terminal s @ message_line rt file n lvl ck
      (''[suppressed '' @ radix_str 10 m @ '' occurrences of '' @ file @ '':'' @ int_str (sint (of_nat n :: u32)) @ '']'')"
proof -
  let ?k = "make_stderr_sink True" and ?env = "rt_env rt" and ?w = "wld (ap_proc s)"
  let ?c = "\<lparr>dc_logger = 0, dc_level = lvl, dc_file = file, dc_line = of_nat n\<rparr>"
  let ?tid = "this_thread ?env"
  let ?args = "[VULongLong (of_nat m), VCStr (Some file), VInt (of_nat n)]"
  let ?msg = "''[suppressed '' @ radix_str 10 m @ '' occurrences of '' @ file @ '':'' @ int_str (sint (of_nat n :: u32)) @ '']''"
  obtain l where l: "heap ?w 0 = Some l" "lg_sinks l = [Fd ?k]" "lg_tie_count l = 0" "lg_prologue l = Default_Prologue"
    "lg_level l = DEBUG" and k: "fd_inv ?k (sys ?w)" and th: "thread_ok ?env (ap_thread s)"
    using assms(1) by (auto simp: printing_def logs_to_file_def)
  have ctx: "summary_ctx (ck_line ck) ?tid ?c = line_ctx rt (at_line file n) ck lvl"
    by (simp add: summary_ctx_def line_ctx_def at_line_def)
  have u: "unat (of_nat m :: u64) = m" using assms(4) by (simp add: unsigned_of_nat take_bit_nat_eq_self)
  have len: "length (radix_str 10 m) \<le> 20" using radix_10_length [of "of_nat m"] u by simp
  have header: "ctx_ok ?env (line_ctx rt (at_line file n) ck lvl)"
    "length (prologue_text ?env (line_ctx rt (at_line file n) ck lvl)) \<le> 3000"
    using assms(6) by (simp_all add: header_fits_def)
  have fit: "ctx_ok ?env (line_ctx rt (at_line file n) ck lvl)"
    "length (prologue_text ?env (line_ctx rt (at_line file n) ck lvl)) + length (concat (map (shown ?env) ?args)) + 32 \<le> 4096"
    using header len length_int_str [of "of_nat n"] assms(7) by (simp_all add: u)
  from emit_f_fast_line [OF th fit(1) _ fit(2) l(1,4) kFmt_facts(1), of "rt_prologues rt" "rt_fuel rt"] obtain spec iov th' where
    e: "make_spec (count_pieces kFmt) (count_lit_chars kFmt) kFmt = Some spec" "length iov = count_pieces kFmt + 2"
      "concat iov = (prologue_text ?env (line_ctx rt (at_line file n) ck lvl) @ ?msg) @ [CHR 0x0A]" "last iov = [CHR 0x0A]"
      "emit_f_fast ?env (rt_prologues rt) (rt_fuel rt) 0 (line_ctx rt (at_line file n) ck lvl) (count_pieces kFmt) spec ?args ?w (ap_thread s) =
        map_option (\<lambda>w. (w, th')) (emit (rt_fuel rt) lvl iov 0 ?w)"
    by (auto simp: kFmt_facts u line_ctx_def)
  have "length iov + 2 \<le> IOV_MAX" "iov \<noteq> []"
    using e(2) by (auto simp: kFmt_def IOV_MAX_def count_pieces_def peek_def)
  with emit_to_file [OF l(1-3) k _ assms(8), of iov lvl] payload_laid_out [OF _ e(3,4)] obtain w' where
    w': "emit (rt_fuel rt) lvl iov 0 ?w = Some w'"
      "fd_contents 2 (sys w') = fd_contents 2 (sys ?w) @ message_line rt file n lvl ck ?msg"
    by (auto simp: message_line_def make_stderr_sink_def)
  have "enabled l lvl" using l(5) assms(5) by (simp add: enabled_def)
  then have r: "report_summary ?env (rt_prologues rt) (rt_fuel rt) (ck_line ck) ?tid ?c (of_nat m) (?w, ap_thread s) = Some (w', th')"
    using l(1) e(1,5) w'(1) by (simp add: report_summary_def ctx)
  have "(of_nat m :: u64) \<noteq> 0" using u assms(3) by (metis neq0_conv unsigned_0)
  then have "flush_dedup_call rt (ck_line ck) s \<noteq> None \<and>
      sys (wld (ap_proc (the (flush_dedup_call rt (ck_line ck) s)))) = sys w'"
    using r assms(2)
    by (simp add: flush_dedup_call_def flush_dedup_def flush_all_dedup_def flush_summary_def repeated_def identity_def
        claim_def publish_def fresh_dedup_def)
  then show ?thesis using w'(2) by (auto simp: file_text_def make_stderr_sink_def)
qed

section \<open>The counted loops\<close>

lemma filter_multiples: "0 < k \<Longrightarrow> filter (\<lambda>i. i mod k = 0) [0 ..< k * m] = map ((*) k) [0 ..< m]"
proof (induction m)
  case (Suc m)
  have "filter (\<lambda>i. i mod k = 0) [k * m ..< k * m + k] = [k * m]"
  proof -
    have "[k * m ..< k * m + k] = k * m # [Suc (k * m) ..< k * m + k]" using Suc.prems by (simp add: upt_conv_Cons)
    moreover have "i mod k \<noteq> 0" if "k * m < i" "i < k * m + k" for i
    proof
      assume "i mod k = 0"
      then obtain q where q: "i = k * q" by auto
      have "k * m < k * q" "k * q < k * Suc m" using that q by simp_all
      then have "m < q" "q < Suc m" by (simp_all only: mult_less_cancel1)
      then show False by simp
    qed
    then have "filter (\<lambda>i. i mod k = 0) [Suc (k * m) ..< k * m + k] = []" by (simp add: filter_empty_conv)
    ultimately show ?thesis by simp
  qed
  moreover have "[0 ..< k * Suc m] = [0 ..< k * m] @ [k * m ..< k * m + k]"
    using upt_add_eq_append [of 0 "k * m" k] by (simp add: add.commute)
  ultimately show ?case using Suc by simp
qed simp

lemma every_100th: "concat (map (\<lambda>i. if i mod 100 = 0 then g i else []) [0 ..< 1000]) = concat (map (\<lambda>j. g (100 * j)) [0 ..< 10])"
proof -
  have "filter (\<lambda>i. i mod 100 = 0) [0 ..< 1000 :: nat] = map ((*) 100) [0 ..< 10]" using filter_multiples [of 100 10] by simp
  then show ?thesis by (simp add: concat_if o_def)
qed

lemma first_few:
  assumes "m \<le> n"
  shows "concat (map (\<lambda>i. if i < m then g i else []) [0 ..< n]) = concat (map g [0 ..< m])"
proof -
  have "[0 ..< n] = [0 ..< m] @ [m ..< n]" using assms by (metis le0 le_add_diff_inverse upt_add_eq_append)
  moreover have "filter (\<lambda>i. i < m) [0 ..< m] = [0 ..< m]" "filter (\<lambda>i. i < m) [m ..< n] = []"
    by (simp_all add: filter_empty_conv)
  ultimately show ?thesis by (simp only: concat_if filter_append append_Nil2)
qed

lemma first_one: "0 < n \<Longrightarrow> concat (map (\<lambda>i. if i = 0 then g i else []) [0 ..< n]) = g 0"
  using first_few [of 1 n g] by simp

lemma tick_passes:
  "every_n_tick 100 c = (unat c mod 100 = 0, c + 1)" "first_n_tick k c = (unat c < unat k, c + 1)"
  using every_n.tick [of 100 c] by (auto simp: first_n_tick_def word_less_nat_alt fun_eq_iff dest: spec [of _ 1])

lemma aggregation_formats:
  "format_fits ''every-100th: i = {}''" "format_fits ''first 3 only: i = {}''" "format_fits ''this prints once even in a loop ({})''"
  "format_fits ''throttled to 50ms cadence''" "format_fits ''repeated message''"
  "holes (scan ''every-100th: i = {}'') = 1" "holes (scan ''first 3 only: i = {}'') = 1"
  "holes (scan ''this prints once even in a loop ({})'') = 1"
  "holes (scan ''throttled to 50ms cadence'') = 0" "holes (scan ''repeated message'') = 0"
  by (simp_all add: format_fits_def IOV_MAX_def count_lit_chars_def count_pieces_def peek_def)

lemma aggregation_messages:
  "fill (scan ''every-100th: i = {}'') t 0 = ''every-100th: i = '' @ t 0"
  "fill (scan ''first 3 only: i = {}'') t 0 = ''first 3 only: i = '' @ t 0"
  "fill (scan ''this prints once even in a loop ({})'') t 0 = ''this prints once even in a loop ('' @ t 0 @ '')''"
  "fill (scan ''throttled to 50ms cadence'') t 0 = ''throttled to 50ms cadence''"
  "fill (scan ''repeated message'') t 0 = ''repeated message''"
  by (simp_all add: peek_def)

lemma summary_digits: "radix_str 10 99 = ''99''" "int_str 29 = ''29''"
  by (simp_all add: int_str_def radix_large radix_small digit_char_def char_of_def bit_Suc_0_iff)

text \<open>The loops of \<open>aggregation.cpp\<close>.\<close>

lemma index_fits:
  assumes "holes (scan fmt) = 1" "header_fits rt file ck"
  shows "call_fits rt (at_line file n) lvl fmt (ck, [VInt (of_nat i)])"
  using assms order_trans [OF length_int_str [of "of_nat i"]] by (intro call_fitsI) auto

lemma every_n_loop:
  assumes "printing rt s" "ap_counts s 11 = 0" "0 < rt_fuel rt" "\<forall>i. header_fits rt file (ck i)"
  shows "\<exists>s'. repeat (\<lambda>i. LOG_EVERY_N INFO 100 rt (at_line file 11) (ck i) ''every-100th: i = {}'' (these [VInt (of_nat i)])) 1000 s = Some s' \<and>
    printing rt s' \<and> same_sites {11} s s' \<and> terminal s' = terminal s @
      concat (map (\<lambda>j. message_line rt file 11 INFO (ck (100 * j)) (''every-100th: i = '' @ radix_str 10 (100 * j))) [0 ..< 10])"
proof -
  let ?line = "\<lambda>i. terminal_line rt file 11 INFO ''every-100th: i = {}'' (ck i, [VInt (of_nat i)])"
  have info: "DEBUG \<le> INFO" by (simp add: less_eq_Level_def)
  have fits: "call_fits rt (at_line file 11) INFO ''every-100th: i = {}'' (ck i, [VInt (of_nat i)])" for i
    using assms(4) by (intro index_fits aggregation_formats) simp
  have e: "?line (100 * j) = message_line rt file 11 INFO (ck (100 * j)) (''every-100th: i = '' @ radix_str 10 (100 * j))"
    if "j < 10" for j
    using that int_str_index [of "100 * j"] by (simp only: terminal_line_message aggregation_messages) simp
  then have "map (\<lambda>j. ?line (100 * j)) [0 ..< 10] =
      map (\<lambda>j. message_line rt file 11 INFO (ck (100 * j)) (''every-100th: i = '' @ radix_str 10 (100 * j))) [0 ..< 10]"
    by (auto intro!: map_cong)
  then have "concat (map (\<lambda>i. if i mod 100 = 0 then ?line i else []) [0 ..< 1000]) =
      concat (map (\<lambda>j. message_line rt file 11 INFO (ck (100 * j)) (''every-100th: i = '' @ radix_str 10 (100 * j))) [0 ..< 10])"
    by (simp only: every_100th)
  with counted_loop [of "every_n_gate 11 100" "every_n_tick 100" 11 "\<lambda>k. k mod 100 = 0", OF every_n_gate_def tick_passes(1)
      assms(1,2) info aggregation_formats(1) assms(3) _ fits, of 1000 "\<lambda>i. i"]
  show ?thesis by (simp add: LOG_EVERY_N_def elog_internal_every_n_def) (simp add: at_line_def)
qed

lemma first_n_loop:
  assumes "printing rt s" "ap_counts s 15 = 0" "0 < rt_fuel rt" "\<forall>i. header_fits rt file (ck i)"
  shows "\<exists>s'. repeat (\<lambda>i. LOG_FIRST_N INFO 3 rt (at_line file 15) (ck i) ''first 3 only: i = {}'' (these [VInt (of_nat i)])) 100 s = Some s' \<and>
    printing rt s' \<and> same_sites {15} s s' \<and> terminal s' = terminal s @
      concat (map (\<lambda>i. message_line rt file 15 INFO (ck i) (''first 3 only: i = '' @ radix_str 10 i)) [0 ..< 3])"
proof -
  let ?line = "\<lambda>i. terminal_line rt file 15 INFO ''first 3 only: i = {}'' (ck i, [VInt (of_nat i)])"
  have info: "DEBUG \<le> INFO" by (simp add: less_eq_Level_def)
  have fits: "call_fits rt (at_line file 15) INFO ''first 3 only: i = {}'' (ck i, [VInt (of_nat i)])" for i
    using assms(4) by (intro index_fits aggregation_formats) simp
  have "?line j = message_line rt file 15 INFO (ck j) (''first 3 only: i = '' @ radix_str 10 j)" if "j < 3" for j
    using that int_str_index [of j] by (simp only: terminal_line_message aggregation_messages) simp
  then have "map ?line [0 ..< 3] = map (\<lambda>i. message_line rt file 15 INFO (ck i) (''first 3 only: i = '' @ radix_str 10 i)) [0 ..< 3]"
    by (auto intro!: map_cong)
  moreover have "concat (map (\<lambda>i. if i < unat (3 :: u64) then ?line i else []) [0 ..< 100]) = concat (map ?line [0 ..< 3])"
    using first_few [of 3 100 ?line] by simp
  ultimately have "concat (map (\<lambda>i. if i < unat (3 :: u64) then ?line i else []) [0 ..< 100]) =
      concat (map (\<lambda>i. message_line rt file 15 INFO (ck i) (''first 3 only: i = '' @ radix_str 10 i)) [0 ..< 3])"
    by (simp only:)
  with counted_loop [of "first_n_gate 15 3" "first_n_tick 3" 15 "\<lambda>k. k < unat (3 :: u64)", OF first_n_gate_def tick_passes(2)
      assms(1,2) info aggregation_formats(2) assms(3) _ fits, of 100 "\<lambda>i. i"]
  show ?thesis by (simp add: LOG_FIRST_N_def elog_internal_first_n_def) (simp add: at_line_def)
qed

lemma once_loop:
  assumes "printing rt s" "ap_counts s 19 = 0" "0 < rt_fuel rt" "\<forall>i. header_fits rt file (ck i)"
  shows "\<exists>s'. repeat (\<lambda>i. LOG_ONCE INFO rt (at_line file 19) (ck i) ''this prints once even in a loop ({})'' (these [VInt (of_nat i)])) 10 s = Some s' \<and>
    printing rt s' \<and> same_sites {19} s s' \<and>
    terminal s' = terminal s @ message_line rt file 19 INFO (ck 0) ''this prints once even in a loop (0)''"
proof -
  let ?line = "\<lambda>i. terminal_line rt file 19 INFO ''this prints once even in a loop ({})'' (ck i, [VInt (of_nat i)])"
  have info: "DEBUG \<le> INFO" by (simp add: less_eq_Level_def)
  have fits: "call_fits rt (at_line file 19) INFO ''this prints once even in a loop ({})'' (ck i, [VInt (of_nat i)])" for i
    using assms(4) by (intro index_fits aggregation_formats) simp
  have "int_str 0 = ''0''" by (simp add: int_str_def radix_small digit_char_0)
  then have "concat (map (\<lambda>i. if i < unat (1 :: u64) then ?line i else []) [0 ..< 10]) =
      message_line rt file 19 INFO (ck 0) ''this prints once even in a loop (0)''"
    using first_one [of 10 ?line] by (simp add: terminal_line_message aggregation_messages)
  with counted_loop [of "first_n_gate 19 1" "first_n_tick 1" 19 "\<lambda>k. k < unat (1 :: u64)", OF first_n_gate_def tick_passes(2)
      assms(1,2) info aggregation_formats(3) assms(3) _ fits, of 10 "\<lambda>i. i"]
  show ?thesis by (simp add: LOG_ONCE_def elog_internal_first_n_def) (simp add: at_line_def)
qed

section \<open>A concrete start\<close>

definition start_runtime :: runtime where
  "start_runtime = \<lparr>rt_env = sample_env2\<lparr>fmt_fixed := \<lambda>_ _. ''3.14''\<rparr>, rt_prologues = \<lambda>_ _ _. None, rt_packs = \<lambda>_ _ _. None,
     rt_fuel = 2\<rparr>"

definition start_disk :: os where
  "start_disk = disk0\<lparr>fds := [2 \<mapsto> \<lparr>inode = 0, offset = 0, o_append = True\<rparr>], next_fd := 3\<rparr>"

definition start_app :: "unit app" where
  "start_app = \<lparr>ap_proc = initial start_disk, ap_thread = sample_thread, ap_counts = \<lambda>_. 0, ap_next_ns = \<lambda>_. 0,
     ap_bursts = \<lambda>_. burst_init, ap_rng = 1, ap_dedups = no_dedups, ap_user = ()\<rparr>"

definition at_ms :: "int \<Rightarrow> clocks" where
  "at_ms t = \<lparr>ck_steady = t * 1000000, ck_summary = 0, ck_line = 1500000\<rparr>"

lemma start_header:
  "prologue_text (rt_env start_runtime) (line_ctx start_runtime (at_line ''io.cpp'' n) (at_ms t) lvl) =
     ''2024-01-09 08:07:06.001500 '' @ level_name lvl @ '' [5] io.cpp:'' @ int_str (sint (of_nat n :: u32)) @ '' | ''"
proof -
  have "replicate 2 (CHR ''0'') = ''00''" by (simp add: numeral_2_eq_2)
  then show ?thesis
    by (simp add: prologue_text_def line_ctx_def at_line_def at_ms_def start_runtime_def sample_env2_def date_text_def zero_pad_def
        radix_str.simps digit_char_def char_of_def bit_Suc_0_iff tid_value_def base_name_def)
qed

lemma start_facts:
  "ap_proc start_app = initial start_disk" "fd_inv (make_stderr_sink True) start_disk" "os_ok start_disk" "calm start_disk"
  "thread_ok (rt_env start_runtime) (ap_thread start_app)" "1 < rt_fuel start_runtime"
  "0 < rt_fuel start_runtime" "header_fits start_runtime ''io.cpp'' (at_ms t)" "fd_contents 2 start_disk = ''old''"
proof -
  show "header_fits start_runtime ''io.cpp'' (at_ms t)"
    unfolding header_fits_def start_header
  proof (intro allI conjI)
    fix lvl n
    show "ctx_ok (rt_env start_runtime) (line_ctx start_runtime (at_line ''io.cpp'' n) (at_ms t) lvl)"
      by (simp add: ctx_ok_def line_ctx_def at_ms_def start_runtime_def sample_env2_def tm_ok_def)
    have "length (int_str (sint (of_nat n :: u32))) \<le> 12" by (rule length_int_str)
    moreover have "length (level_name lvl) \<le> 5" by (cases lvl) simp_all
    ultimately show "length (''2024-01-09 08:07:06.001500 '' @ level_name lvl @ '' [5] io.cpp:'' @ int_str (sint (of_nat n :: u32)) @ '' | '') \<le> 3000"
      by simp
  qed
  show "thread_ok (rt_env start_runtime) (ap_thread start_app)"
    by (simp add: thread_ok_def start_app_def start_runtime_def sample_thread_def rok_def rbuf_ok_def kScratchSize_def cache_ok_def
        fresh_cache_def)
qed (auto simp: start_app_def start_disk_def start_runtime_def disk0_def fd_inv_def fd_ok_def at_end_def benign_def os_ok_def calm_def
    make_stderr_sink_def fd_contents_def split: if_splits)

section \<open>Properties\<close>

text \<open>
  The program \<open>examples/basic.cpp\<close>, started with a usable standard error: it returns, and the terminal
  shows exactly five more lines, coloured by level, each with its own header and the arguments in place.
\<close>

theorem basic_example:
  assumes "ap_proc s = initial os" "fd_inv (make_stderr_sink True) os" "thread_ok (rt_env rt) (ap_thread s)" "0 < rt_fuel rt"
    "\<forall>n. header_fits rt file (ck n)" "length (fmt_fixed (rt_env rt) 2 pi_bits) \<le> 900"
  shows "\<exists>s'. basic_main rt file ck s = Some s' \<and> terminal s' = fd_contents 2 os @
    concat (map (\<lambda>(n, lvl, msg). message_line rt file n lvl (ck n) msg)
      [(9, INFO, ''user alice logged in from 10.0.0.1''), (10, DEBUG, ''token = '' @ [CHR 0x22] @ ''abc123'' @ [CHR 0x22]),
       (11, WARN, ''retry 3/5 after 250ms''), (14, INFO, ''x = 51966 (hex=cafe, bin=1100101011111110)''),
       (15, INFO, ''pi = '' @ fmt_fixed (rt_env rt) 2 pi_bits)])"
proof -
  let ?env = "rt_env rt"
  let ?v1 = "[VString ''alice'', VLiteral (''10.0.0.1'' @ [CHR 0x00])]" and ?v2 = "[VQuoted (string_ref_of (Some ''abc123''))]"
    and ?v3 = "[VInt 3, VInt 5, VInt 250]" and ?v5 = "[VFixed pi_bits 2]"
    and ?v4 = "[VInt 0xCAFE, VHex (scast (0xCAFE :: u32)), VBin (scast (0xCAFE :: u32))]"
  have ok: "\<forall>v \<in> set vs. readable ?env v" "length (concat (map (shown ?env) vs)) \<le> 1000"
    if "vs \<in> {?v1, ?v2, ?v3, ?v4, ?v5}" for vs
    using that assms(6) length_int_str [of 3] length_int_str [of 5] length_int_str [of 250] by (auto simp: string_ref_of_def cafe_digits int_str_def INT_MAX_def)
  have warn: "DEBUG \<le> WARN" by code_simp
  have head: "header_fits rt file (ck n)" for n using assms(5) by blast
  obtain p s0 where s0: "the_default s = (0, s\<lparr>ap_proc := p\<rparr>)" "in_world (set_level 0 DEBUG) (s\<lparr>ap_proc := p\<rparr>) = Some s0"
    "printing rt s0" "terminal s0 = fd_contents 2 os"
    using start_printing [OF assms(1-3)] by blast
  obtain s1 where s1: "LOG_F INFO rt (at_line file 9) (ck 9) ''user {} logged in from {}'' (these ?v1) s0 = Some s1" "printing rt s1"
    "terminal s1 = terminal s0 @ message_line rt file 9 INFO (ck 9) ''user alice logged in from 10.0.0.1''"
    using LOG_F_prints [OF s0(3) _ basic_formats(1) assms(4) head ok(1) _ _ ok(2), of INFO ?v1 9] basic_messages(1)
    by (auto simp: peek_def less_eq_Level_def)
  obtain s2 where s2: "LOG_F DEBUG rt (at_line file 10) (ck 10) ''token = {}'' (these ?v2) s1 = Some s2" "printing rt s2"
    "terminal s2 = terminal s1 @ message_line rt file 10 DEBUG (ck 10) (''token = '' @ [CHR 0x22] @ ''abc123'' @ [CHR 0x22])"
    using LOG_F_prints [OF s1(2) _ basic_formats(2) assms(4) head ok(1) _ _ ok(2), of DEBUG ?v2 10] basic_messages(2)
    by (auto simp: peek_def)
  obtain s3 where s3: "LOG_F WARN rt (at_line file 11) (ck 11) ''retry {}/{} after {}ms'' (these ?v3) s2 = Some s3" "printing rt s3"
    "terminal s3 = terminal s2 @ message_line rt file 11 WARN (ck 11) ''retry 3/5 after 250ms''"
    using LOG_F_prints [OF s2(2) warn basic_formats(3) assms(4) head ok(1) _ _ ok(2), of ?v3 11]
    by (auto simp: peek_def less_eq_Level_def retry_digits numeral_2_eq_2)
  obtain s4 where s4: "LOG_F INFO rt (at_line file 14) (ck 14) ''x = {} (hex={}, bin={})'' (these ?v4) s3 = Some s4" "printing rt s4"
    "terminal s4 = terminal s3 @ message_line rt file 14 INFO (ck 14) ''x = 51966 (hex=cafe, bin=1100101011111110)''"
    using LOG_F_prints [OF s3(2) _ basic_formats(4) assms(4) head ok(1) _ _ ok(2), of INFO ?v4 14]
    by (auto simp: peek_def less_eq_Level_def cafe_digits int_str_def)
  obtain s5 where s5: "LOG_F INFO rt (at_line file 15) (ck 15) ''pi = {}'' (these ?v5) s4 = Some s5"
    "terminal s5 = terminal s4 @ message_line rt file 15 INFO (ck 15) (''pi = '' @ fmt_fixed ?env 2 pi_bits)"
    using LOG_F_prints [OF s4(2) _ basic_formats(5) assms(4) head ok(1) _ _ ok(2), of INFO ?v5 15] basic_messages(4)
    by (auto simp: peek_def less_eq_Level_def)
  show ?thesis
    using s0 s1 s2 s3 s4 s5 by (simp add: basic_main_def Let_def)
qed

theorem basic_example_witness:
  "\<exists>s'. basic_main start_runtime ''io.cpp'' (\<lambda>_. at_ms 0) start_app = Some s' \<and>
     drop 3 (terminal s') = concat (map (\<lambda>(n, lvl, msg). message_line start_runtime ''io.cpp'' n lvl (at_ms 0) msg)
       [(9, INFO, ''user alice logged in from 10.0.0.1''), (10, DEBUG, ''token = '' @ [CHR 0x22] @ ''abc123'' @ [CHR 0x22]),
        (11, WARN, ''retry 3/5 after 250ms''), (14, INFO, ''x = 51966 (hex=cafe, bin=1100101011111110)''),
        (15, INFO, ''pi = 3.14'')])"
  using basic_example [OF start_facts(1,2,5,7), of "''io.cpp''" "\<lambda>_. at_ms 0"] start_facts(8,9)
  by (auto simp: start_runtime_def)

text \<open>
  C17: The program \<open>examples/aggregation.cpp\<close>, started with a usable standard error and any clock readings that
  reach the end of its timed loop, of a steady clock that has not run for 146 years: it returns, and the terminal shows every 100th of the 1000 lines of
  the first loop, the first 3 of the second, one of the third, the lines of the timed loop that are
  50 ms after the last one shown, one line for the 100 repetitions, and the summary of the other 99.
\<close>

theorem aggregation_example:
  assumes "ap_proc s = initial os" "fd_inv (make_stderr_sink True) os" "thread_ok (rt_env rt) (ap_thread s)" "0 < rt_fuel rt"
    "\<forall>n. ap_counts s n = 0 \<and> ap_next_ns s n = 0" "ap_dedups s = no_dedups"
    "\<forall>n i. header_fits rt file (ck n i)" "\<forall>r \<in> set rs. header_fits rt file (snd r) \<and> steady_ok (snd r)"
    "\<exists>r \<in> set rs. 250000000 \<le> fst r - t0" "length file \<le> 900"
  shows "\<exists>s'. aggregation_main rt file ck t0 rs s = Some s' \<and> terminal s' = fd_contents 2 os @
    concat (map (\<lambda>j. message_line rt file 11 INFO (ck 11 (100 * j)) (''every-100th: i = '' @ radix_str 10 (100 * j))) [0 ..< 10]) @
    concat (map (\<lambda>i. message_line rt file 15 INFO (ck 15 i) (''first 3 only: i = '' @ radix_str 10 i)) [0 ..< 3]) @
    message_line rt file 19 INFO (ck 19 0) ''this prints once even in a loop (0)'' @
    concat (map (\<lambda>c. message_line rt file 24 INFO c ''throttled to 50ms cadence'')
      (throttled 50000000 0 (map snd (takeWhile (\<lambda>r. fst r - t0 < 250000000) rs)))) @
    message_line rt file 29 INFO (ck 29 0) ''repeated message'' @
    message_line rt file 29 INFO (ck 32 0) (''[suppressed 99 occurrences of '' @ file @ '':29]'')"
proof -
  have info: "DEBUG \<le> INFO" by (simp add: less_eq_Level_def)
  have head: "\<forall>i. header_fits rt file (ck n i)" for n using assms(7) by blast
  obtain p s0 where s0: "the_default s = (0, s\<lparr>ap_proc := p\<rparr>)" "in_world (set_level 0 DEBUG) (s\<lparr>ap_proc := p\<rparr>) = Some s0"
    "printing rt s0" "terminal s0 = fd_contents 2 os" "\<And>n. ap_counts s0 n = 0" "\<And>n. ap_next_ns s0 n = 0" "ap_dedups s0 = no_dedups"
    using start_printing [OF assms(1-3)] assms(5,6) by auto
  obtain s1 where s1: "repeat (\<lambda>i. LOG_EVERY_N INFO 100 rt (at_line file 11) (ck 11 i) ''every-100th: i = {}'' (these [VInt (of_nat i)])) 1000 s0 = Some s1"
    "printing rt s1" "same_sites {11} s0 s1" "terminal s1 = terminal s0 @
      concat (map (\<lambda>j. message_line rt file 11 INFO (ck 11 (100 * j)) (''every-100th: i = '' @ radix_str 10 (100 * j))) [0 ..< 10])"
    using every_n_loop [OF s0(3,5) assms(4) head] by blast
  have "ap_counts s1 15 = 0" using s0(5) s1(3) by (simp add: same_sites_def)
  from first_n_loop [OF s1(2) this assms(4) head] obtain s2 where
    s2: "repeat (\<lambda>i. LOG_FIRST_N INFO 3 rt (at_line file 15) (ck 15 i) ''first 3 only: i = {}'' (these [VInt (of_nat i)])) 100 s1 = Some s2"
      "printing rt s2" "same_sites {15} s1 s2" "terminal s2 = terminal s1 @
        concat (map (\<lambda>i. message_line rt file 15 INFO (ck 15 i) (''first 3 only: i = '' @ radix_str 10 i)) [0 ..< 3])" by blast
  have "ap_counts s2 19 = 0" using s0(5) s1(3) s2(3) by (simp add: same_sites_def)
  from once_loop [OF s2(2) this assms(4) head] obtain s3 where
    s3: "repeat (\<lambda>i. LOG_ONCE INFO rt (at_line file 19) (ck 19 i) ''this prints once even in a loop ({})'' (these [VInt (of_nat i)])) 10 s2 = Some s3"
      "printing rt s3" "same_sites {19} s2 s3"
      "terminal s3 = terminal s2 @ message_line rt file 19 INFO (ck 19 0) ''this prints once even in a loop (0)''" by blast
  have s03: "ap_next_ns s3 24 = 0" "ap_dedups s3 = no_dedups" using s0(6,7) s1(3) s2(3) s3(3) by (simp_all add: same_sites_def)
  obtain s4 where s4: "throttle_loop (\<lambda>c. LOG_EVERY_N_MS INFO 50 rt (at_line file 24) c ''throttled to 50ms cadence'' (these [])) t0 rs s3 = Some s4"
    "printing rt s4" "same_sites {24} s3 s4"
    "terminal s4 = terminal s3 @ concat (map (\<lambda>c. terminal_line rt file 24 INFO ''throttled to 50ms cadence'' (c, []))
      (throttled 50000000 0 (map snd (takeWhile (\<lambda>r. fst r - t0 < 250000000) rs))))"
    using throttle_prints [OF s3(2) assms(9,8,4) aggregation_formats(4,9), of 24] s03(1) by auto
  have "ap_dedups s4 = no_dedups" using s03(2) s4(3) by (simp add: same_sites_def)
  from dedup_loop [OF s4(2) this info aggregation_formats(5,10) assms(4), of "file" "ck 29" 100 29] head obtain s5 where
    s5: "repeat (\<lambda>i. LOG_DEDUP INFO rt (at_line file 29) (ck 29 i) ''repeated message'' (these [])) 100 s4 = Some s5" "printing rt s5"
      "ap_dedups s5 = repeated 29 \<lparr>dc_logger = 0, dc_level = INFO, dc_file = file, dc_line = of_nat 29\<rparr> 99"
      "terminal s5 = terminal s4 @ terminal_line rt file 29 INFO ''repeated message'' (ck 29 0, [])" by auto
  obtain s6 where s6: "in_world (flush (rt_fuel rt) 0) s5 = Some s6" "printing rt s6" "terminal s6 = terminal s5" "ap_dedups s6 = ap_dedups s5"
    using flush_prints [OF s5(2) assms(4)] by (auto simp: same_sites_def)
  obtain s7 where s7: "flush_dedup_call rt (ck_line (ck 32 0)) s6 = Some s7" "terminal s7 = terminal s6 @
      message_line rt file 29 INFO (ck 32 0) (''[suppressed 99 occurrences of '' @ file @ '':29]'')"
    using summary_prints [OF s6(2) s6(4) [unfolded s5(3)] _ _ info _ assms(10,4), of "ck 32 0"] head by (auto simp: summary_digits)
  have "aggregation_main rt file ck t0 rs s = Some s7"
    using s0(1,2) s1(1) s2(1) s3(1) s4(1) s5(1) s6(1) s7(1) by (simp add: aggregation_main_def)
  then show ?thesis
    using s0(4) s1(4) s2(4) s3(4) s4(4) s5(4) s6(3) s7(2) by (simp add: terminal_line_message aggregation_messages)
qed

theorem aggregation_example_witness:
  "\<exists>s'. aggregation_main start_runtime ''io.cpp'' (\<lambda>_ _. at_ms 0) 0 [(0, at_ms 1), (6000000, at_ms 7), (100000000, at_ms 101), (300000000, at_ms 301)]
      start_app = Some s' \<and> drop 3 (terminal s') =
    concat (map (\<lambda>j. message_line start_runtime ''io.cpp'' 11 INFO (at_ms 0) (''every-100th: i = '' @ radix_str 10 (100 * j))) [0 ..< 10]) @
    concat (map (\<lambda>i. message_line start_runtime ''io.cpp'' 15 INFO (at_ms 0) (''first 3 only: i = '' @ radix_str 10 i)) [0 ..< 3]) @
    message_line start_runtime ''io.cpp'' 19 INFO (at_ms 0) ''this prints once even in a loop (0)'' @
    message_line start_runtime ''io.cpp'' 24 INFO (at_ms 1) ''throttled to 50ms cadence'' @
    message_line start_runtime ''io.cpp'' 24 INFO (at_ms 101) ''throttled to 50ms cadence'' @
    message_line start_runtime ''io.cpp'' 29 INFO (at_ms 0) ''repeated message'' @
    message_line start_runtime ''io.cpp'' 29 INFO (at_ms 0) ''[suppressed 99 occurrences of io.cpp:29]''"
proof -
  let ?rs = "[(0 :: int, at_ms 1), (6000000, at_ms 7), (100000000, at_ms 101), (300000000, at_ms 301)]"
  have "throttled 50000000 0 (map snd (takeWhile (\<lambda>r. fst r - 0 < 250000000) ?rs)) = [at_ms 1, at_ms 101]"
    by (simp add: at_ms_def)
  moreover have "\<forall>r \<in> set ?rs. steady_ok (snd r)" by (simp add: at_ms_def steady_ok_def)
  moreover have "\<forall>n. ap_counts start_app n = 0 \<and> ap_next_ns start_app n = 0" "ap_dedups start_app = no_dedups"
    by (simp_all add: start_app_def)
  ultimately show ?thesis
    using aggregation_example [OF start_facts(1,2,5,7), of "''io.cpp''" "\<lambda>_ _. at_ms 0" ?rs 0] start_facts(8,9) by auto
qed

end
