(* ===== verification/Elog_Multi_Logger.thy ===== *)
theory Elog_Multi_Logger
  imports Elog_Programs
begin

text \<open>
  The example program \<open>examples/multi_logger.cpp\<close>: two registered loggers, one tied to the other, one on
  the terminal and one with a rotating file sink. The two sinks work on one system state; that they do
  not disturb one another is \<open>two_files\<close>.
\<close>

section \<open>The program\<close>

definition logger_named :: "string \<Rightarrow> 'u app \<Rightarrow> nat \<times> 'u app" where
  "logger_named name s = (let (a, p) = get_logger name (ap_proc s) in (a, s\<lparr>ap_proc := p\<rparr>))"

definition audit_path :: string where
  "audit_path = ''/tmp/elog_audit.log''"

definition add_audit_sink :: "nat \<Rightarrow> world \<Rightarrow> world option" where
  "add_audit_sink a w =
     (let (k, s) = make_rotating_file_sink (Some audit_path) (64 * 1024) 4 (sys w)
      in add_sink a (map_option Rotating k) (w\<lparr>sys := s\<rparr>))"

definition multi_logger_main :: "runtime \<Rightarrow> string \<Rightarrow> (nat \<Rightarrow> clocks) \<Rightarrow> 'u app \<Rightarrow> 'u app option" where
  "multi_logger_main rt file ck s =
     (let (app, s) = logger_named ''app'' s in
      do {
        s \<leftarrow> in_world (add_sink app (Some (Fd (make_stderr_sink True)))) s;
        s \<leftarrow> in_world (set_level app INFO) s;
        let (audit, s) = logger_named ''audit'' s;
        s \<leftarrow> in_world (add_audit_sink audit) s;
        s \<leftarrow> in_world (set_level audit INFO) s;
        s \<leftarrow> in_world (tie app audit) s;
        s \<leftarrow> LOGGER_F (Pair app) INFO rt (at_line file 16) (ck 16) ''request {} processed'' (these [VInt 42]) s;
        s \<leftarrow> LOGGER_F (Pair audit) INFO rt (at_line file 17) (ck 17) ''user {} performed action'' (these [VLiteral (''alice'' @ [CHR 0x00])]) s;
        s \<leftarrow> in_world (flush (rt_fuel rt) app) s;
        in_world (flush (rt_fuel rt) audit) s
      })"

section \<open>Two sinks on one system\<close>

text \<open>
  Standard error and the rotating sink \<open>k\<close> of the audit logger write to different files; \<open>T\<close> is on the
  terminal and \<open>A\<close> in the log.
\<close>

definition two_files :: "rotating \<Rightarrow> byte list \<Rightarrow> byte list \<Rightarrow> os \<Rightarrow> bool" where
  "two_files k T A os \<longleftrightarrow> fd_inv (make_stderr_sink True) os \<and> rot_inv (k, os) \<and> rt_path k = audit_path \<and>
     rt_max_bytes k = 65536 \<and> rt_fd k \<noteq> 2 \<and>
     (\<exists>d e. fds os 2 = Some d \<and> fds os (rt_fd k) = Some e \<and> inode d \<noteq> inode e) \<and>
     fd_contents 2 os = T \<and> fd_contents (rt_fd k) os = A"

lemma two_files_log: "two_files k T A os \<Longrightarrow> file_at os audit_path = Some A"
  by (auto simp: two_files_def rot_inv_def file_at_def fd_contents_def)

lemma appended_elsewhere:
  assumes "appended fd bs s s'" "fds s fd = Some d" "fds s fd' = Some e" "fd' \<noteq> fd" "inode e \<noteq> inode d"
  shows "fds s' fd' = Some e \<and> at_end s' e = at_end s e \<and> nodes s' (inode e) = nodes s (inode e)"
  using assms by (auto simp: appended_def at_end_def)

lemma two_files_terminal:
  assumes "two_files k T A os" "length iov + 2 \<le> IOV_MAX"
  shows "two_files k (T @ fd_payload (make_stderr_sink True) lvl iov) A (fd_write (make_stderr_sink True) lvl iov os)"
proof -
  let ?k = "make_stderr_sink True" and ?os = "fd_write (make_stderr_sink True) lvl iov os"
  have i: "fd_inv ?k os" "rot_inv (k, os)" "rt_fd k \<noteq> 2" using assms(1) by (simp_all add: two_files_def)
  obtain d e where d: "fds os 2 = Some d" "fds os (rt_fd k) = Some e" "inode d \<noteq> inode e"
    using assms(1) by (auto simp: two_files_def)
  have a: "appended 2 (fd_payload ?k lvl iov) os ?os" "benign ?os"
    using fd_write_appends [of ?k os iov lvl] i(1) assms(2) by (auto simp: fd_inv_def make_stderr_sink_def)
  note other = appended_elsewhere [OF a(1) d(1,2) i(3) d(3) [symmetric]]
  obtain d' where d': "fds ?os 2 = Some d'" "inode d' = inode d" using a(1) d(1) by (auto simp: appended_def)
  have "calm ?os" using a i(2) by (simp add: appended_def calm_def rot_inv_def)
  moreover have "os_ok ?os" using appended_os_ok [OF a(1)] i(2) by (simp add: rot_inv_def)
  moreover have "names ?os = names os" by (rule appended_names [OF a(1)])
  ultimately have "rot_inv (k, ?os)" using i(2) d(2) other by (auto simp: rot_inv_def)
  moreover have "fd_inv ?k ?os" using fd_sink.inv_write [OF i(1)] assms(2) by (simp add: fd_fits_def)
  moreover have "fd_contents (rt_fd k) ?os = fd_contents (rt_fd k) os" using other d(2) by (simp add: fd_contents_def)
  ultimately show ?thesis
    using assms(1) d other d' appended_contents [OF a(1)] by (auto simp: two_files_def)
qed

lemma two_files_audit:
  assumes "two_files k T A os" "length iov \<le> IOV_MAX" "length A + length (concat iov) < 65536"
  shows "\<exists>k' os'. rot_write lvl iov (k, os) = (k', os') \<and> two_files k' T (A @ concat iov) os'"
proof (cases "iov = []")
  case True
  then show ?thesis using assms(1) by (simp add: rot_write_def)
next
  case False
  let ?os = "writev_all (rt_fd k) iov os" and ?k = "k\<lparr>rt_bytes := rt_bytes k + length (concat iov)\<rparr>"
  have i: "rot_inv (k, os)" "rt_fd k \<noteq> 2" "fd_inv (make_stderr_sink True) os" "rt_path k = audit_path" "rt_max_bytes k = 65536"
    using assms(1) by (simp_all add: two_files_def)
  obtain d e where d: "fds os 2 = Some d" "fds os (rt_fd k) = Some e" "inode d \<noteq> inode e"
    using assms(1) by (auto simp: two_files_def)
  have bytes: "rt_bytes k = length A" and fd: "0 \<le> rt_fd k" and e: "at_end os e" and calm: "calm os"
    using assms(1) i(1) d(2) by (auto simp: two_files_def rot_inv_def fd_contents_def os_ok_def)
  have "fd_ok (rt_fd k) os" "benign os" using d(2) e calm by (auto simp: fd_ok_def calm_def)
  then have a: "appended (rt_fd k) (concat iov) os ?os" "benign ?os"
    using writev_all_whole [OF _ assms(2)] by auto
  note other = appended_elsewhere [OF a(1) d(2,1) i(2) [symmetric] d(3)]
  have r: "rot_inv (?k, ?os)" using rot_append_ok [OF i(1) assms(2)] by blast
  have "foldl (\<lambda>total x. total + length x) n iov = n + length (concat iov)" for n
    by (induction iov arbitrary: n) auto
  then have "rot_write lvl iov (k, os) = (?k, ?os)"
    using False i(4,5) bytes fd assms(3) by (simp add: rot_write_def rot_writev_all_eq Let_def audit_path_def)
  moreover have "fd_inv (make_stderr_sink True) ?os"
    using i(3) other d(1) a(2) by (auto simp: fd_inv_def fd_ok_def make_stderr_sink_def)
  moreover obtain e' where "fds ?os (rt_fd k) = Some e'" "inode e' = inode e" using a(1) d(2) by (auto simp: appended_def)
  ultimately show ?thesis
    using assms(1) r d other appended_contents [OF a(1)] by (auto simp: two_files_def fd_contents_def)
qed

lemma two_files_sync:
  assumes "two_files k T A os"
  shows "two_files k T A (sys_fsync fd os)"
proof -
  have "fds (sys_fsync fd os) = fds os" "nodes (sys_fsync fd os) = nodes os" "names (sys_fsync fd os) = names os"
    "calm (sys_fsync fd os) = calm os"
    by (simp_all add: sys_fsync_def calm_def benign_def split: option.split)
  then show ?thesis
    using assms os_ok_fsync [of os fd] benign_fsync [of fd os] fd_ok_fsync [of 2 fd os]
    by (auto simp: two_files_def rot_inv_def fd_inv_def fd_contents_def at_end_def make_stderr_sink_def)
qed

text \<open>Opening the log where there is none.\<close>

lemma two_files_open:
  assumes "fd_inv (make_stderr_sink True) os" "os_ok os" "calm os" "names os audit_path = None"
  shows "\<exists>k os'. make_rotating_file_sink (Some audit_path) (64 * 1024) 4 os = (Some k, os') \<and>
    two_files k (fd_contents 2 os) [] os'"
proof -
  let ?f = "\<lparr>f_append = True, f_trunc = False\<rparr>"
  define os' where "os' = snd (sys_open audit_path ?f os)"
  let ?k = "\<lparr>rt_path = audit_path, rt_max_bytes = 65536, rt_max_files = 4, rt_fd = int (next_fd os), rt_bytes = 0\<rparr>"
  have o: "sys_open audit_path ?f os = (int (next_fd os), os')" "calm os'" "names os' = (names os)(audit_path \<mapsto> next_node os)"
    "nodes os' = (nodes os)(next_node os := \<lparr>contents = [], regular = True\<rparr>)"
    "fds os' (int (next_fd os)) = Some \<lparr>inode = next_node os, offset = 0, o_append = True\<rparr>"
    using open_calm_fresh [OF assms(3,4), of ?f] by (cases "sys_open audit_path ?f os", simp_all add: os'_def)
  have ok: "os_ok os'" unfolding os'_def by (rule os_ok_open [OF assms(2)])
  obtain d where d: "fds os 2 = Some d" "at_end os d" using assms(1) by (auto simp: fd_inv_def fd_ok_def make_stderr_sink_def)
  have two: "2 < int (next_fd os)" "inode d < next_node os" using assms(2) d(1) unfolding os_ok_def by blast+
  have d': "fds os' 2 = Some d" "nodes os' (inode d) = nodes os (inode d)"
    using two d(1) o(4) assms(3,4) by (auto simp: os'_def sys_open_def calm_def next_fails_def Let_def)
  have fresh: "names os q \<noteq> Some (next_node os)" for q using assms(2) by (auto simp: os_ok_def)
  have slots: "slot_path ?k i \<noteq> audit_path" if "0 < i" for i
    using slot_path_inject [of ?k i 0] that by (simp add: slot_path_def)
  have "rot_inv (?k, os')"
    using ok o(2-5) fresh slots by (auto simp: rot_inv_def at_end_def audit_path_def)
  moreover have "fd_inv (make_stderr_sink True) os'"
    using o(2) d d' by (auto simp: fd_inv_def fd_ok_def at_end_def calm_def make_stderr_sink_def)
  moreover have "make_rotating_file_sink (Some audit_path) (64 * 1024) 4 os = (Some ?k, os')"
    using o by (simp add: make_rotating_file_sink_def rot_new_def file_size_or_zero_def sys_stat_def audit_path_def [symmetric])
      (simp add: audit_path_def)
  ultimately show ?thesis
    using two d d' o(4,5) by (auto simp: two_files_def fd_contents_def)
qed

section \<open>The property of \<open>multi_logger.cpp\<close>\<close>

text \<open>The world of the program once its loggers are set up: \<open>app\<close> is at 0 and tied to \<open>audit\<close> at 1.\<close>

definition app_logger :: logger where
  "app_logger = (new_logger ''app'')\<lparr>lg_sinks := [Fd (make_stderr_sink True)], lg_ties := [1], lg_tie_count := 1\<rparr>"

definition audit_logger :: "rotating \<Rightarrow> logger" where
  "audit_logger k = (new_logger ''audit'')\<lparr>lg_sinks := [Rotating k]\<rparr>"

definition two_loggers :: "runtime \<Rightarrow> rotating \<Rightarrow> byte list \<Rightarrow> byte list \<Rightarrow> 'u app \<Rightarrow> bool" where
  "two_loggers rt k T A s \<longleftrightarrow> heap (wld (ap_proc s)) = [0 \<mapsto> app_logger, 1 \<mapsto> audit_logger k] \<and> visited (wld (ap_proc s)) = {} \<and>
     two_files k T A (sys (wld (ap_proc s))) \<and> thread_ok (rt_env rt) (ap_thread s)"

lemma audit_emits:
  assumes "heap w 1 = Some (audit_logger k)" "two_files k T A (sys w)" "length iov \<le> IOV_MAX"
    "length A + length (concat iov) < 65536" "0 < fuel"
  shows "\<exists>k' s'. emit fuel lvl iov 1 w = Some (w\<lparr>heap := (heap w)(1 \<mapsto> audit_logger k'), sys := s'\<rparr>) \<and>
    two_files k' T (A @ concat iov) s'"
proof -
  obtain f where f: "fuel = Suc f" using assms(5) by (cases fuel) simp_all
  obtain k' s' where "rot_write lvl iov (k, sys w) = (k', s')" "two_files k' T (A @ concat iov) s'"
    using two_files_audit [OF assms(2-4)] by blast
  then show ?thesis
    using assms(1) by (intro exI [of _ k'] exI [of _ s']) (simp add: f write_own_def audit_logger_def new_logger_def)
qed

lemma app_emits:
  assumes "heap w = [0 \<mapsto> app_logger, 1 \<mapsto> audit_logger k]" "visited w = {}" "two_files k T A (sys w)" "length iov + 2 \<le> IOV_MAX"
    "length A + length (concat iov) < 65536" "1 < fuel"
  shows "\<exists>k' s'. emit fuel lvl iov 0 w = Some (w\<lparr>heap := [0 \<mapsto> app_logger, 1 \<mapsto> audit_logger k'], sys := s'\<rparr>) \<and>
    two_files k' (T @ fd_payload (make_stderr_sink True) lvl iov) (A @ concat iov) s'"
proof -
  let ?k = "make_stderr_sink True"
  obtain f where f: "fuel = Suc f" "0 < f" using assms(6) by (cases fuel) simp_all
  let ?w = "w\<lparr>heap := (heap w)(0 \<mapsto> app_logger), sys := fd_write ?k lvl iov (sys w), visited := {0}\<rparr>"
  have two: "two_files k (T @ fd_payload ?k lvl iov) A (sys ?w)" using two_files_terminal [OF assms(3,4)] by simp
  have "heap ?w 1 = Some (audit_logger k)" "length iov \<le> IOV_MAX" using assms(1,4) by simp_all
  from audit_emits [OF this(1) two this(2) assms(5) f(2), of lvl] obtain k' s' where
    e: "emit f lvl iov 1 ?w = Some (?w\<lparr>heap := (heap ?w)(1 \<mapsto> audit_logger k'), sys := s'\<rparr>)"
      "two_files k' (T @ fd_payload ?k lvl iov) (A @ concat iov) s'" by blast
  have "write_own lvl iov 0 (w\<lparr>visited := {0}\<rparr>) = Some ?w"
    using assms(1) by (simp add: write_own_def app_logger_def new_logger_def)
  moreover have "app_logger\<lparr>lg_sinks := lg_sinks app_logger\<rparr> = app_logger" by simp
  ultimately have "emit fuel lvl iov 0 w = Some (w\<lparr>heap := [0 \<mapsto> app_logger, 1 \<mapsto> audit_logger k'], sys := s'\<rparr>)"
    using assms(1,2) e(1) by (simp add: f(1) app_logger_def new_logger_def fun_upd_twist)
  with e(2) show ?thesis by blast
qed

text \<open>A line in the log: header, message, newline.\<close>

definition log_text :: "runtime \<Rightarrow> string \<Rightarrow> nat \<Rightarrow> Level \<Rightarrow> clocks \<Rightarrow> string \<Rightarrow> byte list" where
  "log_text rt file n lvl ck msg = prologue_text (rt_env rt) (line_ctx rt (at_line file n) ck lvl) @ msg @ [CHR 0x0A]"

lemma two_loggers_emit:
  assumes "two_loggers rt k T A s" "a = 0 \<or> a = 1" "header_fits rt file ck" "\<forall>v \<in> set vs. readable (rt_env rt) v"
    "holes (scan fmt) \<le> length vs" "length vs \<le> 65535" "length (concat (map (shown (rt_env rt)) vs)) \<le> 1000" "format_fits fmt"
    "fill (scan fmt) (\<lambda>k. shown (rt_env rt) (vs ! k)) 0 = msg" "length A + length msg \<le> 60000" "1 < rt_fuel rt"
  shows "\<exists>k' s'. LOGGER_F (Pair a) INFO rt (at_line file n) ck fmt (these vs) s = Some s' \<and>
    two_loggers rt k' (if a = 0 then T @ message_line rt file n INFO ck msg else T) (A @ log_text rt file n INFO ck msg) s'"
proof -
  let ?w = "wld (ap_proc s)"
  have h: "heap ?w = [0 \<mapsto> app_logger, 1 \<mapsto> audit_logger k]" "visited ?w = {}" "two_files k T A (sys ?w)"
    and th: "thread_ok (rt_env rt) (ap_thread s)" using assms(1) by (simp_all add: two_loggers_def)
  obtain l where l: "heap ?w a = Some l" "lg_prologue l = Default_Prologue" "lg_level l = INFO"
    using assms(2) h(1) by (auto simp: app_logger_def audit_logger_def new_logger_def)
  from emit_f_assembles [OF th l(1,2) call_fitsI [OF assms(3-7)] assms(8)] obtain spec iov th' where
    e: "make_spec (count_pieces fmt) (count_lit_chars fmt) fmt = Some spec" "thread_ok (rt_env rt) th'" "iov \<noteq> []"
      "length iov + 2 \<le> IOV_MAX" "concat iov = line_body rt (at_line file n) INFO fmt (ck, vs) @ [CHR 0x0A]" "last iov = [CHR 0x0A]"
      "emit_f rt a (line_ctx rt (at_line file n) ck INFO) (count_pieces fmt) spec (map Value vs) ?w (ap_thread s) =
        map_option (\<lambda>w. (w, th')) (emit (rt_fuel rt) INFO iov a ?w)" by blast
  have t: "concat iov = log_text rt file n INFO ck msg"
    "fd_payload (make_stderr_sink True) INFO iov = message_line rt file n INFO ck msg"
    using e(5) payload_laid_out [OF e(3,5,6)] assms(9) by (simp_all add: line_body_def log_text_def message_line_def)
  have room: "length A + length (concat iov) < 65536"
  proof -
    have "length (prologue_text (rt_env rt) (line_ctx rt (at_line file n) ck INFO)) \<le> 3000" using assms(3) by (simp add: header_fits_def)
    then show ?thesis using assms(10) by (simp add: t(1) log_text_def)
  qed
  have "\<exists>k' os'. emit (rt_fuel rt) INFO iov a ?w = Some (?w\<lparr>heap := [0 \<mapsto> app_logger, 1 \<mapsto> audit_logger k'], sys := os'\<rparr>) \<and>
      two_files k' (if a = 0 then T @ message_line rt file n INFO ck msg else T) (A @ log_text rt file n INFO ck msg) os'"
  proof (cases "a = 0")
    case True
    then show ?thesis using app_emits [OF h e(4) room assms(11), of INFO] by (simp add: t)
  next
    case False
    have "heap ?w 1 = Some (audit_logger k)" "length iov \<le> IOV_MAX" "0 < rt_fuel rt" using h(1) e(4) assms(11) by simp_all
    from audit_emits [OF this(1) h(3) this(2) room this(3), of INFO] show ?thesis using False assms(2) h(1) by (simp add: t)
  qed
  then obtain k' os' where
    "emit (rt_fuel rt) INFO iov a ?w = Some (?w\<lparr>heap := [0 \<mapsto> app_logger, 1 \<mapsto> audit_logger k'], sys := os'\<rparr>)"
    "two_files k' (if a = 0 then T @ message_line rt file n INFO ck msg else T) (A @ log_text rt file n INFO ck msg) os'" by blast
  moreover have "enabled l INFO" using l(3) by (simp add: enabled_def)
  ultimately show ?thesis
    using l(1) e(1,2,7) h(2) by (intro exI [of _ k']) (simp add: LOGGER_F_def elog_internal_f_def log_call_def two_loggers_def)
qed

lemma two_loggers_flush:
  assumes "two_loggers rt k T A s" "1 < fuel"
  shows "\<exists>s'. in_world (flush fuel 0) s = Some s' \<and> two_loggers rt k T A s'"
    and "\<exists>s'. in_world (flush fuel 1) s = Some s' \<and> two_loggers rt k T A s' \<and>
      sys (wld (ap_proc s')) = sys_fsync (rt_fd k) (sys (wld (ap_proc s)))"
proof -
  let ?w = "wld (ap_proc s)"
  have h: "heap ?w = [0 \<mapsto> app_logger, 1 \<mapsto> audit_logger k]" "visited ?w = {}" "two_files k T A (sys ?w)"
    using assms(1) by (simp_all add: two_loggers_def)
  obtain g where g: "fuel = Suc g" "0 < g" using assms(2) by (cases fuel) simp_all
  obtain f where f: "fuel = Suc (Suc f)" using g by (cases g) simp_all
  have fd: "0 \<le> rt_fd k" using h(3) by (auto simp: two_files_def rot_inv_def os_ok_def)
  have "flush fuel 1 ?w = Some (?w\<lparr>sys := sys_fsync (rt_fd k) (sys ?w)\<rparr>)"
    using h fd by (simp add: f flush_own_def audit_logger_def new_logger_def rot_flush_def fun_upd_idem fun_upd_twist)
  then show "\<exists>s'. in_world (flush fuel 1) s = Some s' \<and> two_loggers rt k T A s' \<and>
      sys (wld (ap_proc s')) = sys_fsync (rt_fd k) (sys (wld (ap_proc s)))"
    using assms(1) two_files_sync [OF h(3)] by (simp add: in_world_def two_loggers_def)
  have "flush fuel 0 ?w = Some (?w\<lparr>sys := sys_fsync (rt_fd k) (sys_fsync 2 (sys ?w))\<rparr>)"
    using h fd by (simp add: f flush_own_def app_logger_def audit_logger_def new_logger_def rot_flush_def fd_flush_def
        make_stderr_sink_def fun_upd_idem fun_upd_twist)
  then show "\<exists>s'. in_world (flush fuel 0) s = Some s' \<and> two_loggers rt k T A s'"
    using assms(1) two_files_sync [OF two_files_sync [OF h(3)]] by (simp add: in_world_def two_loggers_def)
qed

lemma multi_logger_formats:
  "format_fits ''request {} processed''" "format_fits ''user {} performed action''"
  "fill (scan ''request {} processed'') t 0 = ''request '' @ t 0 @ '' processed''"
  "fill (scan ''user {} performed action'') t 0 = ''user '' @ t 0 @ '' performed action''"
  "holes (scan ''request {} processed'') = 1" "holes (scan ''user {} performed action'') = 1"
  by (simp_all add: format_fits_def IOV_MAX_def count_lit_chars_def count_pieces_def peek_def)

text \<open>The program up to its first line.\<close>

lemma multi_logger_setup:
  assumes "ap_proc s = initial os" "fd_inv (make_stderr_sink True) os" "os_ok os" "calm os" "names os audit_path = None"
    "thread_ok (rt_env rt) (ap_thread s)"
  shows "\<exists>k s1. two_loggers rt k (fd_contents 2 os) [] s1 \<and> multi_logger_main rt file ck s =
    do {
      s \<leftarrow> LOGGER_F (Pair 0) INFO rt (at_line file 16) (ck 16) ''request {} processed'' (these [VInt 42]) s1;
      s \<leftarrow> LOGGER_F (Pair 1) INFO rt (at_line file 17) (ck 17) ''user {} performed action'' (these [VLiteral (''alice'' @ [CHR 0x00])]) s;
      s \<leftarrow> in_world (flush (rt_fuel rt) 0) s;
      in_world (flush (rt_fuel rt) 1) s
    }"
proof -
  obtain k os' where k: "make_rotating_file_sink (Some audit_path) (64 * 1024) 4 os = (Some k, os')"
    "two_files k (fd_contents 2 os) [] os'"
    using two_files_open [OF assms(2-5)] by blast
  let ?p = "\<lparr>reg_owned = [''app'' \<mapsto> 0, ''audit'' \<mapsto> 1], reg_all = [''app'' \<mapsto> 0, ''audit'' \<mapsto> 1],
    wld = \<lparr>heap = [1 \<mapsto> audit_logger k, 0 \<mapsto> app_logger], sys = os', visited = {}\<rparr>, next_addr = Suc (Suc 0), default_instance = None\<rparr>"
  have "two_loggers rt k (fd_contents 2 os) [] (s\<lparr>ap_proc := ?p\<rparr>)" using k(2) assms(6) by (simp add: two_loggers_def fun_upd_twist)
  moreover have "multi_logger_main rt file ck s =
    do {
      s \<leftarrow> LOGGER_F (Pair 0) INFO rt (at_line file 16) (ck 16) ''request {} processed'' (these [VInt 42]) (s\<lparr>ap_proc := ?p\<rparr>);
      s \<leftarrow> LOGGER_F (Pair 1) INFO rt (at_line file 17) (ck 17) ''user {} performed action'' (these [VLiteral (''alice'' @ [CHR 0x00])]) s;
      s \<leftarrow> in_world (flush (rt_fuel rt) 0) s;
      in_world (flush (rt_fuel rt) 1) s
    }"
    using assms(1) k(1)
    by (simp add: multi_logger_main_def logger_named_def get_logger_def initial_def put_logger_def in_world_def add_sink_def
        update_logger_def set_level_def add_audit_sink_def tie_def new_logger_def app_logger_def audit_logger_def)
  ultimately show ?thesis by blast
qed

text \<open>
  C3: The program \<open>examples/multi_logger.cpp\<close>, started with a usable standard error and no audit log, while no
  system call fails for good: it returns; the request, logged to \<open>app\<close>, is on the terminal in colour and
  through the tie also in the audit log; the user's action, logged to \<open>audit\<close>, is only in the log; the
  log holds just these two lines, in order, and is synchronized to disk.
\<close>

theorem multi_logger_example:
  assumes "ap_proc s = initial os" "fd_inv (make_stderr_sink True) os" "os_ok os" "calm os" "names os audit_path = None"
    "thread_ok (rt_env rt) (ap_thread s)" "\<forall>n. header_fits rt file (ck n)" "1 < rt_fuel rt"
  shows "\<exists>s' i. multi_logger_main rt file ck s = Some s' \<and>
    terminal s' = fd_contents 2 os @ message_line rt file 16 INFO (ck 16) ''request 42 processed'' \<and>
    file_at (sys (wld (ap_proc s'))) audit_path = Some (log_text rt file 16 INFO (ck 16) ''request 42 processed'' @
      log_text rt file 17 INFO (ck 17) ''user alice performed action'') \<and>
    names (sys (wld (ap_proc s'))) audit_path = Some i \<and> i \<in> synced (sys (wld (ap_proc s')))"
proof -
  let ?t0 = "fd_contents 2 os" and ?m1 = "message_line rt file 16 INFO (ck 16) ''request 42 processed''"
    and ?l1 = "log_text rt file 16 INFO (ck 16) ''request 42 processed''"
    and ?l2 = "log_text rt file 17 INFO (ck 17) ''user alice performed action''"
  have head: "header_fits rt file (ck n)" for n using assms(7) by blast
  have num: "int_str 42 = ''42''" by (simp add: int_str_def radix_large radix_small digit_char_def char_of_def bit_Suc_0_iff)
  obtain k s1 where s1: "two_loggers rt k ?t0 [] s1" and run: "multi_logger_main rt file ck s =
    do {
      s \<leftarrow> LOGGER_F (Pair 0) INFO rt (at_line file 16) (ck 16) ''request {} processed'' (these [VInt 42]) s1;
      s \<leftarrow> LOGGER_F (Pair 1) INFO rt (at_line file 17) (ck 17) ''user {} performed action'' (these [VLiteral (''alice'' @ [CHR 0x00])]) s;
      s \<leftarrow> in_world (flush (rt_fuel rt) 0) s;
      in_world (flush (rt_fuel rt) 1) s
    }"
    using multi_logger_setup [OF assms(1-6)] by blast
  obtain k2 s2 where s2: "LOGGER_F (Pair 0) INFO rt (at_line file 16) (ck 16) ''request {} processed'' (these [VInt 42]) s1 = Some s2"
    "two_loggers rt k2 (?t0 @ ?m1) ?l1 s2"
    using two_loggers_emit [OF s1 _ head _ _ _ _ multi_logger_formats(1) _ _ assms(8), of 0 "[VInt 42]" "''request 42 processed''" 16 16]
    by (auto simp: multi_logger_formats num)
  have "length (prologue_text (rt_env rt) (line_ctx rt (at_line file 16) (ck 16) INFO)) \<le> 3000"
    using head [of 16] by (simp add: header_fits_def)
  then have short: "length ?l1 \<le> 4000" by (simp add: log_text_def)
  obtain k3 s3 where s3: "LOGGER_F (Pair 1) INFO rt (at_line file 17) (ck 17) ''user {} performed action''
      (these [VLiteral (''alice'' @ [CHR 0x00])]) s2 = Some s3"
    "two_loggers rt k3 (?t0 @ ?m1) (?l1 @ ?l2) s3"
    using two_loggers_emit [OF s2(2) _ head _ _ _ _ multi_logger_formats(2) _ _ assms(8), of 1 "[VLiteral (''alice'' @ [CHR 0x00])]"
        "''user alice performed action''" 17 17] short
    by (auto simp: multi_logger_formats)
  obtain s4 where s4: "in_world (flush (rt_fuel rt) 0) s3 = Some s4" "two_loggers rt k3 (?t0 @ ?m1) (?l1 @ ?l2) s4"
    using two_loggers_flush(1) [OF s3(2) assms(8)] by blast
  obtain s5 where s5: "in_world (flush (rt_fuel rt) 1) s4 = Some s5" "two_loggers rt k3 (?t0 @ ?m1) (?l1 @ ?l2) s5"
    "sys (wld (ap_proc s5)) = sys_fsync (rt_fd k3) (sys (wld (ap_proc s4)))"
    using two_loggers_flush(2) [OF s4(2) assms(8)] by blast
  let ?os4 = "sys (wld (ap_proc s4))" and ?os5 = "sys (wld (ap_proc s5))"
  obtain e where "fds ?os4 (rt_fd k3) = Some e" "names ?os4 audit_path = Some (inode e)"
    using s4(2) by (auto simp: two_loggers_def two_files_def rot_inv_def)
  then have "names ?os5 audit_path = Some (inode e) \<and> inode e \<in> synced ?os5" by (simp add: s5(3) sys_fsync_def)
  moreover have "multi_logger_main rt file ck s = Some s5" using s2(1) s3(1) s4(1) s5(1) by (simp add: run)
  moreover have two: "two_files k3 (?t0 @ ?m1) (?l1 @ ?l2) ?os5" using s5(2) by (simp add: two_loggers_def)
  moreover have "terminal s5 = ?t0 @ ?m1" using two by (simp add: two_files_def file_text_def make_stderr_sink_def)
  ultimately show ?thesis using two_files_log [OF two] by blast
qed

lemma start_audit: "names start_disk audit_path = None"
  by (simp add: start_disk_def disk0_def audit_path_def)

theorem multi_logger_example_witness:
  "\<exists>s'. multi_logger_main start_runtime ''io.cpp'' (\<lambda>_. at_ms 0) start_app = Some s' \<and>
     file_at (sys (wld (ap_proc s'))) audit_path =
       Some (''2024-01-09 08:07:06.001500 INFO [5] io.cpp:16 | request 42 processed'' @ [CHR 0x0A] @
         ''2024-01-09 08:07:06.001500 INFO [5] io.cpp:17 | user alice performed action'' @ [CHR 0x0A])"
proof -
  have num: "int_str 16 = ''16''" "int_str 17 = ''17''"
    by (simp_all add: int_str_def radix_large radix_small digit_char_def char_of_def bit_Suc_0_iff)
  show ?thesis
    using multi_logger_example [OF start_facts(1-4) start_audit start_facts(5), of "''io.cpp''" "\<lambda>_. at_ms 0"] start_facts(6,8)
    by (auto simp: log_text_def start_header num)
qed

end
