(* ===== verification/Elog_Custom.thy ===== *)
theory Elog_Custom
  imports Elog_Emit
begin

text \<open>
  The user types of \<open>examples/custom_type.cpp\<close> as renderers of the customization point: \<open>Vec3\<close> composes
  the library's renderers into one contiguous text, \<open>UserRecord\<close> and \<open>Trade\<close> return packs of borrowed
  and rendered segments allocated from the pool of the log call. They keep the contracts: \<open>Vec3\<close> is an
  instance of \<open>direct_renderer\<close>, the packs are admissible arguments of \<open>emit_f\<close>.
\<close>

section \<open>Vec3\<close>

record Vec3 =
  vx :: u64
  vy :: u64
  vz :: u64

text \<open>\<open>if (pos < 4096) scratch[pos++] = c\<close> and \<open>if (pos + 1 < 4096) { ... }\<close>; a result of a renderer is dropped.\<close>

definition put_checked :: "string \<Rightarrow> rbuf \<Rightarrow> rbuf option" where
  "put_checked s b = (if pos b + length s \<le> 4096 then put_str s b else Some b)"

definition render_vec3 :: "renv \<Rightarrow> Vec3 \<Rightarrow> rbuf \<Rightarrow> (iov \<times> rbuf) option" where
  "render_vec3 env v b =
     (let start = pos b
      in do {
        b \<leftarrow> put_checked ''<'' b;
        (_, b) \<leftarrow> elog_render env (VFixed (vx v) 2) b;
        b \<leftarrow> put_checked '', '' b;
        (_, b) \<leftarrow> elog_render env (VFixed (vy v) 2) b;
        b \<leftarrow> put_checked '', '' b;
        (_, b) \<leftarrow> elog_render env (VFixed (vz v) 2) b;
        b \<leftarrow> put_checked ''>'' b;
        Some (scratch_iov start b, b)
      })"

definition vec3_text :: "renv \<Rightarrow> Vec3 \<Rightarrow> string" where
  "vec3_text env v = ''<'' @ fmt_fixed env 2 (vx v) @ '', '' @ fmt_fixed env 2 (vy v) @ '', '' @ fmt_fixed env 2 (vz v) @ ''>''"

definition vec3_readable :: "renv \<Rightarrow> Vec3 \<Rightarrow> bool" where
  "vec3_readable env v \<longleftrightarrow> (\<forall>x \<in> {vx v, vy v, vz v}. length (fmt_fixed env 2 x) \<le> INT_MAX)"

lemma put_checked_evolves: "put_checked s b = Some b' \<Longrightarrow> evolves env b b'"
  by (auto simp: put_checked_def intro: put_str_evolves split: if_splits)

lemma adds_put_checked: "rok env b \<Longrightarrow> pos b + length s \<le> 4096 \<Longrightarrow> adds env s b (put_checked s b)"
  by (simp add: put_checked_def adds_put)

text \<open>A sequence of writes, each of which adds its text when one byte more than it is free.\<close>

fun write_steps :: "(rbuf \<Rightarrow> rbuf option) list \<Rightarrow> rbuf \<Rightarrow> rbuf option" where
  "write_steps [] b = Some b"
| "write_steps (f # fs) b = do { b \<leftarrow> f b; write_steps fs b }"

lemma adds_steps:
  assumes "list_all2 (\<lambda>s f. \<forall>b. rok env b \<and> pos b + length s + 1 \<le> 4096 \<longrightarrow> adds env s b (f b)) ss fs"
    "rok env b" "pos b + length (concat ss) + 1 \<le> 4096"
  shows "adds env (concat ss) b (write_steps fs b)"
  using assms
proof (induction ss fs arbitrary: b rule: list_all2_induct)
  case Nil
  then show ?case by (simp add: adds_def)
next
  case (Cons s ss f fs)
  have "adds env s b (f b)" using Cons.hyps(1) Cons.prems by simp
  moreover have "adds env (concat ss) b1 (write_steps fs b1)" if "appends env s b b1" for b1
    using Cons.IH [of b1] Cons.prems appends_pos [OF that] appends_rok [OF that Cons.prems(1)] by simp
  ultimately show ?case using adds_bind by simp
qed

text \<open>\<open>fixed\<close> renders in place, so that dropping its result keeps its text.\<close>

definition drop_result :: "(iov \<times> rbuf) option \<Rightarrow> rbuf option" where
  "drop_result r = map_option snd r"

lemma drop_result_bind: "do { (_, b) \<leftarrow> r; f b } = drop_result r \<bind> f"
  by (cases r) (simp_all add: drop_result_def split_beta)

lemma adds_fixed:
  assumes "length (fmt_fixed env 2 x) \<le> INT_MAX" "rok env b" "pos b + length (fmt_fixed env 2 x) + 1 \<le> 4096"
  shows "adds env (fmt_fixed env 2 x) b (drop_result (elog_render env (VFixed x 2) b))"
proof -
  let ?s = "fmt_fixed env 2 x"
  obtain b1 where b1: "c_snprintf ?s (size_sub kScratchSize (pos b)) b = Some (int (length ?s), b1)"
    "pos b1 = pos b" "appends env ?s b (b1\<lparr>pos := pos b + length ?s\<rparr>)"
    using appends_snprintf [OF assms(2,3,1)] by blast
  have "length ?s \<le> size_sub kScratchSize (pos b)" using assms(3) by (simp add: size_sub_def kScratchSize_def)
  then have "drop_result (elog_render env (VFixed x 2) b) = Some (b1\<lparr>pos := pos b + length ?s\<rparr>)"
    using b1(1) by (simp add: render_fixed_def Let_def render_snprintf_def drop_result_def)
  then show ?thesis using b1(3) by (simp add: adds_def)
qed

lemma fixed_evolves:
  assumes "readable env (VFixed x 2)" "drop_result (elog_render env (VFixed x 2) b) = Some b'"
  shows "evolves env b b'"
  using assms(2) render_placed [OF assms(1)] placed_evolves by (fastforce simp: drop_result_def)

lemma readable_fixed: "readable env (VFixed x 2) \<longleftrightarrow> length (fmt_fixed env 2 x) \<le> INT_MAX"
  by simp

definition vec3_steps :: "renv \<Rightarrow> Vec3 \<Rightarrow> (rbuf \<Rightarrow> rbuf option) list" where
  "vec3_steps env v =
     [put_checked ''<'', \<lambda>b. drop_result (elog_render env (VFixed (vx v) 2) b), put_checked '', '',
      \<lambda>b. drop_result (elog_render env (VFixed (vy v) 2) b), put_checked '', '',
      \<lambda>b. drop_result (elog_render env (VFixed (vz v) 2) b), put_checked ''>'']"

lemma render_vec3_steps:
  "render_vec3 env v b = write_steps (vec3_steps env v) b \<bind> (\<lambda>b'. Some (scratch_iov (pos b) b', b'))"
  by (simp add: render_vec3_def vec3_steps_def Let_def drop_result_bind bind_assoc del: elog_render.simps)

lemma write_steps_evolves:
  "\<forall>f \<in> set fs. \<forall>b b'. f b = Some b' \<longrightarrow> evolves env b b' \<Longrightarrow> write_steps fs b = Some b' \<Longrightarrow> evolves env b b'"
proof (induction fs arbitrary: b)
  case (Cons f fs)
  then obtain b1 where "f b = Some b1" "write_steps fs b1 = Some b'" by (auto simp: bind_eq_Some_conv)
  then show ?case using Cons by (meson evolves_trans list.set_intros)
qed simp

lemma vec3_placed:
  assumes "vec3_readable env x" "render_vec3 env x b = Some (v, b')"
  shows "placed env b v b'"
proof -
  obtain b1 where b1: "write_steps (vec3_steps env x) b = Some b1" "v = scratch_iov (pos b) b1" "b' = b1"
    using assms(2) by (auto simp: render_vec3_steps bind_eq_Some_conv)
  have "evolves env b b1"
    by (rule write_steps_evolves [OF _ b1(1)])
      (use assms(1) in \<open>auto simp: vec3_steps_def vec3_readable_def readable_fixed simp del: elog_render.simps readable.simps
        intro: put_checked_evolves fixed_evolves\<close>)
  then show ?thesis using placed_here b1(2,3) by simp
qed

lemma vec3_delivers:
  assumes "rok env b" "vec3_readable env x" "pos b + length (vec3_text env x) + 32 \<le> 4096"
  shows "delivers env (vec3_text env x) b (render_vec3 env x b)"
proof -
  let ?ss = "[''<'', fmt_fixed env 2 (vx x), '', '', fmt_fixed env 2 (vy x), '', '', fmt_fixed env 2 (vz x), ''>'']"
  have t: "concat ?ss = vec3_text env x" by (simp add: vec3_text_def)
  have "adds env (concat ?ss) b (write_steps (vec3_steps env x) b)"
  proof (rule adds_steps [OF _ assms(1)])
    show "list_all2 (\<lambda>s f. \<forall>b. rok env b \<and> pos b + length s + 1 \<le> 4096 \<longrightarrow> adds env s b (f b)) ?ss (vec3_steps env x)"
      using assms(2) unfolding vec3_steps_def
      by (auto simp: vec3_readable_def simp del: elog_render.simps intro!: adds_put_checked adds_fixed)
    show "pos b + length (concat ?ss) + 1 \<le> 4096" using assms(3) unfolding t by simp
  qed
  then show ?thesis
    unfolding t by (auto simp: adds_def delivers_def yields_def scratch_iov_def appends_def render_vec3_steps)
qed

interpretation vec3: direct_renderer "render_vec3 env" "vec3_text env" 32 "rok env" "vec3_readable env" for env
proof
  fix x b v b'
  show "rok env b \<Longrightarrow> rbuf_ok b" by (simp add: rok_def)
  assume r: "render_vec3 env x b = Some (v, b')" "rok env b" "vec3_readable env x"
  have p: "placed env b v b'" by (rule vec3_placed [OF r(3,1)])
  show "rok env b'" by (rule evolves_rok [OF placed_evolves [OF p] r(2)])
  show "extends b b'" using placed_evolves [OF p] by (simp add: evolves_def)
  show "in_range (pos b) (pos b') v" by (rule placed_in_range [OF p])
  show "direct b v b'" by (rule placed_direct [OF p])
next
  fix b x
  assume "rok env b" "vec3_readable env x" "pos b + length (vec3_text env x) + 32 \<le> kScratchSize"
  then show "\<exists>v b'. render_vec3 env x b = Some (v, b') \<and>
      pos b' \<le> pos b + length (vec3_text env x) \<and> iov_bytes (mem b') v = vec3_text env x"
    using vec3_delivers [of env b x] yields_bytes by (auto simp: kScratchSize_def delivers_def)
qed

text \<open>So vectors can be among the arguments of a call, and inside its containers.\<close>

definition with_vectors :: "(nat \<Rightarrow> Vec3) \<Rightarrow> renv \<Rightarrow> renv" where
  "with_vectors obj env = env\<lparr>user_render := \<lambda>k. render_vec3 env (obj k), user_text := \<lambda>k. vec3_text env (obj k)\<rparr>"

lemma with_vectors_frame [simp]:
  "rok (with_vectors obj env) = rok env" "placed (with_vectors obj env) = placed env"
  "delivers (with_vectors obj env) = delivers env" "fmt_fixed (with_vectors obj env) = fmt_fixed env"
  by (simp_all add: fun_eq_iff rok_def placed_def delivers_def yields_def appends_def evolves_def with_vectors_def)

lemma vectors_ok: "vec3_readable env (obj k) \<Longrightarrow> user_ok (with_vectors obj env) k"
  using vec3_placed vec3_delivers by (auto simp: user_ok_def) (auto simp: with_vectors_def)

section \<open>UserRecord and Trade\<close>

record UserRecord =
  ur_name :: string
  ur_ip :: string

record Trade =
  tr_symbol :: string
  tr_price :: u64
  tr_volume :: u32
  tr_is_buy :: bool

text \<open>A literal and a borrowed string; a write through the null of a failed allocation is undefined.\<close>

definition lit :: "string \<Rightarrow> iov" where
  "lit s = Iov (Ext s) (length s)"

definition render_user :: "UserRecord \<Rightarrow> rbuf \<Rightarrow> iov_ctx option \<Rightarrow> (iov_pack \<times> rbuf \<times> iov_ctx option) option" where
  "render_user r b pool =
     (let (buf, pool) = iov_scratch_alloc 4 pool
      in do {
        _ \<leftarrow> buf;
        Some (\<lparr>pk_base = Some [lit ''name='', lit (ur_name r), lit '' ip='', lit (ur_ip r)], pk_count = 4\<rparr>, b, pool)
      })"

definition render_trade :: "renv \<Rightarrow> Trade \<Rightarrow> rbuf \<Rightarrow> iov_ctx option \<Rightarrow> (iov_pack \<times> rbuf \<times> iov_ctx option) option" where
  "render_trade env t b pool =
     (let (buf, pool) = iov_scratch_alloc 8 pool
      in do {
        _ \<leftarrow> buf;
        (i1, b) \<leftarrow> elog_render env (VString (tr_symbol t)) b;
        (i3, b) \<leftarrow> elog_render env (VFixed (tr_price t) 4) b;
        (i5, b) \<leftarrow> elog_render env (VInt (tr_volume t)) b;
        (i7, b) \<leftarrow> elog_render env (VCStr (Some (if tr_is_buy t then ''BUY'' else ''SELL''))) b;
        Some (\<lparr>pk_base = Some [lit ''symbol='', i1, lit '' price='', i3, lit '' vol='', i5, lit '' side='', i7], pk_count = 8\<rparr>, b, pool)
      })"

definition record_text :: "UserRecord \<Rightarrow> string" where
  "record_text r = ''name='' @ ur_name r @ '' ip='' @ ur_ip r"

definition trade_text :: "renv \<Rightarrow> Trade \<Rightarrow> string" where
  "trade_text env t = ''symbol='' @ tr_symbol t @ '' price='' @ fmt_fixed env 4 (tr_price t) @ '' vol='' @
     int_str (sint (tr_volume t)) @ '' side='' @ (if tr_is_buy t then ''BUY'' else ''SELL'')"

text \<open>The renderer of a type is found by the type; here the objects of a call are numbered.\<close>

datatype custom = User UserRecord | Deal Trade

fun custom_packer :: "renv \<Rightarrow> (nat \<Rightarrow> custom) \<Rightarrow> pack_renderers" where
  "custom_packer env obj k b pool = (case obj k of User r \<Rightarrow> render_user r b pool | Deal t \<Rightarrow> render_trade env t b pool)"

fun custom_text :: "renv \<Rightarrow> custom \<Rightarrow> string" where
  "custom_text env (User r) = record_text r"
| "custom_text env (Deal t) = trade_text env t"

lemma slot_iovs_pack:
  "length xs = n \<Longrightarrow> n \<le> kPackMax \<Longrightarrow> slot_iovs \<lparr>slot_base = Some xs, slot_count = n, slot_single = y\<rparr> = Some xs"
  by (simp add: slot_iovs_def Let_def)

lemma lit_facts [simp]: "in_range lo hi (lit s)" "iov_bytes m (lit s) = s"
  by (simp_all add: lit_def in_range_def iov_bytes_def)

lemma alloc_some:
  assumes "pool_room kPackMax pool" "n \<le> kPackMax"
  obtains q pool' where "iov_scratch_alloc n pool = (Some q, pool')" "pool_used pool pool'"
  using alloc_room [OF assms] alloc_pool_used [OF assms(2), of pool] that by (cases "iov_scratch_alloc n pool") auto

lemma user_ok:
  assumes "obj k = User r"
  shows "arg_ok env (custom_packer env obj) (\<lambda>k. custom_text env (obj k)) (Packed k)"
proof (simp only: arg_ok.simps, intro allI impI, elim conjE)
  fix b pool assume ok: "rok env b" and room: "pool_room kPackMax pool"
  obtain q pool' where q: "iov_scratch_alloc 4 pool = (Some q, pool')" "pool_used pool pool'"
    using alloc_some [OF room, of 4] by (auto simp: kPackMax_def)
  let ?xs = "[lit ''name='', lit (ur_name r), lit '' ip='', lit (ur_ip r)]"
  have "slot_shows (pos b) (mem b) \<lparr>slot_base = Some ?xs, slot_count = 4, slot_single = Iov Null 0\<rparr> (record_text r)"
    using slot_iovs_pack [of ?xs 4 "Iov Null 0"] by (simp add: slot_shows_def record_text_def kPackMax_def)
  then show "\<exists>p b' pool'. custom_packer env obj k b pool = Some (p, b', pool') \<and> rok env b' \<and> extends b b' \<and>
      pool_used pool pool' \<and> pos b' \<le> pos b + length (custom_text env (obj k)) \<and>
      slot_shows (pos b') (mem b') \<lparr>slot_base = pk_base p, slot_count = pk_count p, slot_single = Iov Null 0\<rparr> (custom_text env (obj k))"
    using assms ok q by (simp add: render_user_def)
qed

text \<open>The four members of a trade are rendered one after the other, as the arguments of a call are.\<close>

definition trade_members :: "Trade \<Rightarrow> val list" where
  "trade_members t = [VString (tr_symbol t), VFixed (tr_price t) 4, VInt (tr_volume t),
     VCStr (Some (if tr_is_buy t then ''BUY'' else ''SELL''))]"

lemma render_trade_seq:
  "render_trade env t b pool =
     (let (buf, pool) = iov_scratch_alloc 8 pool
      in do {
        _ \<leftarrow> buf;
        (is, b) \<leftarrow> render_seq (elog_render env) (trade_members t) b;
        Some (\<lparr>pk_base = Some [lit ''symbol='', is ! 0, lit '' price='', is ! 1, lit '' vol='', is ! 2, lit '' side='', is ! 3],
          pk_count = 8\<rparr>, b, pool)
      })"
  by (simp add: render_trade_def trade_members_def split_beta bind_assoc del: elog_render.simps cong: Option.bind_cong)

lemma trade_ok:
  assumes "obj k = Deal t" "length (fmt_fixed env 4 (tr_price t)) \<le> INT_MAX"
  shows "arg_ok env (custom_packer env obj) (\<lambda>k. custom_text env (obj k)) (Packed k)"
proof (simp only: arg_ok.simps, intro allI impI, elim conjE)
  fix b pool
  assume ok: "rok env b" and room: "pool_room kPackMax pool" and fit: "pos b + length (custom_text env (obj k)) + 32 \<le> 4096"
  obtain q pool' where q: "iov_scratch_alloc 8 pool = (Some q, pool')" "pool_used pool pool'"
    using alloc_some [OF room, of 8] by (auto simp: kPackMax_def)
  have texts: "map (shown env) (trade_members t) =
      [tr_symbol t, fmt_fixed env 4 (tr_price t), int_str (sint (tr_volume t)), if tr_is_buy t then ''BUY'' else ''SELL'']"
    by (simp add: trade_members_def)
  have r: "\<forall>x \<in> set (trade_members t). readable env x" using assms(2) by (simp add: trade_members_def)
  have room4: "pos b + length (concat (map (shown env) (trade_members t))) + 32 \<le> kScratchSize"
    using fit assms(1) unfolding texts by (simp add: trade_text_def kScratchSize_def)
  obtain vs b' where vs: "render_seq (elog_render env) (trade_members t) b = Some (vs, b')"
    "map (iov_bytes (mem b')) vs = map (shown env) (trade_members t)"
    using rendered.seq_renders [OF ok r room4] by blast
  note f = rendered.seq_frame [OF vs(1) ok r]
  show "\<exists>p b' pool'. custom_packer env obj k b pool = Some (p, b', pool') \<and> rok env b' \<and> extends b b' \<and>
      pool_used pool pool' \<and> pos b' \<le> pos b + length (custom_text env (obj k)) \<and>
      slot_shows (pos b') (mem b') \<lparr>slot_base = pk_base p, slot_count = pk_count p, slot_single = Iov Null 0\<rparr> (custom_text env (obj k))"
  proof -
    have "length vs = 4" using f by (simp add: trade_members_def)
    then obtain i1 i3 i5 i7 where i: "vs = [i1, i3, i5, i7]" by (auto simp: numeral_eq_Suc length_Suc_conv)
    let ?xs = "[lit ''symbol='', i1, lit '' price='', i3, lit '' vol='', i5, lit '' side='', i7]"
    have b: "iov_bytes (mem b') i1 = tr_symbol t" "iov_bytes (mem b') i3 = fmt_fixed env 4 (tr_price t)"
      "iov_bytes (mem b') i5 = int_str (sint (tr_volume t))" "iov_bytes (mem b') i7 = (if tr_is_buy t then ''BUY'' else ''SELL'')"
      using vs(2) unfolding i texts by simp_all
    have le: "pos b' \<le> pos b + length (concat (map (shown env) (trade_members t)))"
      using rendered.seq_renders [OF ok r room4] vs(1) by auto
    have "in_range 0 (pos b') v" if "v \<in> set vs" for v
      using f that in_range_mono [of "pos b" "pos b'" v 0 "pos b'"] by auto
    then have rng: "\<forall>v \<in> set ?xs. in_range 0 (pos b') v" unfolding i by simp
    have "slot_shows (pos b') (mem b') \<lparr>slot_base = Some ?xs, slot_count = 8, slot_single = Iov Null 0\<rparr> (trade_text env t)"
      using slot_iovs_pack [of ?xs 8 "Iov Null 0"] rng b by (simp add: slot_shows_def trade_text_def kPackMax_def)
    moreover have "pos b' \<le> pos b + length (trade_text env t)" using le unfolding texts by (simp add: trade_text_def)
    ultimately show ?thesis using assms(1) q vs(1) f unfolding i by (simp add: render_trade_seq)
  qed
qed

text \<open>So a log call with users and deals among its arguments delivers their texts.\<close>

lemma custom_ok:
  "(case obj k of User r \<Rightarrow> True | Deal t \<Rightarrow> length (fmt_fixed env 4 (tr_price t)) \<le> INT_MAX) \<Longrightarrow>
    arg_ok env (custom_packer env obj) (\<lambda>k. custom_text env (obj k)) (Packed k)"
  using user_ok trade_ok by (cases "obj k") (simp_all del: arg_ok.simps)

lemma log_two_deals:
  assumes "thread_ok env th" "ctx_ok env ctx" "heap w a = Some l" "lg_prologue l = Default_Prologue"
    "\<forall>t \<in> {t1, t2}. length (fmt_fixed env 4 (tr_price t)) \<le> INT_MAX"
    "length (prologue_text env ctx) + length (trade_text env t1) + length (trade_text env t2) + 32 \<le> 4096"
  defines "s \<equiv> ''{} | {}''" and "obj \<equiv> (\<lambda>k :: nat. Deal (if k = 0 then t1 else t2))"
  shows "\<exists>spec iov th'. make_spec (count_pieces s) (count_lit_chars s) s = Some spec \<and>
    concat iov = prologue_text env ctx @ trade_text env t1 @ '' | '' @ trade_text env t2 @ [CHR 0x0A] \<and>
    emit_f_pack env user (custom_packer env obj) fuel a ctx (count_pieces s) spec [Packed 0, Packed 1] w th =
      map_option (\<lambda>w'. (w', th')) (emit fuel (lc_level ctx) iov a w)"
proof -
  let ?args = "[Packed 0, Packed 1]" and ?text = "\<lambda>k. custom_text env (obj k)"
  have args: "\<forall>x \<in> set ?args. arg_ok env (custom_packer env obj) ?text x"
    using custom_ok [where obj = obj and k = 0 and env = env] custom_ok [where obj = obj and k = 1 and env = env] assms(5) by (simp add: obj_def del: arg_ok.simps)
  have room: "length (prologue_text env ctx) + length (concat (map (arg_text env ?text) ?args)) + 32 \<le> 4096"
    using assms(6) by (simp add: obj_def)
  have f: "count_lit_chars s \<le> 65535" "holes (scan s) \<le> length ?args" "length ?args \<le> 65535" "?args \<noteq> []"
    "fill (scan s) (\<lambda>k. map (arg_text env ?text) ?args ! k) 0 = trade_text env t1 @ '' | '' @ trade_text env t2"
    by (simp_all add: s_def count_lit_chars_def peek_def obj_def)
  from emit_f_pack_line [OF assms(1,2) args room assms(3,4) f(1-4), of user fuel] show ?thesis unfolding f(5) by auto
qed

end
