(* ===== verification/Elog_Custom_Type.thy ===== *)
theory Elog_Custom_Type
  imports Elog_Programs Elog_Custom
begin

text \<open>
  The example program \<open>examples/custom_type.cpp\<close>: a line with a vector, one with a container, and lines
  whose user types reach the file as packs of borrowed segments, through the macro, the overload of
  \<open>emit_f\<close> for packs, the default logger and its sink.
\<close>

section \<open>A call with packs\<close>

lemma LOG_F_packs_print:
  assumes "printing rt s" "DEBUG \<le> lvl" "0 < rt_fuel rt" "header_fits rt file ck"
    "\<forall>x \<in> set xs. arg_ok (rt_env rt) (rt_packs rt) packed x" "those (map plain_value xs) = None"
    "holes (scan fmt) \<le> length xs" "length xs \<le> 65535" "length (concat (map (arg_text (rt_env rt) packed) xs)) \<le> 1000"
    "count_lit_chars fmt \<le> 65535" "count_pieces fmt * kPackMax + 4 \<le> IOV_MAX"
  shows "\<exists>s'. LOG_F lvl rt (at_line file n) ck fmt (\<lambda>s. (xs, s)) s = Some s' \<and> printing rt s' \<and>
    terminal s' = terminal s @
      message_line rt file n lvl ck (fill (scan fmt) (\<lambda>k. map (arg_text (rt_env rt) packed) xs ! k) 0)"
proof -
  let ?env = "rt_env rt" and ?ctx = "line_ctx rt (at_line file n) ck lvl" and ?w = "wld (ap_proc s)"
  let ?text = "fill (scan fmt) (\<lambda>k. map (arg_text ?env packed) xs ! k) 0"
  have ready: "logs_to_file rt 0 DEBUG (make_stderr_sink True) s" "default_instance (ap_proc s) = Some 0"
    using assms(1) by (simp_all add: printing_def)
  obtain l where l: "heap ?w 0 = Some l" "lg_prologue l = Default_Prologue" "lg_level l = DEBUG"
    and th: "thread_ok ?env (ap_thread s)"
    using ready(1) by (auto simp: logs_to_file_def)
  have ctx: "ctx_ok ?env ?ctx" "length (prologue_text ?env ?ctx) \<le> 3000" using assms(4) by (simp_all add: header_fits_def)
  have room: "length (prologue_text ?env ?ctx) + length (concat (map (arg_text ?env packed) xs)) + 32 \<le> 4096"
    using ctx(2) assms(9) by simp
  have "xs \<noteq> []" using assms(6) by auto
  from emit_f_pack_line [OF th ctx(1) assms(5) room l(1,2) assms(10,7,8) this, of "rt_prologues rt" "rt_fuel rt"] assms(11)
  obtain spec iov th' where e: "make_spec (count_pieces fmt) (count_lit_chars fmt) fmt = Some spec" "thread_ok ?env th'"
    "iov \<noteq> []" "length iov + 2 \<le> IOV_MAX" "concat iov = (prologue_text ?env ?ctx @ ?text) @ [CHR 0x0A]" "last iov = [CHR 0x0A]"
    "emit_f rt 0 ?ctx (count_pieces fmt) spec xs ?w (ap_thread s) = map_option (\<lambda>w. (w, th')) (emit (rt_fuel rt) lvl iov 0 ?w)"
    using assms(6) by (auto simp: emit_f_def line_ctx_def)
  from assembled_to_file [OF ready(1) assms(3) e(2-7)] obtain w where
    "emit_f rt 0 ?ctx (count_pieces fmt) spec xs ?w (ap_thread s) = Some (w, th')"
    "logs_to_file rt 0 DEBUG (make_stderr_sink True) (s\<lparr>ap_proc := (ap_proc s)\<lparr>wld := w\<rparr>, ap_thread := th'\<rparr>)"
    "terminal (s\<lparr>ap_proc := (ap_proc s)\<lparr>wld := w\<rparr>, ap_thread := th'\<rparr>) = terminal s @ message_line rt file n lvl ck ?text"
    by (auto simp: message_line_def)
  then show ?thesis
    using l e(1) ready(2) assms(2)
    by (simp add: LOG_F_def elog_internal_f_def log_call_def the_default_def default_logger_def enabled_def printing_def)
qed

section \<open>\<open>custom_type.cpp\<close>\<close>

definition main_v :: Vec3 where
  "main_v = \<lparr>vx = 0x3FF8000000000000, vy = 0x4004000000000000, vz = 0x400C000000000000\<rparr>" \<comment> \<open>1.5, 2.5, 3.5\<close>

definition main_user :: UserRecord where
  "main_user = \<lparr>ur_name = ''alice'', ur_ip = ''10.0.0.1''\<rparr>"

definition main_admin :: UserRecord where
  "main_admin = \<lparr>ur_name = ''admin'', ur_ip = ''10.0.0.2''\<rparr>"

definition main_t1 :: Trade where
  "main_t1 = \<lparr>tr_symbol = ''AAPL'', tr_price = 0x4062C80000000000, tr_volume = 1000, tr_is_buy = True\<rparr>" \<comment> \<open>150.25\<close>

definition main_t2 :: Trade where
  "main_t2 = \<lparr>tr_symbol = ''GOOG'', tr_price = 0x40A55F0000000000, tr_volume = 50, tr_is_buy = False\<rparr>" \<comment> \<open>2735.5\<close>

text \<open>The objects of \<open>main\<close> that are logged as packs, and the overloads of the program.\<close>

definition objects :: "nat \<Rightarrow> custom" where
  "objects k = [User main_user, User main_admin, Deal main_t1, Deal main_t2] ! k"

definition with_customs :: "runtime \<Rightarrow> runtime" where
  "with_customs rt =
     (let env = with_vectors (\<lambda>_. main_v) (rt_env rt) in rt\<lparr>rt_env := env, rt_packs := custom_packer env objects\<rparr>)"

definition custom_type_main :: "runtime \<Rightarrow> string \<Rightarrow> (nat \<Rightarrow> clocks) \<Rightarrow> 'u app \<Rightarrow> 'u app option" where
  "custom_type_main rt file ck s =
     (let (l, s) = the_default s; rt = with_customs rt in
      do {
        s \<leftarrow> in_world (set_level l DEBUG) s;
        s \<leftarrow> LOG_F INFO rt (at_line file 93) (ck 93) ''position = {}'' (these [VUser 0]) s;
        s \<leftarrow> LOG_F INFO rt (at_line file 97) (ck 97) ''ids = {}'' (these [VVector [VInt 3, VInt 1, VInt 4, VInt 1, VInt 5, VInt 9]]) s;
        s \<leftarrow> LOG_F INFO rt (at_line file 102) (ck 102) ''user: {}'' (\<lambda>s. ([Packed 0], s)) s;
        s \<leftarrow> LOG_F INFO rt (at_line file 107) (ck 107) ''from {} to {}'' (\<lambda>s. ([Packed 0, Packed 1], s)) s;
        s \<leftarrow> LOG_F INFO rt (at_line file 113) (ck 113) ''trade: {}'' (\<lambda>s. ([Packed 2], s)) s;
        LOG_F INFO rt (at_line file 114) (ck 114) ''two trades: {} | {}'' (\<lambda>s. ([Packed 2, Packed 3], s)) s
      })"

text \<open>The overloads do not touch what headers and lines are made of.\<close>

lemma with_customs_frame [simp]:
  "rt_fuel (with_customs rt) = rt_fuel rt" "header_fits (with_customs rt) = header_fits rt"
  "printing (with_customs rt) = printing rt" "message_line (with_customs rt) = message_line rt"
  "rt_env (with_customs rt) = with_vectors (\<lambda>_. main_v) (rt_env rt)"
  "rt_packs (with_customs rt) = custom_packer (with_vectors (\<lambda>_. main_v) (rt_env rt)) objects"
  by (simp_all add: fun_eq_iff Let_def with_customs_def with_vectors_def header_fits_def line_ctx_def ctx_ok_def prologue_text_def
      date_text_def tid_value_def printing_def logs_to_file_def thread_ok_def rok_def cache_ok_def message_line_def)

text \<open>What the six lines say.\<close>

lemma custom_formats:
  "format_fits ''position = {}''" "format_fits ''ids = {}''"
  by (simp_all add: format_fits_def IOV_MAX_def count_lit_chars_def count_pieces_def peek_def)

lemma custom_packs:
  assumes "\<forall>t \<in> {main_t1, main_t2}. length (fmt_fixed env 4 (tr_price t)) \<le> INT_MAX" "k < 4"
  shows "arg_ok env (custom_packer env objects) (\<lambda>k. custom_text env (objects k)) (Packed k)"
  using assms by (intro custom_ok) (auto simp: objects_def less_Suc_eq numeral_eq_Suc)

lemma volume_digits: "int_str 1000 = ''1000''" "int_str 50 = ''50''"
  by (simp_all add: int_str_def radix_large radix_small digit_char_def char_of_def bit_Suc_0_iff)

lemma custom_texts:
  "custom_text env (objects 0) = ''name=alice ip=10.0.0.1''"
  "custom_text env (objects (Suc 0)) = ''name=admin ip=10.0.0.2''"
  "custom_text env (objects 2) = ''symbol=AAPL price='' @ fmt_fixed env 4 (tr_price main_t1) @ '' vol=1000 side=BUY''"
  "custom_text env (objects 3) = ''symbol=GOOG price='' @ fmt_fixed env 4 (tr_price main_t2) @ '' vol=50 side=SELL''"
  by (simp_all add: objects_def record_text_def trade_text_def main_user_def main_admin_def main_t1_def main_t2_def volume_digits
      numeral_2_eq_2 numeral_3_eq_3)

lemma ids_digits: "int_str 3 = ''3''" "int_str 1 = ''1''" "int_str 4 = ''4''" "int_str 5 = ''5''" "int_str 9 = ''9''"
  by (simp_all add: int_str_def radix_large radix_small digit_char_def char_of_def bit_Suc_0_iff)

lemma ids_text:
  "shown env (VVector [VInt 3, VInt 1, VInt 4, VInt 1, VInt 5, VInt 9]) = ''[3, 1, 4, 1, 5, 9]''"
  by (simp add: ids_digits)

lemma objects_trades:
  "custom_text (with_vectors obj env) (objects 2) = trade_text env main_t1"
  "custom_text (with_vectors obj env) (objects 3) = trade_text env main_t2"
  by (simp_all add: objects_def trade_text_def numeral_2_eq_2 numeral_3_eq_3)

lemma vector_fits:
  assumes "\<forall>x \<in> {vx main_v, vy main_v, vz main_v}. length (fmt_fixed env 2 x) \<le> 300"
  shows "user_ok (with_vectors (\<lambda>_. main_v) env) k" "length (vec3_text env main_v) \<le> 1000"
    "user_text (with_vectors (\<lambda>_. main_v) env) k = vec3_text env main_v"
proof -
  show "user_ok (with_vectors (\<lambda>_. main_v) env) k"
    by (rule vectors_ok) (use assms in \<open>auto simp: vec3_readable_def INT_MAX_def\<close>)
  show "length (vec3_text env main_v) \<le> 1000" using assms by (simp add: vec3_text_def)
qed (simp add: with_vectors_def)

definition prices_fit :: "renv \<Rightarrow> bool" where
  "prices_fit env \<longleftrightarrow> (\<forall>t \<in> {main_t1, main_t2}. length (fmt_fixed env 4 (tr_price t)) \<le> 200)"

lemma objects_fit:
  assumes "prices_fit env" "k < 4"
  shows "length (custom_text env (objects k)) \<le> 250"
proof -
  have "k = 0 \<or> k = Suc 0 \<or> k = 2 \<or> k = 3" using assms(2) by auto
  then show ?thesis using assms(1) by (auto simp: custom_texts prices_fit_def)
qed

text \<open>A line of \<open>main\<close> with one or two objects in its holes.\<close>

lemma objects_line:
  assumes "printing (with_customs rt) s" "0 < rt_fuel rt" "header_fits rt file ck" "prices_fit (rt_env rt)"
    "ks \<noteq> []" "\<forall>k \<in> set ks. k < 4" "length ks \<le> 4" "holes (scan fmt) \<le> length ks"
    "count_lit_chars fmt \<le> 100" "count_pieces fmt \<le> 20"
  defines "text \<equiv> \<lambda>k. custom_text (rt_env (with_customs rt)) (objects k)"
  shows "\<exists>s'. LOG_F INFO (with_customs rt) (at_line file n) ck fmt (\<lambda>s. (map Packed ks, s)) s = Some s' \<and>
    printing (with_customs rt) s' \<and>
    terminal s' = terminal s @ message_line rt file n INFO ck (fill (scan fmt) (\<lambda>j. map text ks ! j) 0)"
proof -
  let ?rt = "with_customs rt" and ?xs = "map Packed ks"
  have fit: "prices_fit (rt_env ?rt)" using assms(4) by (simp add: prices_fit_def)
  have ok: "\<forall>x \<in> set ?xs. arg_ok (rt_env ?rt) (rt_packs ?rt) text x"
    using custom_packs [of "rt_env ?rt"] fit assms(6) by (simp add: text_def prices_fit_def INT_MAX_def del: arg_ok.simps)
  have texts: "map (arg_text (rt_env ?rt) text) ?xs = map text ks" by simp
  have "length (concat (map text ks)) \<le> 250 * length ks"
    using assms(6) objects_fit [OF fit] by (induction ks) (auto simp: text_def intro!: add_mono)
  then have room: "length (concat (map (arg_text (rt_env ?rt) text) ?xs)) \<le> 1000"
    unfolding texts using assms(7) by simp
  have "those (map plain_value ?xs) = None" using assms(5) by (cases ks) simp_all
  from LOG_F_packs_print [OF assms(1) _ _ _ ok this _ _ room, of INFO "file" ck fmt n, unfolded texts] assms(2-10)
  show ?thesis by (simp add: kPackMax_def IOV_MAX_def less_eq_Level_def)
qed

section \<open>Property\<close>

text \<open>
  C18: The program \<open>examples/custom_type.cpp\<close>, started with a usable standard error: it returns, and the
  terminal shows exactly six more lines, each with its own header: the vector and the numbers rendered
  into the scratch buffer, users and trades spliced in from their packs, two packs of one line
  undisturbed by each other.
\<close>

theorem custom_type_example:
  assumes "ap_proc s = initial os" "fd_inv (make_stderr_sink True) os" "thread_ok (rt_env rt) (ap_thread s)" "0 < rt_fuel rt"
    "\<forall>n. header_fits rt file (ck n)"
    "\<forall>x \<in> {vx main_v, vy main_v, vz main_v}. length (fmt_fixed (rt_env rt) 2 x) \<le> 300"
    "\<forall>t \<in> {main_t1, main_t2}. length (fmt_fixed (rt_env rt) 4 (tr_price t)) \<le> 200"
  shows "\<exists>s'. custom_type_main rt file ck s = Some s' \<and> terminal s' = fd_contents 2 os @
    concat (map (\<lambda>(n, msg). message_line rt file n INFO (ck n) msg)
      [(93, ''position = '' @ vec3_text (rt_env rt) main_v), (97, ''ids = [3, 1, 4, 1, 5, 9]''),
       (102, ''user: name=alice ip=10.0.0.1''), (107, ''from name=alice ip=10.0.0.1 to name=admin ip=10.0.0.2''),
       (113, ''trade: '' @ trade_text (rt_env rt) main_t1),
       (114, ''two trades: '' @ trade_text (rt_env rt) main_t1 @ '' | '' @ trade_text (rt_env rt) main_t2)])"
proof -
  let ?rt = "with_customs rt" and ?v2 = "[VVector [VInt 3, VInt 1, VInt 4, VInt 1, VInt 5, VInt 9]]"
  have head: "header_fits ?rt file (ck n)" "header_fits rt file (ck n)" for n using assms(5) by simp_all
  have fuel: "0 < rt_fuel ?rt" using assms(4) by simp
  have info: "DEBUG \<le> INFO" by (simp add: less_eq_Level_def)
  obtain p s0 where s0: "the_default s = (0, s\<lparr>ap_proc := p\<rparr>)" "in_world (set_level 0 DEBUG) (s\<lparr>ap_proc := p\<rparr>) = Some s0"
    "printing ?rt s0" "terminal s0 = fd_contents 2 os"
    using start_printing [OF assms(1-3)] by auto
  obtain s1 where s1: "LOG_F INFO ?rt (at_line file 93) (ck 93) ''position = {}'' (these [VUser 0]) s0 = Some s1" "printing ?rt s1"
    "terminal s1 = terminal s0 @ message_line rt file 93 INFO (ck 93) (''position = '' @ vec3_text (rt_env rt) main_v)"
    using LOG_F_prints [OF s0(3) info custom_formats(1) fuel head(1) [of 93], of "[VUser 0]" 93] assms(6) vector_fits
    by (auto simp: peek_def)
  obtain s2 where s2: "LOG_F INFO ?rt (at_line file 97) (ck 97) ''ids = {}'' (these ?v2) s1 = Some s2" "printing ?rt s2"
    "terminal s2 = terminal s1 @ message_line rt file 97 INFO (ck 97) ''ids = [3, 1, 4, 1, 5, 9]''"
    using LOG_F_prints [OF s1(2) info custom_formats(2) fuel head(1) [of 97], of ?v2 97]
    by (auto simp: peek_def ids_digits)
  have fit: "prices_fit (rt_env rt)" using assms(7) by (simp add: prices_fit_def)
  obtain s3 where s3: "LOG_F INFO ?rt (at_line file 102) (ck 102) ''user: {}'' (\<lambda>s. ([Packed 0], s)) s2 = Some s3" "printing ?rt s3"
    "terminal s3 = terminal s2 @ message_line rt file 102 INFO (ck 102) ''user: name=alice ip=10.0.0.1''"
    using objects_line [OF s2(2) assms(4) head(2) [of 102] fit, of "[0]" "''user: {}''" 102]
    by (auto simp: peek_def count_lit_chars_def count_pieces_def custom_texts)
  obtain s4 where s4: "LOG_F INFO ?rt (at_line file 107) (ck 107) ''from {} to {}'' (\<lambda>s. ([Packed 0, Packed 1], s)) s3 = Some s4"
    "printing ?rt s4"
    "terminal s4 = terminal s3 @ message_line rt file 107 INFO (ck 107) ''from name=alice ip=10.0.0.1 to name=admin ip=10.0.0.2''"
    using objects_line [OF s3(2) assms(4) head(2) [of 107] fit, of "[0, 1]" "''from {} to {}''" 107]
    by (auto simp: peek_def count_lit_chars_def count_pieces_def custom_texts)
  obtain s5 where s5: "LOG_F INFO ?rt (at_line file 113) (ck 113) ''trade: {}'' (\<lambda>s. ([Packed 2], s)) s4 = Some s5" "printing ?rt s5"
    "terminal s5 = terminal s4 @ message_line rt file 113 INFO (ck 113) (''trade: '' @ trade_text (rt_env rt) main_t1)"
    using objects_line [OF s4(2) assms(4) head(2) [of 113] fit, of "[2]" "''trade: {}''" 113]
    by (auto simp: peek_def count_lit_chars_def count_pieces_def objects_trades)
  obtain s6 where s6: "LOG_F INFO ?rt (at_line file 114) (ck 114) ''two trades: {} | {}'' (\<lambda>s. ([Packed 2, Packed 3], s)) s5 = Some s6"
    "terminal s6 = terminal s5 @ message_line rt file 114 INFO (ck 114)
       (''two trades: '' @ trade_text (rt_env rt) main_t1 @ '' | '' @ trade_text (rt_env rt) main_t2)"
    using objects_line [OF s5(2) assms(4) head(2) [of 114] fit, of "[2, 3]" "''two trades: {} | {}''" 114]
    by (auto simp: peek_def count_lit_chars_def count_pieces_def objects_trades)
  show ?thesis
    using s0 s1 s2 s3 s4 s5 s6 by (simp add: custom_type_main_def Let_def)
qed

text \<open>The start of \<open>Elog_Programs\<close> with what \<open>%.2f\<close> and \<open>%.4f\<close> print for the numbers of \<open>main\<close>.\<close>

definition printed :: "nat \<Rightarrow> u64 \<Rightarrow> string" where
  "printed p x = (if x = vx main_v then ''1.50'' else if x = vy main_v then ''2.50'' else if x = vz main_v then ''3.50''
     else if x = tr_price main_t1 then ''150.2500'' else ''2735.5000'')"

definition printing_runtime :: runtime where
  "printing_runtime = start_runtime\<lparr>rt_env := (rt_env start_runtime)\<lparr>fmt_fixed := printed\<rparr>\<rparr>"

lemma printing_runtime_frame:
  "rt_fuel printing_runtime = rt_fuel start_runtime" "header_fits printing_runtime = header_fits start_runtime"
  "thread_ok (rt_env printing_runtime) = thread_ok (rt_env start_runtime)" "fmt_fixed (rt_env printing_runtime) = printed"
  "message_line printing_runtime = message_line start_runtime"
  by (simp_all add: fun_eq_iff printing_runtime_def header_fits_def line_ctx_def ctx_ok_def prologue_text_def date_text_def
      tid_value_def thread_ok_def rok_def cache_ok_def message_line_def)

theorem custom_type_example_witness:
  "\<exists>s'. custom_type_main printing_runtime ''io.cpp'' (\<lambda>_. at_ms 0) start_app = Some s' \<and>
     drop 3 (terminal s') = concat (map (\<lambda>(n, msg). message_line start_runtime ''io.cpp'' n INFO (at_ms 0) msg)
       [(93, ''position = <1.50, 2.50, 3.50>''), (97, ''ids = [3, 1, 4, 1, 5, 9]''), (102, ''user: name=alice ip=10.0.0.1''),
        (107, ''from name=alice ip=10.0.0.1 to name=admin ip=10.0.0.2''),
        (113, ''trade: symbol=AAPL price=150.2500 vol=1000 side=BUY''),
        (114, ''two trades: symbol=AAPL price=150.2500 vol=1000 side=BUY | symbol=GOOG price=2735.5000 vol=50 side=SELL'')])"
proof -
  have p: "printed k (vx main_v) = ''1.50''" "printed k (vy main_v) = ''2.50''" "printed k (vz main_v) = ''3.50''"
    "printed k (tr_price main_t1) = ''150.2500''" "printed k (tr_price main_t2) = ''2735.5000''" for k
    by (simp_all add: printed_def main_v_def main_t1_def main_t2_def)
  have "vec3_text (rt_env printing_runtime) main_v = ''<1.50, 2.50, 3.50>''"
    "trade_text (rt_env printing_runtime) main_t1 = ''symbol=AAPL price=150.2500 vol=1000 side=BUY''"
    "trade_text (rt_env printing_runtime) main_t2 = ''symbol=GOOG price=2735.5000 vol=50 side=SELL''"
    by (simp_all add: vec3_text_def trade_text_def printing_runtime_frame p) (simp_all add: main_t1_def main_t2_def volume_digits)
  then show ?thesis
    using custom_type_example [OF start_facts(1,2), of printing_runtime "''io.cpp''" "\<lambda>_. at_ms 0"] start_facts(5,7,8,9)
    by (auto simp: printing_runtime_frame p)
qed

end
