(* ===== verification/Elog_Async.thy ===== *)
theory Elog_Async
  imports Elog_Buffered
begin

text \<open>
  The asynchronous wrapper of \<open>examples/async_sink_skeleton.cpp\<close>: any number of threads hand lines to a
  bounded queue, a worker thread writes them to the inner sink. What runs under the mutex is one step,
  as is a call of the inner sink; the condition variables are modelled by who sleeps on them, with
  spurious wakeups. \<open>'w\<close> is the inner sink with the system state, \<open>put\<close> and \<open>drain\<close> are its \<open>write\<close> and
  \<open>flush\<close>. The last three fields are ghosts: the calls of \<open>write\<close>, the items accepted and the items
  written, in order.
\<close>

section \<open>The queue\<close>

type_synonym item = "Level \<times> byte list"

text \<open>Threads inside \<open>write\<close>, \<open>flush\<close> and the destructor; the worker in \<open>run\<close>.\<close>

datatype client = Outside | Notify | Flush_Check | Flush_Asleep | Stop_Notify | Join | Destroyed

datatype worker = Check | Asleep | Hold item bool | Announce | Exited

record 'w async =
  as_inner :: 'w
  as_cap :: nat
  as_q :: "item list"
  as_stop :: bool
  as_dropped :: u64
  as_worker :: worker
  as_client :: "nat \<Rightarrow> client"
  as_calls :: nat
  as_accepted :: "item list"
  as_written :: "item list"

definition new_async :: "'w \<Rightarrow> nat \<Rightarrow> 'w async" where
  "new_async inner cap = \<lparr>as_inner = inner, as_cap = cap, as_q = [], as_stop = False, as_dropped = 0,
     as_worker = Check, as_client = \<lambda>_. Outside, as_calls = 0, as_accepted = [], as_written = []\<rparr>"

text \<open>The line as \<open>write\<close> copies it before it takes the mutex.\<close>

definition async_item :: "Level \<Rightarrow> iovecs \<Rightarrow> item option" where
  "async_item lvl iov =
     map_option (\<lambda>(_, buf). (lvl, buf)) (iov_serialize iov (replicate (iov_total_bytes iov) (CHR 0x00)))"

definition client_at :: "nat \<Rightarrow> client \<Rightarrow> 'w async \<Rightarrow> 'w async" where
  "client_at i p s = s\<lparr>as_client := (as_client s)(i := p)\<rparr>"

definition enqueue :: "item \<Rightarrow> 'w async \<Rightarrow> bool \<times> 'w async" where
  "enqueue it s =
     (if length (as_q s) \<ge> as_cap s then (False, s\<lparr>as_dropped := as_dropped s + 1, as_calls := Suc (as_calls s)\<rparr>)
      else (True, s\<lparr>as_q := as_q s @ [it], as_calls := Suc (as_calls s), as_accepted := as_accepted s @ [it]\<rparr>))"

text \<open>The predicate of \<open>cv_.wait\<close> and what follows it, up to the release of the mutex.\<close>

definition worker_check :: "'w async \<Rightarrow> 'w async" where
  "worker_check s =
     (if \<not> (as_stop s \<or> as_q s \<noteq> []) then s\<lparr>as_worker := Asleep\<rparr>
      else if as_q s = [] \<and> as_stop s then s\<lparr>as_worker := Exited\<rparr>
      else
        let it = hd (as_q s); s = s\<lparr>as_q := tl (as_q s)\<rparr>; now_empty = (as_q s = [])
        in s\<lparr>as_worker := Hold it now_empty\<rparr>)"

definition wake_worker :: "'w async \<Rightarrow> 'w async" where
  "wake_worker s = (if as_worker s = Asleep then s\<lparr>as_worker := Check\<rparr> else s)"

definition wake_flushers :: "'w async \<Rightarrow> 'w async" where
  "wake_flushers s = s\<lparr>as_client := (\<lambda>i. if as_client s i = Flush_Asleep then Flush_Check else as_client s i)\<rparr>"

definition inner_write :: "(Level \<Rightarrow> iovecs \<Rightarrow> 'w \<Rightarrow> 'w) \<Rightarrow> item \<Rightarrow> 'w async \<Rightarrow> 'w async" where
  "inner_write put it s = s\<lparr>as_inner := put (fst it) [snd it] (as_inner s), as_written := as_written s @ [it]\<rparr>"

definition drain_queue :: "(Level \<Rightarrow> iovecs \<Rightarrow> 'w \<Rightarrow> 'w) \<Rightarrow> ('w \<Rightarrow> 'w) \<Rightarrow> 'w async \<Rightarrow> 'w async" where
  "drain_queue put drain s =
     (let s = fold (inner_write put) (as_q s) s; s = s\<lparr>as_q := []\<rparr> in s\<lparr>as_inner := drain (as_inner s)\<rparr>)"

text \<open>
  Events are of three kinds: a thread enters a call, a thread goes on with what it is doing, or one that
  sleeps on a condition variable wakes up although nobody has notified it.
\<close>

datatype event = Call | Work | Spurious

inductive async_event ::
    "(Level \<Rightarrow> iovecs \<Rightarrow> 'w \<Rightarrow> 'w) \<Rightarrow> ('w \<Rightarrow> 'w) \<Rightarrow> event \<Rightarrow> 'w async \<Rightarrow> 'w async \<Rightarrow> bool" for put drain where
  Drop: "as_client s i = Outside \<Longrightarrow> \<not> as_stop s \<Longrightarrow> async_item lvl iov = Some it \<Longrightarrow> enqueue it s = (False, s') \<Longrightarrow>
    async_event put drain Call s s'"
| Push: "as_client s i = Outside \<Longrightarrow> \<not> as_stop s \<Longrightarrow> async_item lvl iov = Some it \<Longrightarrow> enqueue it s = (True, s') \<Longrightarrow>
    async_event put drain Call s (client_at i Notify s')"
| Notified: "as_client s i = Notify \<Longrightarrow> async_event put drain Work s (client_at i Outside (wake_worker s))"
| Spurious_Worker: "as_worker s = Asleep \<Longrightarrow> async_event put drain Spurious s (wake_worker s)"
| Run: "as_worker s = Check \<Longrightarrow> async_event put drain Work s (worker_check s)"
| Deliver: "as_worker s = Hold it now_empty \<Longrightarrow>
    async_event put drain Work s ((inner_write put it s)\<lparr>as_worker := (if now_empty then Announce else Check)\<rparr>)"
| Announced: "as_worker s = Announce \<Longrightarrow> async_event put drain Work s ((wake_flushers s)\<lparr>as_worker := Check\<rparr>)"
| Flush: "as_client s i = Outside \<Longrightarrow> \<not> as_stop s \<Longrightarrow> async_event put drain Call s (client_at i Flush_Check s)"
| Flush_Wait: "as_client s i = Flush_Check \<Longrightarrow> as_q s \<noteq> [] \<Longrightarrow>
    async_event put drain Work s (client_at i Flush_Asleep s)"
| Spurious_Flusher: "as_client s i = Flush_Asleep \<Longrightarrow> async_event put drain Spurious s (client_at i Flush_Check s)"
| Flush_Return: "as_client s i = Flush_Check \<Longrightarrow> as_q s = [] \<Longrightarrow>
    async_event put drain Work s (client_at i Outside (s\<lparr>as_inner := drain (as_inner s)\<rparr>))"
| Destroy: "\<forall>j. as_client s j = Outside \<Longrightarrow> \<not> as_stop s \<Longrightarrow>
    async_event put drain Call s (client_at i Stop_Notify (s\<lparr>as_stop := True\<rparr>))"
| Stopped: "as_client s i = Stop_Notify \<Longrightarrow> async_event put drain Work s (client_at i Join (wake_worker s))"
| Joined: "as_client s i = Join \<Longrightarrow> as_worker s = Exited \<Longrightarrow>
    async_event put drain Work s (client_at i Destroyed (drain_queue put drain s))"

definition async_step ::
    "(Level \<Rightarrow> iovecs \<Rightarrow> 'w \<Rightarrow> 'w) \<Rightarrow> ('w \<Rightarrow> 'w) \<Rightarrow> 'w async \<Rightarrow> 'w async \<Rightarrow> bool" where
  "async_step put drain s s' \<longleftrightarrow> (\<exists>e. async_event put drain e s s')"

lemma async_stepI: "async_event put drain e s s' \<Longrightarrow> async_step put drain s s'"
  by (auto simp: async_step_def)

section \<open>The invariant\<close>

text \<open>The item the worker has taken from the queue and not written yet.\<close>

fun held_item :: "worker \<Rightarrow> item list" where
  "held_item (Hold it _) = [it]"
| "held_item _ = []"

definition fifo :: "'w async \<Rightarrow> bool" where
  "fifo s \<longleftrightarrow> as_written s @ held_item (as_worker s) @ as_q s = as_accepted s \<and> length (as_q s) \<le> as_cap s \<and>
     of_nat (as_calls s) = as_dropped s + of_nat (length (as_accepted s))"

text \<open>Once the destructor runs, its thread is the only one inside, and the worker leaves after the last item.\<close>

definition dying :: "client \<Rightarrow> bool" where
  "dying p \<longleftrightarrow> p = Stop_Notify \<or> p = Join \<or> p = Destroyed"

definition stopping :: "'w async \<Rightarrow> bool" where
  "stopping s \<longleftrightarrow>
     (if as_stop s then \<exists>i p. as_client s = (\<lambda>_. Outside)(i := p) \<and> dying p \<and> (p = Destroyed \<longrightarrow> as_worker s = Exited)
      else \<forall>i. \<not> dying (as_client s i)) \<and>
     (as_worker s = Exited \<longrightarrow> as_stop s \<and> as_q s = [])"

text \<open>Nobody sleeps through what it waits for.\<close>

definition worker_awake :: "'w async \<Rightarrow> bool" where
  "worker_awake s \<longleftrightarrow> (as_worker s = Asleep \<longrightarrow>
     as_q s = [] \<and> \<not> as_stop s \<or> (\<exists>i. as_client s i = Notify \<or> as_client s i = Stop_Notify))"

definition flushers_awake :: "'w async \<Rightarrow> bool" where
  "flushers_awake s \<longleftrightarrow> (\<forall>i. as_client s i = Flush_Asleep \<longrightarrow>
     as_q s \<noteq> [] \<or> as_worker s = Announce \<or> (\<exists>it. as_worker s = Hold it True))"

lemmas async_ops = client_at_def enqueue_def worker_check_def wake_worker_def wake_flushers_def inner_write_def
  drain_queue_def Let_def

lemma fold_inner_write:
  "fold (inner_write put) its s =
     s\<lparr>as_inner := fold (\<lambda>it. put (fst it) [snd it]) its (as_inner s), as_written := as_written s @ its\<rparr>"
  by (induction its arbitrary: s) (simp_all add: inner_write_def)

lemma fifo_event: "async_event put drain e s s' \<Longrightarrow> fifo s \<Longrightarrow> fifo s'"
  by (induction rule: async_event.induct)
    (auto simp: async_ops fifo_def fold_inner_write split: if_splits worker.splits)

text \<open>Steps that leave the clients alone, and steps of one client.\<close>

lemma stopping_same:
  assumes "stopping s" "as_client s' = as_client s" "as_stop s' = as_stop s"
    "as_worker s' = Exited \<longleftrightarrow> as_worker s = Exited \<or> as_stop s \<and> as_q s = []" "as_worker s' = Exited \<Longrightarrow> as_q s' = []"
  shows "stopping s'"
  using assms unfolding stopping_def by (auto split: if_splits)

lemma stopping_client:
  assumes "stopping s" "\<not> dying (as_client s i)" "as_client s i \<noteq> Outside \<or> \<not> as_stop s" "\<not> dying p"
    "as_client s' = (as_client s)(i := p)" "as_stop s' = as_stop s" "as_worker s' = Exited \<longleftrightarrow> as_worker s = Exited"
  shows "stopping s'"
proof (cases "as_stop s")
  case True
  then obtain j q where "as_client s = (\<lambda>_. Outside)(j := q)" "dying q" using assms(1) by (auto simp: stopping_def)
  then show ?thesis using assms(2,3) True by (auto split: if_splits)
next
  case False
  then show ?thesis using assms by (auto simp: stopping_def)
qed

lemma stopping_event: "async_event put drain e s s' \<Longrightarrow> stopping s \<Longrightarrow> stopping s'"
proof (induction rule: async_event.induct)
  case (Drop s i lvl iov it s')
  then show ?case by (intro stopping_same [OF Drop(5)]) (auto simp: enqueue_def stopping_def split: if_splits)
next
  case (Push s i lvl iov it s')
  then show ?case by (intro stopping_client [OF Push(5), of i Notify]) (auto simp: async_ops dying_def split: if_splits)
next
  case (Notified s i)
  then show ?case by (intro stopping_client [OF Notified(2), of i Outside]) (auto simp: async_ops dying_def)
next
  case (Spurious_Worker s)
  then show ?case by (auto simp: async_ops stopping_def)
next
  case (Run s)
  let ?s = "worker_check s"
  have "as_client ?s = as_client s" "as_stop ?s = as_stop s" "as_worker ?s = Exited \<longleftrightarrow> as_stop s \<and> as_q s = []"
    "as_worker ?s = Exited \<Longrightarrow> as_q ?s = []"
    by (auto simp: async_ops)
  with Run show ?case by (intro stopping_same [OF Run(2)]) auto
next
  case (Deliver s it e)
  then show ?case by (auto simp: async_ops stopping_def)
next
  case (Announced s)
  have "as_client (wake_flushers s) = as_client s" if stop: "as_stop s"
  proof -
    obtain i p where "as_client s = (\<lambda>_. Outside)(i := p)" "dying p" using stop Announced(2) by (auto simp: stopping_def)
    then have "as_client s j \<noteq> Flush_Asleep" for j by (cases "j = i") (auto simp: dying_def)
    then show ?thesis by (simp add: wake_flushers_def fun_eq_iff)
  qed
  then show ?case using Announced by (auto simp: async_ops stopping_def dying_def)
next
  case (Flush s i)
  then show ?case by (intro stopping_client [OF Flush(3), of i Flush_Check]) (auto simp: async_ops dying_def)
next
  case (Flush_Wait s i)
  then show ?case by (intro stopping_client [OF Flush_Wait(3), of i Flush_Asleep]) (auto simp: async_ops dying_def)
next
  case (Spurious_Flusher s i)
  then show ?case by (intro stopping_client [OF Spurious_Flusher(2), of i Flush_Check]) (auto simp: async_ops dying_def)
next
  case (Flush_Return s i)
  then show ?case by (intro stopping_client [OF Flush_Return(3), of i Outside]) (auto simp: async_ops dying_def)
next
  case (Destroy s i)
  have "as_client s = (\<lambda>_. Outside)" using Destroy(1) by auto
  then show ?case using Destroy by (auto simp: async_ops stopping_def dying_def)
next
  case (Stopped s i)
  then obtain j p where "as_client s = (\<lambda>_. Outside)(j := p)" "as_stop s"
    by (auto simp: stopping_def dying_def split: if_splits)
  moreover from this have "i = j" using Stopped(1) by (cases "i = j") auto
  ultimately have "as_client (client_at i Join (wake_worker s)) = (\<lambda>_. Outside)(i := Join)" "as_stop s"
    by (simp_all add: async_ops)
  moreover have "as_worker s = Exited \<longrightarrow> as_q s = []" using Stopped(2) by (simp add: stopping_def)
  ultimately show ?case by (auto simp: async_ops stopping_def dying_def)
next
  case (Joined s i)
  then obtain j p where "as_client s = (\<lambda>_. Outside)(j := p)" "as_stop s"
    by (auto simp: stopping_def dying_def split: if_splits)
  moreover from this have "i = j" using Joined(1) by (cases "i = j") auto
  ultimately have "as_client (client_at i Destroyed (drain_queue put drain s)) = (\<lambda>_. Outside)(i := Destroyed)" "as_stop s"
    by (simp_all add: async_ops fold_inner_write)
  then show ?case using Joined(2) by (auto simp: async_ops stopping_def dying_def fold_inner_write)
qed

lemma worker_awake_client:
  assumes "worker_awake s" "as_client s i \<noteq> Notify" "as_client s i \<noteq> Stop_Notify" "as_client s' = (as_client s)(i := p)"
    "as_worker s' = as_worker s" "as_stop s' = as_stop s" "as_q s' = as_q s"
  shows "worker_awake s'"
  unfolding worker_awake_def
proof
  assume "as_worker s' = Asleep"
  then have "as_q s = [] \<and> \<not> as_stop s \<or> (\<exists>j. as_client s j = Notify \<or> as_client s j = Stop_Notify)"
    using assms(1,5) by (simp add: worker_awake_def)
  then show "as_q s' = [] \<and> \<not> as_stop s' \<or> (\<exists>j. as_client s' j = Notify \<or> as_client s' j = Stop_Notify)"
  proof (elim disjE exE)
    fix j assume "as_client s j = Notify"
    moreover from this have "as_client s' j = as_client s j" using assms(2,4) by auto
    ultimately show ?thesis by metis
  next
    fix j assume "as_client s j = Stop_Notify"
    moreover from this have "as_client s' j = as_client s j" using assms(3,4) by auto
    ultimately show ?thesis by metis
  qed (simp add: assms)
qed

lemma worker_awake_event: "async_event put drain e s s' \<Longrightarrow> stopping s \<Longrightarrow> worker_awake s \<Longrightarrow> worker_awake s'"
proof (induction rule: async_event.induct)
  case (Announced s)
  show ?case by (simp add: worker_awake_def)
next
  case (Flush s i)
  show ?case by (rule worker_awake_client [OF Flush(4), of i _ Flush_Check]) (use Flush in \<open>auto simp: async_ops\<close>)
next
  case (Flush_Wait s i)
  show ?case by (rule worker_awake_client [OF Flush_Wait(4), of i _ Flush_Asleep]) (use Flush_Wait in \<open>auto simp: async_ops\<close>)
next
  case (Spurious_Flusher s i)
  show ?case by (rule worker_awake_client [OF Spurious_Flusher(3), of i _ Flush_Check]) (use Spurious_Flusher in \<open>auto simp: async_ops\<close>)
next
  case (Flush_Return s i)
  show ?case by (rule worker_awake_client [OF Flush_Return(4), of i _ Outside]) (use Flush_Return in \<open>auto simp: async_ops\<close>)
qed (auto simp: async_ops worker_awake_def stopping_def fold_inner_write split: if_splits)

lemma flushers_awake_event: "async_event put drain e s s' \<Longrightarrow> stopping s \<Longrightarrow> flushers_awake s \<Longrightarrow> flushers_awake s'"
proof (induction rule: async_event.induct)
  case (Announced s)
  then show ?case by (simp add: async_ops flushers_awake_def)
next
  case (Joined s i)
  then have "as_q s = []" by (simp add: stopping_def)
  then show ?case using Joined by (auto simp: async_ops flushers_awake_def)
qed (auto simp: async_ops flushers_awake_def split: if_splits)

definition async_ok :: "'w async \<Rightarrow> bool" where
  "async_ok s \<longleftrightarrow> fifo s \<and> stopping s \<and> worker_awake s \<and> flushers_awake s"

lemma async_ok_event: "async_event put drain e s s' \<Longrightarrow> async_ok s \<Longrightarrow> async_ok s'"
  unfolding async_ok_def using fifo_event stopping_event worker_awake_event flushers_awake_event by blast

lemma async_reachable: "(async_step put drain)\<^sup>*\<^sup>* (new_async inner cap) s \<Longrightarrow> async_ok s"
proof (induction rule: rtranclp_induct)
  case base
  show ?case
    by (simp add: async_ok_def fifo_def stopping_def dying_def worker_awake_def flushers_awake_def new_async_def)
next
  case (step s s')
  then show ?case using async_ok_event by (auto simp: async_step_def)
qed

lemma cap_event: "async_event put drain e s s' \<Longrightarrow> as_cap s' = as_cap s"
  by (induction rule: async_event.induct) (auto simp: async_ops fold_inner_write split: if_splits)

lemma cap_reachable: "(async_step put drain)\<^sup>*\<^sup>* (new_async inner cap) s \<Longrightarrow> as_cap s = cap"
  by (induction rule: rtranclp_induct) (auto simp: new_async_def async_step_def cap_event)

section \<open>The inner sink\<close>

context lossless_sink begin

text \<open>A lossless sink behind the wrapper holds what was written to it, whatever else happens.\<close>

definition behind :: "byte list \<Rightarrow> 'a async \<Rightarrow> bool" where
  "behind start a \<longleftrightarrow> inv (as_inner a) \<and>
     held (as_inner a) = start @ concat (map (\<lambda>it. payload (fst it) [snd it]) (as_written a))"

lemma behind_write: "(\<And>b. fits [b]) \<Longrightarrow> behind start a \<Longrightarrow> behind start (inner_write put it a)"
  by (simp add: behind_def inner_write_def inv_write keeps)

lemma behind_drain: "(\<And>b. fits [b]) \<Longrightarrow> behind start a \<Longrightarrow> behind start (drain_queue put flush a)"
proof -
  assume fits: "\<And>b. fits [b]" and a: "behind start a"
  have "behind start (fold (inner_write put) its a)" for its
    using a by (induction its arbitrary: a) (simp_all add: behind_write [OF fits])
  then show ?thesis by (simp add: drain_queue_def Let_def behind_def inv_flush held_flush)
qed

lemma behind_cong: "as_inner a' = as_inner a \<Longrightarrow> as_written a' = as_written a \<Longrightarrow> behind start a \<Longrightarrow> behind start a'"
  by (simp add: behind_def)

lemma behind_event:
  assumes "async_event put flush e a a'" "\<And>b. fits [b]" "behind start a"
  shows "behind start a'"
  using assms(1,3)
proof (induction rule: async_event.induct)
  case (Deliver a it e)
  then show ?case using behind_write [OF assms(2), of start a it] by (simp add: behind_def)
next
  case (Flush_Return a i)
  then show ?case by (simp add: behind_def client_at_def inv_flush held_flush)
next
  case (Joined a i)
  then show ?case using behind_drain [OF assms(2), of start a] by (simp add: behind_def client_at_def)
qed (auto simp: async_ops behind_def split: if_splits)

lemma behind_reachable:
  assumes "(async_step put flush)\<^sup>*\<^sup>* (new_async inner cap) a" "\<And>b. fits [b]" "inv inner"
  shows "behind (held inner) a"
  using assms(1)
proof (induction rule: rtranclp_induct)
  case base
  then show ?case using assms(3) by (simp add: behind_def new_async_def)
next
  case (step a a')
  then show ?case using behind_event [OF _ assms(2)] by (auto simp: async_step_def)
qed

end

section \<open>Progress\<close>

definition disk1 :: os where
  "disk1 = disk0\<lparr>fds := [1 \<mapsto> \<lparr>inode = 0, offset = 0, o_append = True\<rparr>]\<rparr>"

lemma disk1_ok: "fd_ok 1 disk1" "benign disk1" "fd_contents 1 disk1 = ''old''"
  by (auto simp: disk1_def disk0_def fd_ok_def at_end_def benign_def fd_contents_def)

lemma async_item_concat: "async_item lvl iov = Some (lvl, concat iov)"
  using iov_serialize_fits [of 0 iov "replicate (length (concat iov)) (CHR 0x00)"]
  by (simp add: async_item_def iov_serialize_def overwrite_def)

text \<open>The lines accepted and not written.\<close>

definition undelivered :: "'w async \<Rightarrow> item list" where
  "undelivered s = held_item (as_worker s) @ as_q s"

lemma undelivered_accepted: "async_ok s \<Longrightarrow> undelivered s = [] \<Longrightarrow> as_written s = as_accepted s \<and> as_q s = []"
  by (auto simp: async_ok_def fifo_def undelivered_def)

text \<open>
  What is left to do when no call starts: every step of work brings it down. \<open>I\<close> has the threads that are
  inside a call; an announcement may wake all of them, but there are as many as lines at most.
\<close>

definition busy :: "'w async \<Rightarrow> nat set" where
  "busy s = {i. as_client s i \<noteq> Outside}"

fun worker_weight :: "worker \<Rightarrow> nat" where
  "worker_weight Check = 1"
| "worker_weight (Hold it e) = 3"
| "worker_weight Announce = 2"
| "worker_weight _ = 0"

fun client_weight :: "client \<Rightarrow> nat" where
  "client_weight Notify = 2"
| "client_weight Stop_Notify = 3"
| "client_weight Join = 1"
| "client_weight _ = 0"

fun flush_weight :: "client \<Rightarrow> nat" where
  "flush_weight Flush_Check = 2"
| "flush_weight Flush_Asleep = 1"
| "flush_weight _ = 0"

definition duties :: "nat set \<Rightarrow> 'w async \<Rightarrow> nat" where
  "duties I s = 3 * length (as_q s) + worker_weight (as_worker s) + (\<Sum>i\<in>I. client_weight (as_client s i))"

definition flushing :: "nat set \<Rightarrow> 'w async \<Rightarrow> nat" where
  "flushing I s = (\<Sum>i\<in>I. flush_weight (as_client s i))"

definition work_left :: "nat set \<Rightarrow> 'w async \<Rightarrow> nat" where
  "work_left I s = duties I s * (2 * card I + 1) + flushing I s"

lemma sum_client:
  fixes f :: "client \<Rightarrow> nat"
  assumes "finite I" "i \<in> I"
  shows "(\<Sum>j\<in>I. f ((c(i := p)) j)) + f (c i) = (\<Sum>j\<in>I. f (c j)) + f p"
proof -
  have "(\<Sum>j\<in>I - {i}. f ((c(i := p)) j)) = (\<Sum>j\<in>I - {i}. f (c j))" by (rule sum.cong) auto
  then show ?thesis
    using sum.remove [OF assms, of "\<lambda>j. f ((c(i := p)) j)"] sum.remove [OF assms, of "\<lambda>j. f (c j)"] by simp
qed

lemma flushing_bound: "flushing I s \<le> 2 * card I"
proof -
  have "flush_weight p \<le> 2" for p by (cases p) simp_all
  then show ?thesis unfolding flushing_def using sum_bounded_above [of I "\<lambda>i. flush_weight (as_client s i)" 2] by simp
qed

lemma work_left_duties: "duties I s' < duties I s \<Longrightarrow> work_left I s' < work_left I s"
proof -
  assume "duties I s' < duties I s"
  then have "Suc (duties I s') * (2 * card I + 1) \<le> duties I s * (2 * card I + 1)" by (intro mult_le_mono1) simp
  then show ?thesis using flushing_bound [of I s'] by (simp add: work_left_def)
qed

lemma wake_worker_frame:
  "as_client (wake_worker s) = as_client s" "as_q (wake_worker s) = as_q s" "as_worker (wake_worker s) = (if as_worker s = Asleep then Check else as_worker s)"
  by (simp_all add: wake_worker_def)

lemma work_left_flushing: "duties I s' = duties I s \<Longrightarrow> flushing I s' < flushing I s \<Longrightarrow> work_left I s' < work_left I s"
  by (simp add: work_left_def)

lemma work_event:
  assumes "async_event put drain Work s s'" "finite I" "busy s \<subseteq> I"
  shows "work_left I s' < work_left I s"
  using assms(1)
proof cases
  case (Notified i)
  have "i \<in> I" using Notified assms(3) by (auto simp: busy_def)
  from sum_client [OF assms(2) this, of client_weight "as_client s" Outside] Notified show ?thesis
    by (intro work_left_duties) (auto simp: duties_def client_at_def wake_worker_frame)
next
  case Run
  then show ?thesis
    by (intro work_left_duties) (auto simp: duties_def worker_check_def Let_def neq_Nil_conv)
next
  case (Deliver it e)
  then show ?thesis by (intro work_left_duties) (simp add: duties_def inner_write_def)
next
  case Announced
  have "client_weight (as_client (wake_flushers s) i) = client_weight (as_client s i)" for i
    by (simp add: wake_flushers_def)
  then show ?thesis using Announced by (intro work_left_duties) (simp add: duties_def, simp add: wake_flushers_def)
next
  case (Flush_Wait i)
  have i: "i \<in> I" using Flush_Wait assms(3) by (auto simp: busy_def)
  from sum_client [OF assms(2) i, of client_weight "as_client s" Flush_Asleep]
    sum_client [OF assms(2) i, of flush_weight "as_client s" Flush_Asleep] Flush_Wait show ?thesis
    by (intro work_left_flushing) (simp_all add: duties_def flushing_def client_at_def)
next
  case (Flush_Return i)
  have i: "i \<in> I" using Flush_Return assms(3) by (auto simp: busy_def)
  from sum_client [OF assms(2) i, of client_weight "as_client s" Outside]
    sum_client [OF assms(2) i, of flush_weight "as_client s" Outside] Flush_Return show ?thesis
    by (intro work_left_flushing) (simp_all add: duties_def flushing_def client_at_def)
next
  case (Stopped i)
  have "i \<in> I" using Stopped assms(3) by (auto simp: busy_def)
  from sum_client [OF assms(2) this, of client_weight "as_client s" Join] Stopped show ?thesis
    by (intro work_left_duties) (auto simp: duties_def client_at_def wake_worker_frame)
next
  case (Joined i)
  have "i \<in> I" using Joined assms(3) by (auto simp: busy_def)
  from sum_client [OF assms(2) this, of client_weight "as_client s" Destroyed] Joined show ?thesis
    by (intro work_left_duties) (auto simp: duties_def client_at_def drain_queue_def fold_inner_write Let_def)
qed

lemma work_frame: "async_event put drain Work s s' \<Longrightarrow> busy s' \<subseteq> busy s \<and> as_accepted s' = as_accepted s"
  by (erule async_event.cases) (auto simp: busy_def async_ops fold_inner_write split: if_splits)

lemma work_bounded:
  assumes "(async_event put drain Work ^^ k) s s'" "finite I" "busy s \<subseteq> I"
  shows "k + work_left I s' \<le> work_left I s \<and> busy s' \<subseteq> I \<and> as_accepted s' = as_accepted s"
  using assms(1)
proof (induction k arbitrary: s')
  case (Suc k)
  then obtain s1 where s1: "(async_event put drain Work ^^ k) s s1" "async_event put drain Work s1 s'" by auto
  from Suc.IH [OF s1(1)] work_event [OF s1(2) assms(2)] work_frame [OF s1(2)] show ?case by auto
qed (simp add: assms(3))

lemma busy_finite: "(async_step put drain)\<^sup>*\<^sup>* (new_async inner cap) s \<Longrightarrow> finite (busy s)"
proof (induction rule: rtranclp_induct)
  case base
  show ?case by (simp add: busy_def new_async_def)
next
  case (step s s')
  then obtain e where "async_event put drain e s s'" by (auto simp: async_step_def)
  then have "\<exists>i. busy s' \<subseteq> insert i (busy s)"
    by (cases rule: async_event.cases) (auto simp: busy_def async_ops fold_inner_write split: if_splits)
  then show ?case using step.IH by (meson finite_insert finite_subset)
qed

text \<open>When no thread can go on, nobody waits in vain.\<close>

lemma no_work_left:
  assumes ok: "async_ok s" and stuck: "\<nexists>s'. async_event put drain Work s s'"
  shows "undelivered s = [] \<and> (as_client s i = Outside \<or> as_client s i = Destroyed)"
proof -
  have no: "\<not> async_event put drain Work s s'" for s' using stuck by blast
  have idle: "as_worker s = Asleep \<or> as_worker s = Exited"
    using no async_event.Run [of s put drain] async_event.Deliver [of s _ _ put drain] async_event.Announced [of s put drain]
    by (cases "as_worker s") blast+
  have quiet: "as_client s j \<noteq> Notify" "as_client s j \<noteq> Stop_Notify" "as_client s j \<noteq> Flush_Check" for j
    using no async_event.Notified [of s j put drain] async_event.Stopped [of s j put drain]
      async_event.Flush_Wait [of s j put drain] async_event.Flush_Return [of s j put drain] by blast+
  have q: "as_q s = []" using ok idle quiet by (auto simp: async_ok_def worker_awake_def stopping_def)
  have join: "as_client s i \<noteq> Join"
  proof
    assume j: "as_client s i = Join"
    then have "as_worker s \<noteq> Exited" using no async_event.Joined [of s i put drain] by blast
    then have "\<not> as_stop s" using idle ok quiet by (auto simp: async_ok_def worker_awake_def)
    then show False using j ok by (auto simp: async_ok_def stopping_def dying_def)
  qed
  have "as_client s i \<noteq> Flush_Asleep" using ok idle q by (auto simp: async_ok_def flushers_awake_def)
  then show ?thesis using quiet [of i] join idle q by (cases "as_client s i") (auto simp: undelivered_def)
qed

section \<open>Properties\<close>

text \<open>
  C12: An asynchronous wrapper around a descriptor sink, under every interleaving of the client threads,
  the worker, \<open>flush\<close> and the destructor: every line given to \<open>write\<close> is accepted or counted as dropped
  (modulo \<open>2 ^ 64\<close>), the queue stays within its capacity, the accepted lines reach the file once each and
  in the order of acceptance, those not yet written being the worker's and the queue's, and when the
  destructor is done the file has all of them. A coloured line arrives with its colour already reset.
\<close>

theorem async_fifo:
  assumes "(async_step (fd_write k) (fd_flush k))\<^sup>*\<^sup>* (new_async os0 cap) s" "0 \<le> fs_fd k" "fd_ok (fs_fd k) os0" "benign os0"
  shows "of_nat (as_calls s) = as_dropped s + of_nat (length (as_accepted s)) \<and> length (as_q s) \<le> cap \<and>
    as_written s @ held_item (as_worker s) @ as_q s = as_accepted s \<and>
    fd_contents (fs_fd k) (as_inner s) = fd_contents (fs_fd k) os0 @
      concat (map (\<lambda>(lvl, b). if fs_colored k then level_color lvl @ level_color_reset @ b else b) (as_written s)) \<and>
    (as_client s i = Destroyed \<longrightarrow> as_written s = as_accepted s)"
proof -
  have ok: "async_ok s" by (rule async_reachable [OF assms(1)])
  have cap: "as_cap s = cap" by (rule cap_reachable [OF assms(1)])
  have "fd_sink.behind k (fd_contents (fs_fd k) os0) s"
    using assms by (intro fd_sink.behind_reachable [of k os0 cap s]) (simp_all add: fd_fits_def IOV_MAX_def fd_inv_def)
  moreover have "fd_payload k lvl [b] = (if fs_colored k then level_color lvl @ level_color_reset @ b else b)" for lvl b
    by (simp add: fd_payload_def)
  moreover have "as_written s = as_accepted s" if "as_client s i = Destroyed"
  proof -
    have "as_stop s \<and> as_worker s = Exited"
      using ok that by (auto simp: async_ok_def stopping_def dying_def split: if_splits)
    then show ?thesis using ok by (auto simp: async_ok_def fifo_def stopping_def)
  qed
  ultimately have "fd_contents (fs_fd k) (as_inner s) = fd_contents (fs_fd k) os0 @
      concat (map (\<lambda>(lvl, b). if fs_colored k then level_color lvl @ level_color_reset @ b else b) (as_written s))"
    and "as_client s i = Destroyed \<longrightarrow> as_written s = as_accepted s"
    by (simp_all add: fd_sink.behind_def case_prod_unfold)
  then show ?thesis using ok cap by (simp add: async_ok_def fifo_def)
qed

theorem async_fifo_witness:
  "\<exists>s. (async_step (fd_write (make_stdout_sink False)) (fd_flush (make_stdout_sink False)))\<^sup>*\<^sup>* (new_async disk1 1) s \<and>
     fd_contents 1 (as_inner s) = ''oldab''"
proof -
  let ?P = "fd_write (make_stdout_sink False)" and ?F = "fd_flush (make_stdout_sink False)"
  let ?s1 = "client_at 0 Notify (snd (enqueue (INFO, ''ab'') (new_async disk1 1)))"
  let ?s2 = "worker_check ?s1"
  let ?s3 = "(inner_write ?P (INFO, ''ab'') ?s2)\<lparr>as_worker := (if True then Announce else Check)\<rparr>"
  have 1: "async_step ?P ?F (new_async disk1 1) ?s1"
    by (rule async_stepI, rule async_event.Push [where lvl = INFO and iov = "[''a'', ''b'']" and it = "(INFO, ''ab'')"])
      (simp_all add: async_item_concat new_async_def enqueue_def)
  have 2: "async_step ?P ?F ?s1 ?s2" by (rule async_stepI, rule async_event.Run) (simp add: new_async_def enqueue_def client_at_def)
  have 3: "async_step ?P ?F ?s2 ?s3"
    by (rule async_stepI, rule async_event.Deliver) (simp add: new_async_def enqueue_def client_at_def worker_check_def)
  have r: "(async_step ?P ?F)\<^sup>*\<^sup>* (new_async disk1 1) ?s3"
    by (rule converse_rtranclp_into_rtranclp [of "async_step ?P ?F", OF 1 converse_rtranclp_into_rtranclp [of "async_step ?P ?F",
        OF 2 r_into_rtranclp [of "async_step ?P ?F", OF 3]]])
  have "as_written ?s3 = [(INFO, ''ab'')]"
    by (simp add: new_async_def enqueue_def client_at_def worker_check_def inner_write_def)
  then have "fd_contents 1 (as_inner ?s3) = ''oldab''"
    using async_fifo [OF r] disk1_ok by (simp add: make_stdout_sink_def)
  with r show ?thesis by blast
qed

text \<open>
  C31: No wakeup is lost. From every reachable state, let the threads go on with what they are doing, in
  whatever order, with no new calls and with no wakeups but those of \<open>notify_one\<close> and \<open>notify_all\<close>:
  after a bounded number of steps nothing can go on, and then every accepted line is written and every call
  of \<open>write\<close>, \<open>flush\<close> and the destructor has returned.
\<close>

theorem async_progress:
  assumes "(async_step put drain)\<^sup>*\<^sup>* (new_async inner cap) s"
  shows "\<exists>n. \<forall>k s'. (async_event put drain Work ^^ k) s s' \<longrightarrow> k \<le> n \<and>
    ((\<nexists>s''. async_event put drain Work s' s'') \<longrightarrow>
       as_written s' = as_accepted s \<and> as_q s' = [] \<and> (\<forall>i. as_client s' i = Outside \<or> as_client s' i = Destroyed))"
proof -
  have ok: "async_ok s" by (rule async_reachable [OF assms])
  have "k \<le> work_left (busy s) s \<and> ((\<nexists>s''. async_event put drain Work s' s'') \<longrightarrow>
      as_written s' = as_accepted s \<and> as_q s' = [] \<and> (\<forall>i. as_client s' i = Outside \<or> as_client s' i = Destroyed))"
    if k: "(async_event put drain Work ^^ k) s s'" for k s'
  proof -
    have "async_ok s'" using k ok by (induction k arbitrary: s') (auto dest: async_ok_event)
    then show ?thesis
      using work_bounded [OF k busy_finite [OF assms] order_refl] no_work_left [of s' put drain] undelivered_accepted [of s']
      by auto
  qed
  then show ?thesis by blast
qed

theorem async_progress_witness:
  "\<exists>s n. (async_step (\<lambda>_ iov w. w @ concat iov) id)\<^sup>*\<^sup>* (new_async [] 1) s \<and> as_worker s = Asleep \<and> as_q s = [(INFO, ''ab'')] \<and>
     (\<forall>k s'. (async_event (\<lambda>_ iov w. w @ concat iov) id Work ^^ k) s s' \<longrightarrow> k \<le> n \<and>
        ((\<nexists>s''. async_event (\<lambda>_ iov w. w @ concat iov) id Work s' s'') \<longrightarrow> as_written s' = [(INFO, ''ab'')]))"
proof -
  let ?P = "\<lambda>_ iov w. w @ concat iov"
  let ?s1 = "worker_check (new_async [] 1)"
  let ?s2 = "client_at 0 Notify (snd (enqueue (INFO, ''ab'') ?s1))"
  have 1: "async_step ?P id (new_async [] 1) ?s1" by (rule async_stepI, rule async_event.Run) (simp add: new_async_def)
  have 2: "async_step ?P id ?s1 ?s2"
    by (rule async_stepI, rule async_event.Push [where lvl = INFO and iov = "[''a'', ''b'']" and it = "(INFO, ''ab'')"])
      (simp_all add: async_item_concat new_async_def enqueue_def worker_check_def)
  have r: "(async_step ?P id)\<^sup>*\<^sup>* (new_async [] 1) ?s2"
    by (rule converse_rtranclp_into_rtranclp [of "async_step ?P id", OF 1 r_into_rtranclp [of "async_step ?P id", OF 2]])
  have s2: "as_worker ?s2 = Asleep" "as_q ?s2 = [(INFO, ''ab'')]" "as_accepted ?s2 = [(INFO, ''ab'')]"
    by (simp_all add: new_async_def enqueue_def client_at_def worker_check_def)
  show ?thesis using async_progress [OF r] r s2 by metis
qed

text \<open>
  C40: \<open>flush\<close> of the wrapper can return, the inner sink flushed, while a line accepted before it is still
  unwritten: the queue is empty as soon as the worker has taken the line, before it writes it.
\<close>

theorem async_flush_returns_early:
  "\<exists>s s'. (async_step put drain)\<^sup>*\<^sup>* (new_async inner (Suc n)) s \<and> as_client s 1 = Flush_Check \<and>
     async_step put drain s s' \<and> as_client s' 1 = Outside \<and> as_inner s' = drain inner \<and>
     as_accepted s' = [(lvl, concat iov)] \<and> as_written s' = []"
proof -
  let ?s1 = "client_at 0 Notify (snd (enqueue (lvl, concat iov) (new_async inner (Suc n))))"
  let ?s2 = "worker_check ?s1"
  let ?s3 = "client_at 1 Flush_Check ?s2"
  let ?s4 = "client_at 1 Outside (?s3\<lparr>as_inner := drain (as_inner ?s3)\<rparr>)"
  have 1: "async_step put drain (new_async inner (Suc n)) ?s1"
    by (rule async_stepI, rule async_event.Push [where lvl = lvl and iov = iov and it = "(lvl, concat iov)"])
      (simp_all add: async_item_concat new_async_def enqueue_def)
  have 2: "async_step put drain ?s1 ?s2" by (rule async_stepI, rule async_event.Run) (simp add: new_async_def enqueue_def client_at_def)
  have 3: "async_step put drain ?s2 ?s3"
    by (rule async_stepI, rule async_event.Flush) (simp_all add: new_async_def enqueue_def client_at_def worker_check_def)
  have 4: "async_step put drain ?s3 ?s4"
    by (rule async_stepI, rule async_event.Flush_Return) (simp_all add: new_async_def enqueue_def client_at_def worker_check_def)
  have r: "(async_step put drain)\<^sup>*\<^sup>* (new_async inner (Suc n)) ?s3"
    by (rule converse_rtranclp_into_rtranclp [of "async_step put drain", OF 1 converse_rtranclp_into_rtranclp [of "async_step put drain",
        OF 2 r_into_rtranclp [of "async_step put drain", OF 3]]])
  show ?thesis
    by (rule exI [of _ ?s3], rule exI [of _ ?s4], intro conjI, rule r)
      (simp_all add: 4 [simplified], simp_all add: new_async_def enqueue_def client_at_def worker_check_def)
qed

end
