(* ===== verification/Spec2Isabelle.thy ===== *)
theory Spec2Isabelle
  imports Elog_Level Elog_Bench_Itoa Elog_Format Elog_Diy Elog_Values_Laws Elog_Registry Elog_Dedup_Threads Elog_Multi_Logger Elog_Custom_Type Elog_Async
begin

text \<open>
  A verification library for ELog, a logging library in C++. Paths are relative to the root of the
  repository.

  \<^bold>\<open>The program.\<close> A macro of \<open>include/elog/macros.hpp\<close> checks the level of a logger, asks the rate
  limiter of the call site (\<open>include/elog/aggregate.hpp\<close>, \<open>src/aggregate.cpp\<close>), and calls \<open>emit_f\<close>
  (\<open>include/elog/emit.hpp\<close>). That lets the prologue (\<open>src/prologue.cpp\<close>) and the renderers of the
  arguments (\<open>include/elog/render.hpp\<close>, \<open>include/elog/render_extra.hpp\<close>, \<open>src/render.cpp\<close>,
  \<open>src/render_extra.cpp\<close>, \<open>src/grisu2.cpp\<close>) write into the 4 KiB scratch buffer of the thread, puts their
  results between the literals of the format (parsed at compile time, \<open>include/elog/format.hpp\<close>) as an
  array of iovecs, and gives the array to \<open>Logger::emit\<close> (\<open>src/logger.cpp\<close>), which writes it to the
  logger's sinks and forwards it to the loggers it is tied to. Sinks write with \<open>writev\<close>
  (\<open>src/sink.cpp\<close>), through a buffer (\<open>src/buffered_file_sink.cpp\<close>), or into rotated files
  (\<open>src/rotating_sink.cpp\<close>); the examples add one with a queue and a thread. Loggers are found by name
  in a registry (\<open>src/registry.cpp\<close>).

  \<^bold>\<open>Conventions.\<close> Machine integers are words of their width, or integers with the check written out
  where overflow is undefined: so for the product of \<open>LOG_..._EVERY_N_SEC\<close> and the sum \<open>now + period_ns\<close>
  of \<open>EveryTimeState\<close>, which does overflow for the longest periods (\<open>every_time_overflow\<close>,
  \<open>long_period_overflows\<close>). A reading of the steady clock is taken to be a count of nanoseconds from 0
  to \<open>2 ^ 63 - 1\<close>, so differences of two readings need no check. \<open>None\<close> is undefined behaviour (an access outside an array, a dangling
  pointer, signed overflow), a loop out of fuel, or a format that does not compile; so \<open>Some\<close> in a
  conclusion says that none of these happens. Texts are lists of bytes. State is passed explicitly;
  where threads interleave, the atomic accesses or critical sections are the steps of an inductive
  relation. Components meet in locales, interpreted on the model's own functions.

  \<^bold>\<open>Theories\<close>, from the bottom.

  \<^item> \<open>Elog_Prelude\<close>: machine types, overwriting a range of a buffer, positional numerals.
  \<^item> \<open>Elog_Level\<close>: \<open>include/elog/level.hpp\<close>, \<open>src/level.cpp\<close>. Levels, their order, names, colours.
  \<^item> \<open>Elog_Memory\<close>: \<open>Iov\<close>, \<open>string_ref\<close>, the scratch buffer with its cursor (\<open>rbuf\<close>), the pool of
    \<open>IovScratchCtx\<close>; locale \<open>renderer\<close> is the contract of the \<open>elog_render\<close> customization point (the
    bytes below the cursor stay, the result lies in the buffer or is borrowed), \<open>direct_renderer\<close>
    adds that with room left the result is exactly the text meant.
  \<^item> \<open>Elog_Itoa\<close>: every integer renderer equals the reference numeral, and the numeral reads back.
    \<open>Elog_Bench_Itoa\<close>: the alternatives that \<open>benchmarks/bench_itoa.cpp\<close> compares agree with it.
  \<^item> \<open>Elog_Grisu\<close>: \<open>src/grisu2.cpp\<close>, bit for bit. The proof that it is right: \<open>Elog_Diy\<close> (64-bit
    multiplication rounds to nearest, normalization), \<open>Elog_Powers\<close> (each of the 87 cached powers of
    ten is within half a unit; the index computed in floating point is in the table and brings the
    exponent into the range digit generation needs), \<open>Elog_Digits\<close> (digit generation on naturals:
    the digits stay in the interval of width \<open>delta\<close>, at most 17 are made, the digit buffer is large
    enough), \<open>Elog_Grisu_Laws\<close> (no word operation wraps; the decimal lies between the boundaries),
    \<open>Elog_Doubles\<close> (value and neighbours of an IEEE double), \<open>Elog_Decimal\<close> (a reader of decimal text;
    \<open>format_double\<close> prints every bit pattern in at most 25 characters, and all but the normal powers
    of two read back; \<open>power_of_two_misread\<close> exhibits one of those that does not).
  \<^item> \<open>Elog_Render\<close>, \<open>Elog_Render_Laws\<close>: the other renderers of single values and the helpers of
    containers. \<open>Elog_Values\<close>, \<open>Elog_Values_Laws\<close>: the overload set as one recursive function
    \<open>elog_render\<close> on the values that can be logged, the text \<open>shown\<close> it should have, and the contract
    by induction on values; a user type with its own overload (\<open>VUser\<close>) may stand anywhere in a value.
    \<open>Elog_Cursor\<close>: the cursor of the scratch buffer stays inside it, but for time points.
    \<open>Elog_Custom\<close>: the user types of \<open>examples/custom_type.cpp\<close> keep the contract.
  \<^item> \<open>Elog_Format\<close>: \<open>count_pieces\<close>, \<open>count_lit_chars\<close>, \<open>make_spec\<close> with their arrays and 16-bit fields,
    compared with a grammar-like reading \<open>scan\<close> of the format.
  \<^item> \<open>Elog_Prologue\<close>: \<open>default_prologue\<close> with its thread-local caches, which cannot be seen.
  \<^item> \<open>Elog_Posix\<close>: the file system and the system calls, with schedules of interruptions, partial
    writes and failures. \<open>Elog_Sink\<close>: \<open>writev_all\<close> and the descriptor sinks; locale \<open>sink\<close> is what a
    logger may expect of \<open>Sink\<close>, \<open>lossless_sink\<close> that the bytes held are those written.
    \<open>Elog_Buffered\<close>: the buffered file sink and \<open>include/elog/sink_async.hpp\<close>. \<open>Elog_Rotating\<close>: the
    rotating sink refines a bounded chain of files.
  \<^item> \<open>Elog_Logger\<close>: loggers in a heap, \<open>emit\<close> and \<open>flush\<close> through ties with the set of visited loggers;
    locale \<open>own_action\<close> is what the traversal needs of the action at one logger. \<open>Elog_Registry\<close>: the
    registry, the default logger, and the steps of a program that uses them.
  \<^item> \<open>Elog_Gates\<close>: the counters (locale \<open>counting_gate\<close>), the compare-and-swap loop of \<open>EveryTimeState\<close>
    under every interleaving, with the overflow of its sum, and sampling. \<open>Elog_Burst\<close>: the token bucket with rounded arithmetic (locale
    \<open>rounding\<close>). \<open>Elog_Dedup\<close>: \<open>DedupState\<close> for one thread, a run-length encoder of the sequence of
    sites; \<open>Elog_Dedup_Threads\<close>: for any number of threads.
  \<^item> \<open>Elog_Emit\<close>: the two overloads of \<open>emit_f\<close>. \<open>Elog_Macros\<close>: every macro as level check, gate and
    emission; a line given to one file. \<open>Elog_Programs\<close>: \<open>examples/basic.cpp\<close> and
    \<open>examples/aggregation.cpp\<close>; \<open>Elog_Multi_Logger\<close>: \<open>examples/multi_logger.cpp\<close>; \<open>Elog_Custom_Type\<close>:
    \<open>examples/custom_type.cpp\<close>, whose lines take the path of packs.
  \<^item> \<open>Elog_Async\<close>: the asynchronous wrapper of \<open>examples/async_sink_skeleton.cpp\<close>, as events of three
    kinds: new calls, work already begun, and spurious wakeups. Safety holds with all three, and progress
    without the third, that is by the notifications of the code alone.
  \<^item> This theory: call sites of the default logger, from the macro to the bytes of a file.

  \<^bold>\<open>Bounds and fuel.\<close> \<open>emit\<close> and \<open>flush\<close> recurse through a graph and take fuel; \<open>emit_fans_out\<close> and
  \<open>flush_drains_reachable\<close> prove that one unit for each logger is enough. Every other loop has a
  termination proof, but for three of \<open>src/grisu2.cpp\<close>, partial functions that are proved to return for
  every double (\<open>double_prints\<close>). The room a
  line needs is a hypothesis of \<open>log_line\<close>: the texts and 32 bytes within 4096; without it the renderers
  truncate or, as \<open>unchecked_write\<close> shows, write outside. Formats have at most 65535 literal characters
  and arguments, lines at most \<open>IOV_MAX\<close> vectors. Counters of sites are exact up to \<open>2 ^ 64\<close> calls.
  Lines of \<open>EveryTimeState\<close> are spaced while the clock is more than a period below \<open>2 ^ 63\<close> nanoseconds;
  the programs of the examples assume a clock within its first 146 years (\<open>steady_ok\<close>).

  \<^bold>\<open>Parameters.\<close> The record \<open>renv\<close> holds what the C library computes: the text of \<open>%.*f\<close> and \<open>%Lg\<close>, the
  broken-down local time, thread numbers, and the overloads of user types, with the contract \<open>user_ok\<close>.
  User prologues and packs are functions with a contract.
  Readings of clocks, the seed of a thread's generator and the schedules of the kernel are inputs.

  \<^bold>\<open>Not modelled.\<close> Reorderings that \<open>memory_order_relaxed\<close> permits beyond interleaving; exhaustion of
  memory where it ends the program; concurrent mutation of a logger's sinks while it emits, which the
  code forbids; \<open>include/elog/elog.hpp\<close>, which only includes; the function \<open>main\<close> of
  \<open>examples/async_sink_skeleton.cpp\<close>, the tests, the timing loops of the
  benchmarks with their null sinks and calls of other logging libraries, and the build files: they only
  call the code modelled here.
\<close>

section \<open>A concrete program\<close>

definition sample_runtime :: runtime where
  "sample_runtime = \<lparr>rt_env = sample_env2, rt_prologues = \<lambda>_ _ _. None, rt_packs = \<lambda>_ _ _. None, rt_fuel = 1\<rparr>"

definition sample_site :: site where
  "sample_site = \<lparr>st_addr = 9, st_file = ''src/net/io.cpp'', st_line = 42\<rparr>"

definition sample_file :: fd_sink where
  "sample_file = \<lparr>fs_fd = 3, fs_owns = True, fs_colored = False\<rparr>"

definition sample_app :: "unit app" where
  "sample_app = \<lparr>
     ap_proc = \<lparr>reg_owned = Map.empty, reg_all = [''default'' \<mapsto> 1],
       wld = \<lparr>heap = [1 \<mapsto> (new_logger ''default'')\<lparr>lg_sinks := [Fd sample_file]\<rparr>], sys = disk0, visited = {}\<rparr>,
       next_addr = 2, default_instance = Some 1\<rparr>,
     ap_thread = sample_thread, ap_counts = \<lambda>_. 0, ap_next_ns = \<lambda>_. 0, ap_bursts = \<lambda>_. burst_init, ap_rng = 1,
     ap_dedups = no_dedups, ap_user = ()\<rparr>"

definition sample_call :: "Level \<Rightarrow> bool \<Rightarrow> Level \<times> clocks \<times> val list" where
  "sample_call lv b = (lv, \<lparr>ck_steady = 0, ck_summary = 0, ck_line = 1500000\<rparr>, [VBool b])"

lemma sample_facts:
  "logs_to_file sample_runtime 1 INFO sample_file sample_app"
  "default_instance (ap_proc sample_app) = Some 1" "ap_counts sample_app (st_addr sample_site) = 0"
  "call_fits sample_runtime sample_site WARN ''{}!'' (snd (sample_call lv b))" "format_fits ''{}!''"
  "0 < rt_fuel sample_runtime"
  "file_text sample_file sample_app = ''old''"
  "line_text sample_file sample_runtime sample_site WARN ''{}!'' (snd (sample_call lv b)) =
     ''2024-01-09 08:07:06.001500 WARN [5] io.cpp:42 | '' @ (if b then ''true'' else ''false'') @ ''!'' @ [CHR 0x0A]"
proof -
  have ctx: "line_ctx sample_runtime sample_site (fst (snd (sample_call lv b))) WARN = sample_ctx"
    by (simp add: line_ctx_def sample_runtime_def sample_site_def sample_call_def sample_ctx_def sample_env2_def)
  show "logs_to_file sample_runtime 1 INFO sample_file sample_app"
    using sample_line_facts(1) disk0_ok
    by (simp add: logs_to_file_def sample_app_def sample_runtime_def sample_file_def new_logger_def fd_inv_def)
  show "call_fits sample_runtime sample_site WARN ''{}!'' (snd (sample_call lv b))"
    using ctx sample_line_facts(2,3)
    by (cases b) (simp_all add: call_fits_def sample_call_def sample_runtime_def count_lit_chars_def peek_def)
  show "line_text sample_file sample_runtime sample_site WARN ''{}!'' (snd (sample_call lv b)) =
     ''2024-01-09 08:07:06.001500 WARN [5] io.cpp:42 | '' @ (if b then ''true'' else ''false'') @ ''!'' @ [CHR 0x0A]"
    using ctx sample_line_facts(3)
    by (cases b) (simp_all add: line_text_def line_body_def laid_out_def sample_file_def sample_call_def sample_runtime_def peek_def)
  show "format_fits ''{}!''" by (simp add: format_fits_def IOV_MAX_def count_lit_chars_def count_pieces_def peek_def)
qed (use disk0_ok in \<open>simp_all add: sample_app_def sample_runtime_def sample_site_def sample_file_def file_text_def\<close>)

section \<open>From the log call to the file\<close>

text \<open>
  C1: Calling a \<open>LOG_..._EVERY_N\<close> site again and again, with the default logger on a file and its level
  set before each call: all calls return, and of the calls whose level is on, numbered from 0, exactly
  the lines of those with a multiple of \<open>n\<close> are in the file, complete, in order and with no byte more,
  through every partial and interrupted write; each is the header, the format filled with that call's
  arguments, and a newline. The other calls are not even counted.
\<close>

theorem every_n_site_to_file:
  assumes "logs_to_file rt a lv k s" "default_instance (ap_proc s) = Some a" "ap_counts s (st_addr st) = 0"
    "\<forall>c \<in> set cs. call_fits rt st lvl fmt (snd c)" "format_fits fmt" "0 < rt_fuel rt" "length cs \<le> 2 ^ 64"
  shows "\<exists>s'. log_all a (\<lambda>ck. LOG_EVERY_N lvl n rt st ck fmt) cs s = Some s' \<and>
    file_text k s' = file_text k s @
      concat (map (\<lambda>i. line_text k rt st lvl fmt (on_calls lvl cs ! i))
        (filter (\<lambda>i. n = 0 \<or> i mod unat n = 0) [0 ..< length (on_calls lvl cs)]))"
proof -
  have gate: "every_n_gate (st_addr st) n a s =
      (let (b, c) = every_n_tick n (ap_counts s (st_addr st)) in Some (b, s\<lparr>ap_counts := (ap_counts s)(st_addr st := c)\<rparr>))"
    for a and s :: "'u app" by (simp add: every_n_gate_def)
  have "length (on_calls lvl cs) \<le> 2 ^ 64" using assms(7) by (rule length_on_calls)
  from every_n.first_calls [OF this, of n] show ?thesis
    using count_gate_calls [of "every_n_gate (st_addr st) n", OF gate assms(1,2,4-6)] assms(3)
    by (simp add: LOG_EVERY_N_def elog_internal_every_n_def zip_passing)
qed

theorem every_n_site_to_file_witness:
  "\<exists>s'. log_all 1 (\<lambda>ck. LOG_EVERY_N WARN 2 sample_runtime sample_site ck ''{}!'')
       [sample_call WARN True, sample_call ERROR True, sample_call INFO True, sample_call INFO False] sample_app = Some s' \<and>
     file_text sample_file s' =
       ''old2024-01-09 08:07:06.001500 WARN [5] io.cpp:42 | true!'' @ [CHR 0x0A] @
       ''2024-01-09 08:07:06.001500 WARN [5] io.cpp:42 | false!'' @ [CHR 0x0A]"
proof -
  let ?cs = "[sample_call WARN True, sample_call ERROR True, sample_call INFO True, sample_call INFO False]"
  have on: "on_calls WARN ?cs = map snd [sample_call WARN True, sample_call INFO True, sample_call INFO False]"
    by (simp add: on_calls_def sample_call_def less_eq_Level_def)
  have "\<forall>c \<in> set ?cs. call_fits sample_runtime sample_site WARN ''{}!'' (snd c)" using sample_facts(4) by simp
  from every_n_site_to_file [OF sample_facts(1-3) this sample_facts(5,6), of 2]
  show ?thesis unfolding on by (simp add: sample_facts)
qed

text \<open>
  C19: Likewise for a \<open>LOG_..._FIRST_N\<close> site: the file gets the lines of the first \<open>n\<close> calls whose level is
  on, and no byte more; calls while the level is off do not use the count up.
\<close>

theorem first_n_site_to_file:
  assumes "logs_to_file rt a lv k s" "default_instance (ap_proc s) = Some a" "ap_counts s (st_addr st) = 0"
    "\<forall>c \<in> set cs. call_fits rt st lvl fmt (snd c)" "format_fits fmt" "0 < rt_fuel rt" "length cs \<le> 2 ^ 64"
  shows "\<exists>s'. log_all a (\<lambda>ck. LOG_FIRST_N lvl n rt st ck fmt) cs s = Some s' \<and>
    file_text k s' = file_text k s @ concat (map (line_text k rt st lvl fmt) (take (unat n) (on_calls lvl cs)))"
proof -
  have gate: "first_n_gate (st_addr st) n a s =
      (let (b, c) = first_n_tick n (ap_counts s (st_addr st)) in Some (b, s\<lparr>ap_counts := (ap_counts s)(st_addr st := c)\<rparr>))"
    for a and s :: "'u app" by (simp add: first_n_gate_def)
  have len: "length (on_calls lvl cs) \<le> 2 ^ 64" using assms(7) by (rule length_on_calls)
  show ?thesis
    using count_gate_calls [of "first_n_gate (st_addr st) n", OF gate assms(1,2,4-6)] assms(3) first_n.first_calls [OF len, of n]
    by (simp add: LOG_FIRST_N_def elog_internal_first_n_def zip_passing first_passing)
qed

theorem first_n_site_to_file_witness:
  "\<exists>s'. log_all 1 (\<lambda>ck. LOG_FIRST_N WARN 1 sample_runtime sample_site ck ''{}!'')
       [sample_call ERROR True, sample_call WARN False, sample_call INFO True] sample_app = Some s' \<and>
     file_text sample_file s' = ''old2024-01-09 08:07:06.001500 WARN [5] io.cpp:42 | false!'' @ [CHR 0x0A]"
proof -
  let ?cs = "[sample_call ERROR True, sample_call WARN False, sample_call INFO True]"
  have on: "on_calls WARN ?cs = map snd [sample_call WARN False, sample_call INFO True]"
    by (simp add: on_calls_def sample_call_def less_eq_Level_def)
  have "\<forall>c \<in> set ?cs. call_fits sample_runtime sample_site WARN ''{}!'' (snd c)" using sample_facts(4) by simp
  from first_n_site_to_file [OF sample_facts(1-3) this sample_facts(5,6), of 1]
  show ?thesis unfolding on by (simp add: sample_facts)
qed

end
